(* ===== verification/Prelude.thy ===== *)
theory Prelude
  imports Main
begin

text \<open>
  Shared vocabulary of the development.

  \<^item> \<open>'a result\<close>: what a C routine yields. \<open>Inr x\<close> is a normal return; \<open>Inl OutOfBounds\<close> is an
    array access outside its declared length (undefined behaviour in C); \<open>Inl Misaligned\<close> is a file
    access that does not fall on a record boundary; \<open>Inl DivByZero\<close> is a remainder by zero;
    \<open>Inl IntOverflow\<close> an overflow of \<open>int\<close>; \<open>Inl BadShift\<close> a shift by a negative
    count; \<open>Inl BadUnlock\<close> the unlocking of a mutex one does not own;
    \<open>Inl OutOfFuel\<close> says that the recursion bound
    handed to a fuelled routine was used up. \<open>bnd\<close> sequences two routines.
  \<^item> \<open>'a run\<close>: what a routine yields that makes system calls. Besides faulting it may block for ever or
    end the process by \<open>exit(EXIT_FAILURE)\<close>.
  \<^item> \<open>aget\<close> and \<open>aset\<close>: checked reads and writes of a C array.
  \<^item> \<open>shift_up\<close> and \<open>shift_down\<close>: the two element-moving loops that the array code of the repository
    is written with, with closed forms for their results.
  \<^item> \<open>lowest_unused\<close>: the descriptor that the next \<open>open\<close>, \<open>socket\<close> or \<open>accept\<close> returns.
  \<^item> the collections \<open>result_simps\<close>, used as \<open>simp add: result_simps\<close>, and \<open>arr\<close>.
\<close>

named_theorems result_simps "computation rules for the result monad"
named_theorems arr "closed forms of checked array accesses and of the element-moving loops"

subsection \<open>Results and their sequencing\<close>

datatype fault = OutOfBounds | Misaligned | DivByZero | IntOverflow | BadShift | BadUnlock | OutOfFuel

type_synonym 'a result = "fault + 'a"

datatype stop = Blocked | Exit_failure | Fault fault

type_synonym 'a run = "stop + 'a"

definition bnd :: "'e + 'a \<Rightarrow> ('a \<Rightarrow> 'e + 'b) \<Rightarrow> 'e + 'b" where
  "bnd m k = (case m of Inl e \<Rightarrow> Inl e | Inr x \<Rightarrow> k x)"

lemma bnd_Inr [simp, result_simps]: "bnd (Inr x) k = k x"
  by (simp add: bnd_def)

lemma bnd_Inl [simp, result_simps]: "bnd (Inl e) k = Inl e"
  by (simp add: bnd_def)

lemma bnd_Inr_right [simp, result_simps]: "bnd m Inr = m"
  by (cases m) simp_all

lemma bnd_assoc: "bnd (bnd m k) l = bnd m (\<lambda>x. bnd (k x) l)"
  by (cases m) simp_all

lemma bnd_eq_Inr: "bnd m k = Inr y \<longleftrightarrow> (\<exists>x. m = Inr x \<and> k x = Inr y)"
  by (cases m) auto

lemma bnd_cong [fundef_cong]:
  "m = m' \<Longrightarrow> (\<And>x. m' = Inr x \<Longrightarrow> k x = k' x) \<Longrightarrow> bnd m k = bnd m' k'"
  by (cases m') simp_all

subsection \<open>Arrays\<close>

definition aget :: "'a list \<Rightarrow> nat \<Rightarrow> 'a result" where
  "aget xs i = (if i < length xs then Inr (xs ! i) else Inl OutOfBounds)"

definition aset :: "'a list \<Rightarrow> nat \<Rightarrow> 'a \<Rightarrow> 'a list result" where
  "aset xs i v = (if i < length xs then Inr (xs[i := v]) else Inl OutOfBounds)"

text \<open>\<open>a[n - k]\<close> for an index that the code computes by a subtraction on \<open>int\<close>: negative when
  \<open>n < k\<close>, and then outside the array.\<close>

definition aget_sub :: "'a list \<Rightarrow> nat \<Rightarrow> nat \<Rightarrow> 'a result" where
  "aget_sub xs n k = (if k \<le> n then aget xs (n - k) else Inl OutOfBounds)"

lemma aget_ok [arr]: "i < length xs \<Longrightarrow> aget xs i = Inr (xs ! i)"
  by (simp add: aget_def)

lemma aset_ok [arr]: "i < length xs \<Longrightarrow> aset xs i v = Inr (xs[i := v])"
  by (simp add: aset_def)

lemma aget_sub_ok [arr]: "k \<le> n \<Longrightarrow> n - k < length xs \<Longrightarrow> aget_sub xs n k = Inr (xs ! (n - k))"
  by (simp add: aget_sub_def aget_ok)

text \<open>\<open>for (j = hi; j > lo; --j) a[j] = a[j-1];\<close>\<close>

fun shift_up :: "'a list \<Rightarrow> nat \<Rightarrow> nat \<Rightarrow> 'a list result" where
  "shift_up xs 0 lo = Inr xs"
| "shift_up xs (Suc j) lo =
     (if lo < Suc j then bnd (aget xs j) (\<lambda>v. bnd (aset xs (Suc j) v) (\<lambda>ys. shift_up ys j lo))
      else Inr xs)"

text \<open>\<open>for (j = lo; j < hi; j++) a[j] = a[j+1];\<close>\<close>

function shift_down :: "'a list \<Rightarrow> nat \<Rightarrow> nat \<Rightarrow> 'a list result" where
  "shift_down xs j hi =
     (if j < hi then bnd (aget xs (Suc j)) (\<lambda>v. bnd (aset xs j v) (\<lambda>ys. shift_down ys (Suc j) hi))
      else Inr xs)"
  by pat_completeness auto
termination
  by (relation "measure (\<lambda>(xs, j, hi). hi - j)") auto

declare shift_down.simps [simp del]

text \<open>\<open>for (j = 0; j < n; j++) dst[off + j] = src[j];\<close>\<close>

fun copy_into :: "'a list \<Rightarrow> nat \<Rightarrow> 'a list \<Rightarrow> nat \<Rightarrow> 'a list result" where
  "copy_into dst off src 0 = Inr dst"
| "copy_into dst off src (Suc j) =
     bnd (copy_into dst off src j) (\<lambda>d. bnd (aget src j) (\<lambda>v. aset d (off + j) v))"

subsection \<open>Closed forms\<close>

lemma nth_take_drop_cases:
  "i < length xs \<Longrightarrow> take i xs @ xs ! i # drop (Suc i) xs = xs"
  by (simp add: Cons_nth_drop_Suc)

lemma shift_up_ok [arr]:
  "lo \<le> hi \<Longrightarrow> hi < length xs \<Longrightarrow>
   shift_up xs hi lo = Inr (take (Suc lo) xs @ take (hi - lo) (drop lo xs) @ drop (Suc hi) xs)"
proof (induction xs hi lo rule: shift_up.induct)
  case (1 xs lo)
  then show ?case by (simp add: nth_take_drop_cases [of 0, simplified])
next
  case (2 xs j lo)
  show ?case
  proof (cases "lo < Suc j")
    case True
    let ?ys = "xs[Suc j := xs ! j]"
    have *: "shift_up ?ys j lo
        = Inr (take (Suc lo) ?ys @ take (j - lo) (drop lo ?ys) @ drop (Suc j) ?ys)"
      using True "2.prems" by (intro "2.IH" [of "xs ! j"]) (auto simp: aget_ok aset_ok)
    have "take (Suc lo) ?ys @ take (j - lo) (drop lo ?ys) @ drop (Suc j) ?ys
        = take (Suc lo) xs @ take (Suc j - lo) (drop lo xs) @ drop (Suc (Suc j)) xs"
      using True "2.prems"
      by (auto intro!: nth_equalityI simp: nth_append nth_list_update min_def not_less
          less_Suc_eq_le not_le add.commute split: if_splits)
    with * True "2.prems" show ?thesis by (simp add: aget_ok aset_ok)
  next
    case False
    with "2.prems" have "lo = Suc j" by simp
    with "2.prems" show ?thesis by simp
  qed
qed

lemma shift_down_ok [arr]:
  "lo \<le> hi \<Longrightarrow> hi < length xs \<Longrightarrow>
   shift_down xs lo hi = Inr (take lo xs @ take (hi - lo) (drop (Suc lo) xs) @ drop hi xs)"
proof (induction xs lo hi rule: shift_down.induct)
  case (1 xs j hi)
  show ?case
  proof (cases "j < hi")
    case True
    let ?ys = "xs[j := xs ! Suc j]"
    have *: "shift_down ?ys (Suc j) hi
        = Inr (take (Suc j) ?ys @ take (hi - Suc j) (drop (Suc (Suc j)) ?ys) @ drop hi ?ys)"
      using True "1.prems" by (intro "1.IH" [of "xs ! Suc j"]) (auto simp: aget_ok aset_ok)
    have "take (Suc j) ?ys @ take (hi - Suc j) (drop (Suc (Suc j)) ?ys) @ drop hi ?ys
        = take j xs @ take (hi - j) (drop (Suc j) xs) @ drop hi xs"
      using True "1.prems"
      by (auto intro!: nth_equalityI simp: nth_append nth_list_update min_def not_less
          less_Suc_eq_le not_le Suc_diff_Suc split: if_splits)
    with * True "1.prems" show ?thesis
      by (subst shift_down.simps) (simp add: aget_ok aset_ok)
  next
    case False
    with "1.prems" show ?thesis by (subst shift_down.simps) simp
  qed
qed

lemma copy_into_ok [arr]:
  "n \<le> length src \<Longrightarrow> off + n \<le> length dst \<Longrightarrow>
   copy_into dst off src n = Inr (take off dst @ take n src @ drop (off + n) dst)"
proof (induction n)
  case 0
  then show ?case by simp
next
  case (Suc n)
  let ?d = "take off dst @ take n src @ drop (off + n) dst"
  have "?d[off + n := src ! n] = take off dst @ take (Suc n) src @ drop (off + Suc n) dst"
    using Suc.prems
    by (auto intro!: nth_equalityI simp: nth_append nth_list_update min_def not_less not_le
        less_Suc_eq split: if_splits)
  with Suc show ?case by (simp add: aget_ok aset_ok)
qed

subsection \<open>Descriptors\<close>

text \<open>The kernel hands out the lowest descriptor that is not open.\<close>

definition lowest_unused :: "nat list \<Rightarrow> nat" where
  "lowest_unused os = hd (filter (\<lambda>n. n \<notin> set os) [0..<Suc (length os)])"

lemma hd_filter: "filter P xs \<noteq> [] \<Longrightarrow> P (hd (filter P xs))"
  by (induction xs) auto

lemma lowest_unused_fresh: "lowest_unused os \<notin> set os"
proof -
  have "\<exists>n<Suc (length os). n \<notin> set os"
  proof (rule ccontr)
    assume "\<not> ?thesis"
    then have "card {..<Suc (length os)} \<le> card (set os)"
      by (intro card_mono) auto
    then show False
      using card_length [of os] by simp
  qed
  then have "filter (\<lambda>n. n \<notin> set os) [0..<Suc (length os)] \<noteq> []"
    by (simp add: filter_empty_conv Bex_def Ball_def del: upt_Suc)
  then show ?thesis
    unfolding lowest_unused_def by (rule hd_filter)
qed

lemma lowest_unused_upt: "lowest_unused [0..<n] = n"
proof -
  have "filter (\<lambda>m. m \<notin> set [0..<n]) [0..<Suc (length [0..<n])] = [n]"
    by (simp add: filter_empty_conv)
  then show ?thesis
    by (simp only: lowest_unused_def list.sel(1))
qed

end
