(* ===== verification/BpFile.thy ===== *)
theory BpFile
  imports Prelude
begin

text \<open>
  The node record of \<open>data_structure/bptree.cpp\<close> and the index file that holds the nodes.

  \<^item> \<open>Node\<close> is \<open>class Node\<close>: the arrays \<open>key\<close> (length \<open>MAX_KEY\<close>) and \<open>pointer\<close> (length
    \<open>MAX_KEY + 1\<close>) are lists, \<open>key_total\<close> is a natural number (the code never makes it negative).
    Keys are C \<open>int\<close>s that are only copied and compared, hence \<open>int\<close>; pointers and offsets are
    \<open>unsigned int\<close>s, hence \<open>nat\<close>, with \<open>NIL\<close> for \<open>(unsigned) -1\<close>.
  \<^item> \<open>bfile\<close>, a list of nodes, is the index file: the code reads and writes whole \<open>Node\<close> records of
    \<open>NODE_SIZE\<close> bytes, and node \<open>i\<close> lies at byte offset \<open>NODE_SIZE * i\<close>. A read at or behind
    the end of the file leaves its target unchanged (\<open>fread\<close> returns 0); a write behind the end leaves
    a gap of zero bytes; an access inside the file that is not on a record boundary is \<open>Misaligned\<close>.
  \<^item> the locale \<open>node_store\<close> is what the tree code relies on: reading back what was written, and frames.
\<close>

abbreviation MAX_KEY :: nat where
  "MAX_KEY \<equiv> 5"

abbreviation NIL :: nat where
  "NIL \<equiv> 4294967295"

abbreviation NODE_SIZE :: nat where
  "NODE_SIZE \<equiv> 52"

record Key_Pointer =
  kp_key :: int
  kp_pointer :: nat

record Node =
  key :: "int list"
  pointer :: "nat list"
  key_total :: nat
  is_leaf :: bool

type_synonym bfile = "Node list"

definition new_node :: Node where
  "new_node = \<lparr>key = replicate MAX_KEY (-1), pointer = replicate (Suc MAX_KEY) NIL,
     key_total = 0, is_leaf = False\<rparr>"

text \<open>\<open>Node::copy\<close>: every element of the two arrays, then the two scalars.\<close>

definition node_copy :: "Node \<Rightarrow> Node \<Rightarrow> Node result" where
  "node_copy n dest =
     bnd (copy_into (key dest) 0 (key n) MAX_KEY) (\<lambda>ks.
     bnd (copy_into (pointer dest) 0 (pointer n) MAX_KEY) (\<lambda>ps.
     bnd (aget (pointer n) MAX_KEY) (\<lambda>p.
     bnd (aset ps MAX_KEY p) (\<lambda>ps.
       Inr (dest\<lparr>key := ks, pointer := ps, key_total := key_total n, is_leaf := is_leaf n\<rparr>)))))"

text \<open>The bytes of a gap that \<open>fseek\<close> behind the end of the file leaves.\<close>

definition zero_node :: Node where
  "zero_node = \<lparr>key = replicate MAX_KEY 0, pointer = replicate (Suc MAX_KEY) 0,
     key_total = 0, is_leaf = False\<rparr>"

text \<open>\<open>ftell\<close> at the end of the file, converted to the 32-bit \<open>Offset\<close> it is used as.\<close>

definition get_final_node :: "bfile \<Rightarrow> nat" where
  "get_final_node f = (NODE_SIZE * length f) mod 2 ^ 32"

definition read_node_from_file :: "bfile \<Rightarrow> nat \<Rightarrow> Node \<Rightarrow> Node result" where
  "read_node_from_file f bp_offset n =
     (if NODE_SIZE * length f \<le> bp_offset then Inr n
      else if bp_offset mod NODE_SIZE = 0 then Inr (f ! (bp_offset div NODE_SIZE))
      else Inl Misaligned)"

definition write_node_to_file :: "bfile \<Rightarrow> nat \<Rightarrow> Node \<Rightarrow> bfile result" where
  "write_node_to_file f bp_offset n =
     (if bp_offset mod NODE_SIZE = 0
      then let i = bp_offset div NODE_SIZE
           in Inr ((f @ replicate (Suc i - length f) zero_node)[i := n])
      else Inl Misaligned)"

subsection \<open>Shapes\<close>

definition shaped :: "Node \<Rightarrow> bool" where
  "shaped n \<longleftrightarrow> length (key n) = MAX_KEY \<and> length (pointer n) = Suc MAX_KEY"

lemma shaped_new_node [simp]: "shaped new_node"
  by (simp add: shaped_def new_node_def)

lemma shaped_simps [simp]:
  "shaped (n\<lparr>key_total := t\<rparr>) = shaped n" "shaped (n\<lparr>is_leaf := b\<rparr>) = shaped n"
  by (simp_all add: shaped_def)

lemma node_copy_shaped:
  assumes "shaped n" "shaped dest"
  shows "node_copy n dest = Inr n"
proof -
  let ?ps = "take MAX_KEY (pointer n) @ drop MAX_KEY (pointer dest)"
  have ps: "?ps[MAX_KEY := pointer n ! MAX_KEY] = pointer n"
    using assms by (auto intro!: nth_equalityI simp: shaped_def nth_append nth_list_update
        min_def less_Suc_eq)
  have "n = dest\<lparr>key := key n, pointer := pointer n, key_total := key_total n, is_leaf := is_leaf n\<rparr>"
    by simp
  with ps assms show ?thesis
    by (simp add: node_copy_def shaped_def arr)
qed

subsection \<open>The contract of a store of records\<close>

text \<open>\<open>slot\<close> names the record an offset addresses, \<open>size\<close> counts the records.\<close>

locale node_store =
  fixes rd :: "'f \<Rightarrow> nat \<Rightarrow> 'n result"
    and wr :: "'f \<Rightarrow> nat \<Rightarrow> 'n \<Rightarrow> 'f result"
    and size :: "'f \<Rightarrow> nat"
    and off :: "nat \<Rightarrow> nat"
  assumes wr_ok: "i \<le> size f \<Longrightarrow> \<exists>g. wr f (off i) n = Inr g"
    and rd_wr_same: "wr f (off i) n = Inr g \<Longrightarrow> i \<le> size f \<Longrightarrow> rd g (off i) = Inr n"
    and rd_wr_other: "wr f (off i) n = Inr g \<Longrightarrow> i \<le> size f \<Longrightarrow> j < size f \<Longrightarrow> j \<noteq> i \<Longrightarrow>
      rd g (off j) = rd f (off j)"
    and size_wr: "wr f (off i) n = Inr g \<Longrightarrow> i \<le> size f \<Longrightarrow> size g = max (size f) (Suc i)"
begin

text \<open>A record written into an existing slot changes that slot only; one appended changes none.\<close>

lemma frame:
  assumes "wr f (off i) n = Inr g" "i \<le> size f" "A \<subseteq> {..<size f}" "i \<notin> A"
  shows "\<forall>j\<in>A. rd g (off j) = rd f (off j)"
  using assms rd_wr_other by blast

lemma append_frame:
  assumes "wr f (off (size f)) n = Inr g"
  shows "size g = Suc (size f)" "\<forall>j<size f. rd g (off j) = rd f (off j)"
  using size_wr [OF assms] rd_wr_other [OF assms] by auto

lemma update_size:
  assumes "wr f (off i) n = Inr g" "i < size f"
  shows "size g = size f"
  using size_wr [OF assms(1)] assms(2) by simp

text \<open>Two writes into different slots: both are seen.\<close>

lemma write_two:
  assumes f1: "wr f (off i) m = Inr f1" and f2: "wr f1 (off j) n = Inr f2"
    and ij: "i < size f" "j < size f" "i \<noteq> j"
  shows "rd f2 (off i) = Inr m" "rd f2 (off j) = Inr n" "size f2 = size f"
proof -
  have s1: "size f1 = size f" using update_size [OF f1 ij(1)] .
  show "rd f2 (off j) = Inr n" using rd_wr_same [OF f2] ij s1 by simp
  show "rd f2 (off i) = Inr m"
    using rd_wr_other [OF f2, of i] rd_wr_same [OF f1] ij s1 by simp
  show "size f2 = size f" using update_size [OF f2] ij s1 by simp
qed

end

definition rdn :: "bfile \<Rightarrow> nat \<Rightarrow> Node result" where
  "rdn f off = read_node_from_file f off new_node"

lemma read_slot [simp]: "i < length f \<Longrightarrow> read_node_from_file f (NODE_SIZE * i) n = Inr (f ! i)"
  by (simp add: read_node_from_file_def)

lemma write_slot [simp]:
  "i < length f \<Longrightarrow> write_node_to_file f (NODE_SIZE * i) n = Inr (f[i := n])"
  by (simp add: write_node_to_file_def Let_def)

lemma write_append [simp]: "write_node_to_file f (NODE_SIZE * length f) n = Inr (f @ [n])"
  by (simp add: write_node_to_file_def Let_def)

lemma write_slot_le:
  "i \<le> length f \<Longrightarrow> write_node_to_file f (NODE_SIZE * i) n =
     Inr (if i = length f then f @ [n] else f[i := n])"
  by auto

interpretation bps: node_store rdn write_node_to_file length "\<lambda>i. NODE_SIZE * i"
  by unfold_locales
    (auto simp: rdn_def write_slot_le nth_append split: if_splits)

end
