(* ===== verification/BpTree.thy ===== *)
theory BpTree
  imports BpFile
begin

text \<open>
  The operations of \<open>class Bp_tree\<close> in \<open>data_structure/bptree.cpp\<close> other than removal.

  \<^item> \<open>Bp_tree\<close> is the object: the offset of the root and the index file. Private helpers take and
    return the file; the public operations \<open>build\<close>, \<open>bp_insert\<close> and \<open>query\<close> work on the object.
  \<^item> \<open>scan\<close> is the search loop over a node's keys, \<open>split\<close>, \<open>insert_pos\<close> and \<open>query_pos\<close> are the
    methods of the same names. The two recursive ones take fuel: \<open>Inl OutOfFuel\<close> stands for a
    recursion deeper than the bound, and \<open>BpCorrect\<close> shows how much is enough.
  \<^item> the loops of \<open>main\<close> that fill the tree are \<open>insert_down\<close>.
\<close>

record Bp_tree =
  root :: nat
  bp_file :: bfile

text \<open>\<open>Bp_tree::Bp_tree\<close> on an existing file with the contents \<open>f\<close>.\<close>

definition open_tree :: "bfile \<Rightarrow> Bp_tree" where
  "open_tree f = \<lparr>root = 0, bp_file = f\<rparr>"

definition build :: "Bp_tree \<Rightarrow> Bp_tree result" where
  "build t =
     (let start = get_final_node (bp_file t)
      in if start \<noteq> 0 then Inr t
         else bnd (aset (pointer new_node) MAX_KEY 0) (\<lambda>ps.
              bnd (write_node_to_file (bp_file t) start
                     (new_node\<lparr>pointer := ps, key_total := 0, is_leaf := True\<rparr>)) (\<lambda>f.
                Inr (t\<lparr>bp_file := f\<rparr>))))"

text \<open>\<open>for (i = 0; i < key_total && key[i] < k; ++i);\<close>\<close>

function scan :: "int list \<Rightarrow> nat \<Rightarrow> int \<Rightarrow> nat \<Rightarrow> nat result" where
  "scan ks n k i =
     (if i < n then bnd (aget ks i) (\<lambda>x. if x < k then scan ks n k (Suc i) else Inr i)
      else Inr i)"
  by pat_completeness auto
termination
  by (relation "measure (\<lambda>(ks, n, k, i). n - i)") auto

declare scan.simps [simp del]

text \<open>\<open>split\<close> returns the parent, the child and the file; the right half is appended to the file.\<close>

definition split :: "Node \<Rightarrow> Node \<Rightarrow> nat \<Rightarrow> bfile \<Rightarrow> (Node \<times> Node \<times> bfile) result" where
  "split parent_node child_node child_num f =
     (let half = drop_bit 1 MAX_KEY; n = key_total parent_node in
      bnd (aget (pointer parent_node) n) (\<lambda>p.
      bnd (aset (pointer parent_node) (Suc n) p) (\<lambda>pps.
      bnd (shift_up (key parent_node) n child_num) (\<lambda>pks.
      bnd (shift_up pps n child_num) (\<lambda>pps.
      bnd (aget (key child_node) half) (\<lambda>k.
      bnd (aset pks child_num k) (\<lambda>pks.
      let right = get_final_node f; total = MAX_KEY - half - 1 in
      bnd (copy_into (key new_node) 0 (drop (half + 1) (key child_node)) total) (\<lambda>rks.
      bnd (copy_into (pointer new_node) 0 (drop (half + 1) (pointer child_node)) total) (\<lambda>rps.
      bnd (aget (pointer child_node) MAX_KEY) (\<lambda>p.
      bnd (aset rps total p) (\<lambda>rps.
      bnd (aset pps (Suc child_num) right) (\<lambda>pps.
      let parent' = parent_node\<lparr>key := pks, pointer := pps, key_total := Suc n\<rparr> in
      bnd (if is_leaf child_node
           then bnd (aset rps MAX_KEY p) (\<lambda>rps.
                bnd (aset (pointer child_node) MAX_KEY right) (\<lambda>cps.
                  Inr (rps, cps, Suc half)))
           else Inr (rps, pointer child_node, half)) (\<lambda>(rps, cps, ct).
      bnd (write_node_to_file f right
             \<lparr>key = rks, pointer = rps, key_total = total, is_leaf = is_leaf child_node\<rparr>) (\<lambda>f.
        Inr (parent', child_node\<lparr>pointer := cps, key_total := ct\<rparr>, f)))))))))))))))"

fun insert_pos :: "nat \<Rightarrow> Key_Pointer \<Rightarrow> nat \<Rightarrow> bfile \<Rightarrow> bfile result" where
  "insert_pos 0 kp cur f = Inl OutOfFuel"
| "insert_pos (Suc fuel) kp cur f =
     bnd (read_node_from_file f cur new_node) (\<lambda>curr_node.
     bnd (scan (key curr_node) (key_total curr_node) (kp_key kp) 0) (\<lambda>i.
     bnd (if i < key_total curr_node
          then bnd (aget (key curr_node) i) (\<lambda>x. Inr (x = kp_key kp)) else Inr False) (\<lambda>exists_already.
     if exists_already then Inr f
     else if \<not> is_leaf curr_node then
       bnd (aget (pointer curr_node) i) (\<lambda>p.
       bnd (read_node_from_file f p new_node) (\<lambda>child_node.
       bnd (if key_total child_node = MAX_KEY
            then bnd (split curr_node child_node i f) (\<lambda>(curr_node, child_node, f).
                 bnd (write_node_to_file f cur curr_node) (\<lambda>f.
                 bnd (aget (pointer curr_node) i) (\<lambda>p.
                 bnd (write_node_to_file f p child_node) (\<lambda>f.
                   Inr (curr_node, f)))))
            else Inr (curr_node, f)) (\<lambda>(curr_node, f).
       bnd (aget (key curr_node) i) (\<lambda>x.
       if x \<ge> kp_key kp \<or> i = key_total curr_node
       then bnd (aget (pointer curr_node) i) (\<lambda>p. insert_pos fuel kp p f)
       else bnd (aget (pointer curr_node) (Suc i)) (\<lambda>p. insert_pos fuel kp p f)))))
     else
       bnd (shift_up (key curr_node) (key_total curr_node) i) (\<lambda>ks.
       bnd (shift_up (pointer curr_node) (key_total curr_node) i) (\<lambda>ps.
       bnd (aset ks i (kp_key kp)) (\<lambda>ks.
       bnd (aset ps i (kp_pointer kp)) (\<lambda>ps.
         write_node_to_file f cur
           (curr_node\<lparr>key := ks, pointer := ps, key_total := Suc (key_total curr_node)\<rparr>)))))))) "

definition bp_insert :: "nat \<Rightarrow> Key_Pointer \<Rightarrow> Bp_tree \<Rightarrow> Bp_tree result" where
  "bp_insert fuel kp t =
     bnd (read_node_from_file (bp_file t) (root t) new_node) (\<lambda>root_node.
     bnd (if key_total root_node = MAX_KEY
          then let last_off = get_final_node (bp_file t) in
            bnd (aget_sub (key root_node) (key_total root_node) 1) (\<lambda>k.
            bnd (aset (key new_node) 0 k) (\<lambda>ks.
            bnd (aset (pointer new_node) 0 (root t)) (\<lambda>ps.
            let new_root_node = new_node\<lparr>is_leaf := False, key_total := 0, key := ks, pointer := ps\<rparr> in
            bnd (write_node_to_file (bp_file t) last_off new_root_node) (\<lambda>f.
            bnd (split new_root_node root_node 0 f) (\<lambda>(new_root_node, root_node, f).
            bnd (node_copy new_root_node new_node) (\<lambda>tmp_node.
            bnd (aset (pointer tmp_node) 0 last_off) (\<lambda>ps.
            bnd (write_node_to_file f last_off root_node) (\<lambda>f.
            bnd (write_node_to_file f 0 (tmp_node\<lparr>pointer := ps\<rparr>)) (\<lambda>f.
              Inr \<lparr>root = 0, bp_file = f\<rparr>)))))))))
          else Inr t) (\<lambda>t.
     bnd (insert_pos fuel kp (root t) (bp_file t)) (\<lambda>f. Inr (t\<lparr>bp_file := f\<rparr>))))"

text \<open>\<open>get_bpos\<close> asks for the offset of the leaf that holds the key instead of its pointer.\<close>

fun query_pos :: "nat \<Rightarrow> int \<Rightarrow> nat \<Rightarrow> bool \<Rightarrow> bfile \<Rightarrow> nat result" where
  "query_pos 0 k cur get_bpos f = Inl OutOfFuel"
| "query_pos (Suc fuel) k cur get_bpos f =
     bnd (read_node_from_file f cur new_node) (\<lambda>curr_node.
     if key_total curr_node = 0 \<and> \<not> is_leaf curr_node
     then bnd (aget (pointer curr_node) 0) (\<lambda>p. query_pos fuel k p get_bpos f)
     else if \<not> is_leaf curr_node
     then bnd (scan (key curr_node) (key_total curr_node) k 0) (\<lambda>i.
          bnd (aget (pointer curr_node) i) (\<lambda>p. query_pos fuel k p get_bpos f))
     else bnd (scan (key curr_node) (key_total curr_node) k 0) (\<lambda>i.
          bnd (if i < key_total curr_node
               then bnd (aget (key curr_node) i) (\<lambda>x. Inr (x = k)) else Inr False) (\<lambda>found.
          if found then (if get_bpos then Inr cur else aget (pointer curr_node) i)
          else Inr NIL)))"

definition query :: "nat \<Rightarrow> int \<Rightarrow> bool \<Rightarrow> Bp_tree \<Rightarrow> nat result" where
  "query fuel k get_bpos t = query_pos fuel k (root t) get_bpos (bp_file t)"

text \<open>\<open>for (int i = total - 1; i >= 0; --i) bt.insert(kp)\<close> with key \<open>i\<close> and pointer \<open>i * 100\<close>.\<close>

fun insert_down :: "nat \<Rightarrow> nat \<Rightarrow> Bp_tree \<Rightarrow> Bp_tree result" where
  "insert_down fuel 0 t = Inr t"
| "insert_down fuel (Suc i) t =
     bnd (bp_insert fuel \<lparr>kp_key = int i, kp_pointer = i * 100\<rparr> t) (\<lambda>t. insert_down fuel i t)"

subsection \<open>The search loop\<close>

definition pos_in :: "int list \<Rightarrow> int \<Rightarrow> nat" where
  "pos_in ks k = length (takeWhile (\<lambda>x. x < k) ks)"

lemma pos_in_le: "pos_in ks k \<le> length ks"
  by (simp add: pos_in_def length_takeWhile_le)

lemma scan_from:
  "n \<le> length ks \<Longrightarrow> i \<le> n \<Longrightarrow> scan ks n k i = Inr (i + pos_in (drop i (take n ks)) k)"
proof (induction ks n k i rule: scan.induct)
  case (1 ks n k i)
  show ?case
  proof (cases "i < n")
    case True
    have d: "drop i (take n ks) = ks ! i # drop (Suc i) (take n ks)"
      using True "1.prems" by (metis Cons_nth_drop_Suc length_take min.absorb2 nth_take)
    show ?thesis
    proof (cases "ks ! i < k")
      case less: True
      have "scan ks n k (Suc i) = Inr (Suc i + pos_in (drop (Suc i) (take n ks)) k)"
        using True less "1.prems" by (intro "1.IH" [of "ks ! i"]) (auto simp: arr)
      with True less "1.prems" d show ?thesis
        by (simp only: scan.simps [of ks n k i]) (simp add: aget_ok pos_in_def)
    next
      case False
      with True "1.prems" d show ?thesis
        by (simp only: scan.simps [of ks n k i]) (simp add: aget_ok pos_in_def)
    qed
  next
    case False
    then show ?thesis using "1.prems" by (subst scan.simps) (simp add: pos_in_def)
  qed
qed

lemma scan_ok [arr]: "n \<le> length ks \<Longrightarrow> scan ks n k 0 = Inr (pos_in (take n ks) k)"
  using scan_from [of n ks 0 k] unfolding drop_0 add_0 by blast

lemma pos_in_split:
  assumes "i = pos_in ks k"
  shows "(\<forall>x\<in>set (take i ks). x < k) \<and> (i < length ks \<longrightarrow> \<not> ks ! i < k)"
proof -
  have t: "take i ks = takeWhile (\<lambda>x. x < k) ks"
    unfolding assms pos_in_def by (rule takeWhile_eq_take [symmetric])
  have "\<forall>x\<in>set (take i ks). x < k" unfolding t by (auto dest: set_takeWhileD)
  moreover have "i < length ks \<longrightarrow> \<not> ks ! i < k"
    using assms nth_length_takeWhile [of "\<lambda>x. x < k" ks] by (simp add: pos_in_def)
  ultimately show ?thesis by simp
qed

end
