(* ===== verification/BpRemove.thy ===== *)
theory BpRemove
  imports BpTree
begin

text \<open>
  \<open>Bp_tree::remove\<close> and \<open>Bp_tree::remove_pos\<close> of \<open>data_structure/bptree.cpp\<close>.

  The method descends from the root, and before it enters a child that holds too few keys it borrows
  from a sibling or merges with one; the source labels the situations A to Q, and each has a definition
  of its own here, on the nodes it touches. \<open>fix_leaf_hit\<close> collects B to E (the key was found in the
  current node and the child is a leaf), \<open>fix_inner\<close> H to L (the child is an inner node; the source
  has this block twice), \<open>fix_leaf_miss\<close> M to Q. They return the current node, the file and the
  index of the child to descend into, which a merge with the left sibling decrements.

  Sibling reads are checked: \<open>Inl OutOfBounds\<close> for an index outside an array.
\<close>

subsection \<open>Found in the current node, the child is a leaf (A to E)\<close>

text \<open>A: the child has keys to spare: replace the separator by the last key but one and drop the last.\<close>

definition case_A :: "Node \<Rightarrow> Node \<Rightarrow> nat \<Rightarrow> (Node \<times> Node) result" where
  "case_A cur_node child_node i =
     bnd (aget_sub (key child_node) (key_total child_node) 2) (\<lambda>k.
     bnd (aset (key cur_node) i k) (\<lambda>ks.
       Inr (cur_node\<lparr>key := ks\<rparr>, child_node\<lparr>key_total := key_total child_node - 1\<rparr>)))"

text \<open>B: borrow the last entry of the left sibling.\<close>

definition case_B :: "Node \<Rightarrow> Node \<Rightarrow> Node \<Rightarrow> nat \<Rightarrow> (Node \<times> Node \<times> Node) result" where
  "case_B cur_node child_node lbchild_node i =
     bnd (shift_up (key child_node) (key_total child_node) 0) (\<lambda>cks.
     bnd (shift_up (pointer child_node) (key_total child_node) 0) (\<lambda>cps.
     bnd (aget_sub (key cur_node) i 1) (\<lambda>k.
     bnd (aset cks 0 k) (\<lambda>cks.
     bnd (aget_sub (pointer lbchild_node) (key_total lbchild_node) 1) (\<lambda>p.
     bnd (aset cps 0 p) (\<lambda>cps.
     let child_node = child_node\<lparr>key := cks, pointer := cps, key_total := Suc (key_total child_node)\<rparr>;
         lbchild_node = lbchild_node\<lparr>key_total := key_total lbchild_node - 1\<rparr> in
     bnd (aget_sub (key lbchild_node) (key_total lbchild_node) 1) (\<lambda>k.
     bnd (aset (key cur_node) (i - 1) k) (\<lambda>ks.
     bnd (aget_sub (key child_node) (key_total child_node) 2) (\<lambda>k.
     bnd (aset ks i k) (\<lambda>ks.
       Inr (cur_node\<lparr>key := ks\<rparr>, child_node, lbchild_node)))))))))))"

text \<open>Entry \<open>i\<close> of the current node and the pointer to its right go: the loop shared by the merges.\<close>

definition drop_entry :: "Node \<Rightarrow> nat \<Rightarrow> Node result" where
  "drop_entry cur_node i =
     bnd (shift_down (key cur_node) i (key_total cur_node - 1)) (\<lambda>ks.
     bnd (shift_down (pointer cur_node) (Suc i) (key_total cur_node)) (\<lambda>ps.
       Inr (cur_node\<lparr>key := ks, pointer := ps, key_total := key_total cur_node - 1\<rparr>)))"

text \<open>The entries of the leaf \<open>src\<close> behind those of the leaf \<open>dst\<close>, with the link to the next leaf.\<close>

definition append_leaf :: "Node \<Rightarrow> Node \<Rightarrow> Node result" where
  "append_leaf dst src =
     bnd (copy_into (key dst) (key_total dst) (key src) (key_total src)) (\<lambda>ks.
     bnd (copy_into (pointer dst) (key_total dst) (pointer src) (key_total src)) (\<lambda>ps.
     bnd (aget (pointer src) MAX_KEY) (\<lambda>p.
     bnd (aset ps MAX_KEY p) (\<lambda>ps.
       Inr (dst\<lparr>key := ks, pointer := ps, key_total := key_total dst + key_total src\<rparr>)))))"

text \<open>C: merge the child into its left sibling.\<close>

definition case_C :: "Node \<Rightarrow> Node \<Rightarrow> Node \<Rightarrow> nat \<Rightarrow> (Node \<times> Node) result" where
  "case_C cur_node child_node lbchild_node i =
     bnd (append_leaf lbchild_node child_node) (\<lambda>lbchild_node.
     bnd (drop_entry cur_node (i - 1)) (\<lambda>cur_node.
     bnd (aget_sub (key lbchild_node) (key_total lbchild_node) 2) (\<lambda>k.
     bnd (aset (key cur_node) (i - 1) k) (\<lambda>ks.
       Inr (cur_node\<lparr>key := ks\<rparr>, lbchild_node)))))"

text \<open>D: borrow the first entry of the right sibling.\<close>

definition case_D :: "Node \<Rightarrow> Node \<Rightarrow> Node \<Rightarrow> nat \<Rightarrow> (Node \<times> Node \<times> Node) result" where
  "case_D cur_node child_node rbchild_node i =
     bnd (aget (key rbchild_node) 0) (\<lambda>k.
     bnd (aset (key cur_node) i k) (\<lambda>ks.
     bnd (aset (key child_node) (key_total child_node) k) (\<lambda>cks.
     bnd (aget (pointer rbchild_node) 0) (\<lambda>p.
     bnd (aset (pointer child_node) (key_total child_node) p) (\<lambda>cps.
     bnd (shift_down (key rbchild_node) 0 (key_total rbchild_node - 1)) (\<lambda>rks.
     bnd (shift_down (pointer rbchild_node) 0 (key_total rbchild_node - 1)) (\<lambda>rps.
       Inr (cur_node\<lparr>key := ks\<rparr>,
            child_node\<lparr>key := cks, pointer := cps, key_total := Suc (key_total child_node)\<rparr>,
            rbchild_node\<lparr>key := rks, pointer := rps, key_total := key_total rbchild_node - 1\<rparr>))))))))"

text \<open>E: merge the right sibling into the child.\<close>

definition case_E :: "Node \<Rightarrow> Node \<Rightarrow> Node \<Rightarrow> nat \<Rightarrow> (Node \<times> Node) result" where
  "case_E cur_node child_node rbchild_node i =
     bnd (append_leaf child_node rbchild_node) (\<lambda>child_node.
     bnd (drop_entry cur_node i) (\<lambda>cur_node.
       Inr (cur_node, child_node)))"

text \<open>B to E with their file accesses.\<close>

definition fix_leaf_hit :: "nat \<Rightarrow> Node \<Rightarrow> Node \<Rightarrow> nat \<Rightarrow> bfile \<Rightarrow> (Node \<times> nat \<times> bfile) result" where
  "fix_leaf_hit cur cur_node child_node i f =
     (if 0 < i then
        bnd (aget (pointer cur_node) (i - 1)) (\<lambda>lp.
        bnd (read_node_from_file f lp new_node) (\<lambda>lbchild_node.
        if MAX_KEY div 2 < key_total lbchild_node then
          bnd (case_B cur_node child_node lbchild_node i) (\<lambda>(cur_node, child_node, lbchild_node).
          bnd (write_node_to_file f cur cur_node) (\<lambda>f.
          bnd (write_node_to_file f lp lbchild_node) (\<lambda>f.
          bnd (aget (pointer cur_node) i) (\<lambda>p.
          bnd (write_node_to_file f p child_node) (\<lambda>f.
            Inr (cur_node, i, f))))))
        else
          bnd (case_C cur_node child_node lbchild_node i) (\<lambda>(cur_node, lbchild_node).
          bnd (write_node_to_file f cur cur_node) (\<lambda>f.
          bnd (aget (pointer cur_node) (i - 1)) (\<lambda>p.
          bnd (write_node_to_file f p lbchild_node) (\<lambda>f.
            Inr (cur_node, i - 1, f)))))))
      else
        bnd (aget (pointer cur_node) (Suc i)) (\<lambda>rp.
        bnd (read_node_from_file f rp new_node) (\<lambda>rbchild_node.
        if MAX_KEY div 2 < key_total rbchild_node then
          bnd (case_D cur_node child_node rbchild_node i) (\<lambda>(cur_node, child_node, rbchild_node).
          bnd (write_node_to_file f cur cur_node) (\<lambda>f.
          bnd (aget (pointer cur_node) i) (\<lambda>p.
          bnd (write_node_to_file f p child_node) (\<lambda>f.
          bnd (write_node_to_file f rp rbchild_node) (\<lambda>f.
            Inr (cur_node, i, f))))))
        else
          bnd (case_E cur_node child_node rbchild_node i) (\<lambda>(cur_node, child_node).
          bnd (write_node_to_file f cur cur_node) (\<lambda>f.
          bnd (aget (pointer cur_node) i) (\<lambda>p.
          bnd (write_node_to_file f p child_node) (\<lambda>f.
            Inr (cur_node, i, f))))))))"

subsection \<open>The child is an inner node (H to L)\<close>

text \<open>I: rotate the last child of the left sibling through the separator.\<close>

definition case_I :: "Node \<Rightarrow> Node \<Rightarrow> Node \<Rightarrow> nat \<Rightarrow> (Node \<times> Node \<times> Node) result" where
  "case_I cur_node child_node lbchild_node i =
     bnd (shift_up (key child_node) (key_total child_node) 0) (\<lambda>cks.
     bnd (shift_up (pointer child_node) (Suc (key_total child_node)) 1) (\<lambda>cps.
     bnd (aget cps 0) (\<lambda>p.
     bnd (aset cps 1 p) (\<lambda>cps.
     bnd (aget_sub (key cur_node) i 1) (\<lambda>k.
     bnd (aset cks 0 k) (\<lambda>cks.
     bnd (aget (pointer lbchild_node) (key_total lbchild_node)) (\<lambda>p.
     bnd (aset cps 0 p) (\<lambda>cps.
     bnd (aget_sub (key lbchild_node) (key_total lbchild_node) 1) (\<lambda>k.
     bnd (aset (key cur_node) (i - 1) k) (\<lambda>ks.
       Inr (cur_node\<lparr>key := ks\<rparr>,
            child_node\<lparr>key := cks, pointer := cps, key_total := Suc (key_total child_node)\<rparr>,
            lbchild_node\<lparr>key_total := key_total lbchild_node - 1\<rparr>)))))))))))"

text \<open>\<open>dst\<close>, then the separator \<open>k\<close>, then the keys and pointers of \<open>src\<close>.\<close>

definition append_inner :: "Node \<Rightarrow> int \<Rightarrow> Node \<Rightarrow> Node result" where
  "append_inner dst k src =
     bnd (aset (key dst) (key_total dst) k) (\<lambda>ks.
     let n = Suc (key_total dst) in
     bnd (copy_into ks n (key src) (key_total src)) (\<lambda>ks.
     bnd (copy_into (pointer dst) n (pointer src) (key_total src)) (\<lambda>ps.
     bnd (aget (pointer src) (key_total src)) (\<lambda>p.
     bnd (aset ps (n + key_total src) p) (\<lambda>ps.
       Inr (dst\<lparr>key := ks, pointer := ps, key_total := n + key_total src\<rparr>))))))"

text \<open>J: merge the child into its left sibling.\<close>

definition case_J :: "Node \<Rightarrow> Node \<Rightarrow> Node \<Rightarrow> nat \<Rightarrow> (Node \<times> Node) result" where
  "case_J cur_node child_node lbchild_node i =
     bnd (aget_sub (key cur_node) i 1) (\<lambda>k.
     bnd (append_inner lbchild_node k child_node) (\<lambda>lbchild_node.
     bnd (drop_entry cur_node (i - 1)) (\<lambda>cur_node.
       Inr (cur_node, lbchild_node))))"

text \<open>K: rotate the first child of the right sibling through the separator.\<close>

definition case_K :: "Node \<Rightarrow> Node \<Rightarrow> Node \<Rightarrow> nat \<Rightarrow> (Node \<times> Node \<times> Node) result" where
  "case_K cur_node child_node rbchild_node i =
     bnd (aget (key cur_node) i) (\<lambda>k.
     bnd (aset (key child_node) (key_total child_node) k) (\<lambda>cks.
     bnd (aget (pointer rbchild_node) 0) (\<lambda>p.
     bnd (aset (pointer child_node) (Suc (key_total child_node)) p) (\<lambda>cps.
     bnd (aget (key rbchild_node) 0) (\<lambda>k.
     bnd (aset (key cur_node) i k) (\<lambda>ks.
     bnd (shift_down (key rbchild_node) 0 (key_total rbchild_node - 1)) (\<lambda>rks.
     bnd (shift_down (pointer rbchild_node) 0 (key_total rbchild_node)) (\<lambda>rps.
       Inr (cur_node\<lparr>key := ks\<rparr>,
            child_node\<lparr>key := cks, pointer := cps, key_total := Suc (key_total child_node)\<rparr>,
            rbchild_node\<lparr>key := rks, pointer := rps, key_total := key_total rbchild_node - 1\<rparr>)))))))))"

text \<open>L: merge the right sibling into the child.\<close>

definition case_L :: "Node \<Rightarrow> Node \<Rightarrow> Node \<Rightarrow> nat \<Rightarrow> (Node \<times> Node) result" where
  "case_L cur_node child_node rbchild_node i =
     bnd (aget (key cur_node) i) (\<lambda>k.
     bnd (append_inner child_node k rbchild_node) (\<lambda>child_node.
     bnd (drop_entry cur_node i) (\<lambda>cur_node.
       Inr (cur_node, child_node))))"

definition fix_inner :: "nat \<Rightarrow> Node \<Rightarrow> Node \<Rightarrow> nat \<Rightarrow> bfile \<Rightarrow> (Node \<times> nat \<times> bfile) result" where
  "fix_inner cur cur_node child_node i f =
     (if MAX_KEY div 2 < key_total child_node then Inr (cur_node, i, f)
      else if 0 < i then
        bnd (aget (pointer cur_node) (i - 1)) (\<lambda>lp.
        bnd (read_node_from_file f lp new_node) (\<lambda>lbchild_node.
        if MAX_KEY div 2 < key_total lbchild_node then
          bnd (case_I cur_node child_node lbchild_node i) (\<lambda>(cur_node, child_node, lbchild_node).
          bnd (write_node_to_file f cur cur_node) (\<lambda>f.
          bnd (write_node_to_file f lp lbchild_node) (\<lambda>f.
          bnd (aget (pointer cur_node) i) (\<lambda>p.
          bnd (write_node_to_file f p child_node) (\<lambda>f.
            Inr (cur_node, i, f))))))
        else
          bnd (case_J cur_node child_node lbchild_node i) (\<lambda>(cur_node, lbchild_node).
          bnd (write_node_to_file f cur cur_node) (\<lambda>f.
          bnd (aget (pointer cur_node) (i - 1)) (\<lambda>p.
          bnd (write_node_to_file f p lbchild_node) (\<lambda>f.
            Inr (cur_node, i - 1, f)))))))
      else
        bnd (aget (pointer cur_node) (Suc i)) (\<lambda>rp.
        bnd (read_node_from_file f rp new_node) (\<lambda>rbchild_node.
        if MAX_KEY div 2 < key_total rbchild_node then
          bnd (case_K cur_node child_node rbchild_node i) (\<lambda>(cur_node, child_node, rbchild_node).
          bnd (write_node_to_file f cur cur_node) (\<lambda>f.
          bnd (aget (pointer cur_node) i) (\<lambda>p.
          bnd (write_node_to_file f p child_node) (\<lambda>f.
          bnd (write_node_to_file f rp rbchild_node) (\<lambda>f.
            Inr (cur_node, i, f))))))
        else
          bnd (case_L cur_node child_node rbchild_node i) (\<lambda>(cur_node, child_node).
          bnd (write_node_to_file f cur cur_node) (\<lambda>f.
          bnd (aget (pointer cur_node) i) (\<lambda>p.
          bnd (write_node_to_file f p child_node) (\<lambda>f.
            Inr (cur_node, i, f))))))))"

subsection \<open>Not found in the current node, the child is a leaf (M to Q)\<close>

text \<open>N: as B, but the separator right of the child stays.\<close>

definition case_N :: "Node \<Rightarrow> Node \<Rightarrow> Node \<Rightarrow> nat \<Rightarrow> (Node \<times> Node \<times> Node) result" where
  "case_N cur_node child_node lbchild_node i =
     bnd (shift_up (key child_node) (key_total child_node) 0) (\<lambda>cks.
     bnd (shift_up (pointer child_node) (key_total child_node) 0) (\<lambda>cps.
     bnd (aget_sub (key cur_node) i 1) (\<lambda>k.
     bnd (aset cks 0 k) (\<lambda>cks.
     bnd (aget_sub (pointer lbchild_node) (key_total lbchild_node) 1) (\<lambda>p.
     bnd (aset cps 0 p) (\<lambda>cps.
     let lbchild_node = lbchild_node\<lparr>key_total := key_total lbchild_node - 1\<rparr> in
     bnd (aget_sub (key lbchild_node) (key_total lbchild_node) 1) (\<lambda>k.
     bnd (aset (key cur_node) (i - 1) k) (\<lambda>ks.
       Inr (cur_node\<lparr>key := ks\<rparr>,
            child_node\<lparr>key := cks, pointer := cps, key_total := Suc (key_total child_node)\<rparr>,
            lbchild_node)))))))))"

text \<open>O: merge the child into its left sibling.\<close>

definition case_O :: "Node \<Rightarrow> Node \<Rightarrow> Node \<Rightarrow> nat \<Rightarrow> (Node \<times> Node) result" where
  "case_O cur_node child_node lbchild_node i =
     bnd (append_leaf lbchild_node child_node) (\<lambda>lbchild_node.
     bnd (drop_entry cur_node (i - 1)) (\<lambda>cur_node.
       Inr (cur_node, lbchild_node)))"

text \<open>P and Q do on the nodes what D and E do.\<close>

definition fix_leaf_miss :: "nat \<Rightarrow> Node \<Rightarrow> Node \<Rightarrow> nat \<Rightarrow> bfile \<Rightarrow> (Node \<times> nat \<times> bfile) result" where
  "fix_leaf_miss cur cur_node child_node i f =
     (if MAX_KEY div 2 < key_total child_node then Inr (cur_node, i, f)
      else if 0 < i then
        bnd (aget (pointer cur_node) (i - 1)) (\<lambda>lp.
        bnd (read_node_from_file f lp new_node) (\<lambda>lbchild_node.
        if MAX_KEY div 2 < key_total lbchild_node then
          bnd (case_N cur_node child_node lbchild_node i) (\<lambda>(cur_node, child_node, lbchild_node).
          bnd (write_node_to_file f lp lbchild_node) (\<lambda>f.
          bnd (aget (pointer cur_node) i) (\<lambda>p.
          bnd (write_node_to_file f p child_node) (\<lambda>f.
          bnd (write_node_to_file f cur cur_node) (\<lambda>f.
            Inr (cur_node, i, f))))))
        else
          bnd (case_O cur_node child_node lbchild_node i) (\<lambda>(cur_node, lbchild_node).
          bnd (aget (pointer cur_node) (i - 1)) (\<lambda>p.
          bnd (write_node_to_file f p lbchild_node) (\<lambda>f.
          bnd (write_node_to_file f cur cur_node) (\<lambda>f.
            Inr (cur_node, i - 1, f)))))))
      else
        bnd (aget (pointer cur_node) (Suc i)) (\<lambda>rp.
        bnd (read_node_from_file f rp new_node) (\<lambda>rbchild_node.
        if MAX_KEY div 2 < key_total rbchild_node then
          bnd (case_D cur_node child_node rbchild_node i) (\<lambda>(cur_node, child_node, rbchild_node).
          bnd (write_node_to_file f cur cur_node) (\<lambda>f.
          bnd (write_node_to_file f rp rbchild_node) (\<lambda>f.
          bnd (aget (pointer cur_node) i) (\<lambda>p.
          bnd (write_node_to_file f p child_node) (\<lambda>f.
            Inr (cur_node, i, f))))))
        else
          bnd (case_E cur_node child_node rbchild_node i) (\<lambda>(cur_node, child_node).
          bnd (write_node_to_file f cur cur_node) (\<lambda>f.
          bnd (aget (pointer cur_node) i) (\<lambda>p.
          bnd (write_node_to_file f p child_node) (\<lambda>f.
            Inr (cur_node, i, f))))))))"

subsection \<open>The leaf itself (G), and the method\<close>

definition case_G :: "Node \<Rightarrow> nat \<Rightarrow> Node result" where
  "case_G cur_node i =
     bnd (shift_down (key cur_node) i (key_total cur_node - 1)) (\<lambda>ks.
     bnd (shift_down (pointer cur_node) i (key_total cur_node - 1)) (\<lambda>ps.
       Inr (cur_node\<lparr>key := ks, pointer := ps, key_total := key_total cur_node - 1\<rparr>)))"

text \<open>
  \<open>rt\<close> is the root offset of the object, which case F needs for its \<open>query\<close>. The first branch is
  the code's treatment of a node without keys: it overwrites the node by its first child and starts
  over, without asking whether the node is a leaf.
\<close>

fun remove_pos :: "nat \<Rightarrow> nat \<Rightarrow> int \<Rightarrow> nat \<Rightarrow> bfile \<Rightarrow> bfile result" where
  "remove_pos 0 rt k cur f = Inl OutOfFuel"
| "remove_pos (Suc fuel) rt k cur f =
     bnd (read_node_from_file f cur new_node) (\<lambda>cur_node.
     if key_total cur_node = 0 then
       bnd (aget (pointer cur_node) 0) (\<lambda>p.
       bnd (read_node_from_file f p new_node) (\<lambda>child_node.
       bnd (node_copy child_node cur_node) (\<lambda>cur_node.
       bnd (write_node_to_file f cur cur_node) (\<lambda>f.
         remove_pos fuel rt k cur f))))
     else
       bnd (scan (key cur_node) (key_total cur_node) k 0) (\<lambda>i.
       bnd (if i < key_total cur_node
            then bnd (aget (key cur_node) i) (\<lambda>x. Inr (x = k)) else Inr False) (\<lambda>found.
       if is_leaf cur_node then
         (if found then bnd (case_G cur_node i) (\<lambda>cur_node. write_node_to_file f cur cur_node)
          else Inr f)
       else
         bnd (aget (pointer cur_node) i) (\<lambda>p.
         bnd (read_node_from_file f p new_node) (\<lambda>child_node.
         if found \<and> is_leaf child_node \<and> MAX_KEY div 2 < key_total child_node then
           bnd (case_A cur_node child_node i) (\<lambda>(cur_node, child_node).
           bnd (write_node_to_file f cur cur_node) (\<lambda>f.
             write_node_to_file f p child_node))
         else
           bnd (if found then
                  (if is_leaf child_node then fix_leaf_hit cur cur_node child_node i f
                   else
                     bnd (query_pos fuel k rt True f) (\<lambda>leaf.
                     bnd (read_node_from_file f leaf new_node) (\<lambda>last_node.
                     bnd (aget_sub (key last_node) (key_total last_node) 2) (\<lambda>x.
                     bnd (aset (key cur_node) i x) (\<lambda>ks.
                     let cur_node = cur_node\<lparr>key := ks\<rparr> in
                     bnd (write_node_to_file f cur cur_node) (\<lambda>f.
                       fix_inner cur cur_node child_node i f))))))
                else if is_leaf child_node then fix_leaf_miss cur cur_node child_node i f
                else fix_inner cur cur_node child_node i f) (\<lambda>(cur_node, i, f).
           bnd (aget (pointer cur_node) i) (\<lambda>p. remove_pos fuel rt k p f)))))))"

definition remove :: "nat \<Rightarrow> int \<Rightarrow> Bp_tree \<Rightarrow> Bp_tree result" where
  "remove fuel k t = bnd (remove_pos fuel (root t) k (root t) (bp_file t)) (\<lambda>f. Inr (t\<lparr>bp_file := f\<rparr>))"

end
