(* ===== verification/BpSpec.thy ===== *)
theory BpSpec
  imports BpRemove
begin

text \<open>
  The abstract view of the index file of \<open>data_structure/bptree.cpp\<close>: a B+ tree over file slots.

  \<^item> \<open>bt\<close> is a tree of leaves and inner nodes, each with the slot (record number) it is stored in;
    \<open>leaves\<close> is the sequence of the entries, \<open>slots\<close> the slots in use.
  \<^item> \<open>stored f t\<close>: the file \<open>f\<close> holds \<open>t\<close>. \<open>wf_bt\<close>: no node is overfull, and every separator is the
    largest key below the child on its left, which is what the early return of \<open>insert_pos\<close> on a
    separator relies on.
  \<^item> \<open>ins_list\<close> is the specification of an insertion on the sequence of entries (a key that is present
    keeps its pointer), \<open>split_bt\<close> that of a split.
\<close>

datatype bt = Lf nat "(int \<times> nat) list" | Nd nat "bt list" "int list"

fun root_ix :: "bt \<Rightarrow> nat" where
  "root_ix (Lf i kvs) = i"
| "root_ix (Nd i cs ks) = i"

fun nkeys :: "bt \<Rightarrow> nat" where
  "nkeys (Lf i kvs) = length kvs"
| "nkeys (Nd i cs ks) = length ks"

fun leaves :: "bt \<Rightarrow> (int \<times> nat) list" where
  "leaves (Lf i kvs) = kvs"
| "leaves (Nd i cs ks) = concat (map leaves cs)"

fun slots :: "bt \<Rightarrow> nat list" where
  "slots (Lf i kvs) = [i]"
| "slots (Nd i cs ks) = i # concat (map slots cs)"

text \<open>No path of \<open>t\<close> is longer than \<open>d\<close>.\<close>

fun fits :: "nat \<Rightarrow> bt \<Rightarrow> bool" where
  "fits d (Lf i kvs) = True"
| "fits d (Nd i cs ks) = (0 < d \<and> (\<forall>c\<in>set cs. fits (d - 1) c))"

definition sep_of :: "bt \<Rightarrow> int \<Rightarrow> bool" where
  "sep_of c k \<longleftrightarrow> leaves c \<noteq> [] \<and> k = fst (last (leaves c))"

fun seps :: "bt list \<Rightarrow> int list \<Rightarrow> bool" where
  "seps [] ks = False"
| "seps [c] ks = (ks = [])"
| "seps (c # cs) ks = (case ks of [] \<Rightarrow> False | k # ks \<Rightarrow> sep_of c k \<and> seps cs ks)"

fun wf_bt :: "bt \<Rightarrow> bool" where
  "wf_bt (Lf i kvs) = (length kvs \<le> MAX_KEY)"
| "wf_bt (Nd i cs ks) = (length ks \<le> MAX_KEY \<and> seps cs ks \<and> (\<forall>c\<in>set cs. wf_bt c))"

definition sorted_keys :: "(int \<times> nat) list \<Rightarrow> bool" where
  "sorted_keys kvs \<longleftrightarrow> sorted_wrt (<) (map fst kvs)"

text \<open>What the record of a node holds.\<close>

fun holds :: "Node \<Rightarrow> bt \<Rightarrow> bool" where
  "holds n (Lf i kvs) = (shaped n \<and> is_leaf n \<and> key_total n = length kvs \<and>
     take (length kvs) (key n) = map fst kvs \<and> take (length kvs) (pointer n) = map snd kvs)"
| "holds n (Nd i cs ks) = (shaped n \<and> \<not> is_leaf n \<and> key_total n = length ks \<and>
     take (length ks) (key n) = ks \<and>
     take (length cs) (pointer n) = map (\<lambda>c. NODE_SIZE * root_ix c) cs)"

fun stored :: "bfile \<Rightarrow> bt \<Rightarrow> bool" where
  "stored f (Lf i kvs) = (i < length f \<and> holds (f ! i) (Lf i kvs))"
| "stored f (Nd i cs ks) = (i < length f \<and> holds (f ! i) (Nd i cs ks) \<and> (\<forall>c\<in>set cs. stored f c))"

fun ins_list :: "int \<Rightarrow> nat \<Rightarrow> (int \<times> nat) list \<Rightarrow> (int \<times> nat) list" where
  "ins_list k v [] = [(k, v)]"
| "ins_list k v ((a, b) # kvs) =
     (if k < a then (k, v) # (a, b) # kvs
      else if k = a then (a, b) # kvs
      else (a, b) # ins_list k v kvs)"

fun split_bt :: "nat \<Rightarrow> bt \<Rightarrow> bt \<times> int \<times> bt" where
  "split_bt m (Lf i kvs) = (Lf i (take 3 kvs), fst (kvs ! 2), Lf m (drop 3 kvs))"
| "split_bt m (Nd i cs ks) = (Nd i (take 3 cs) (take 2 ks), ks ! 2, Nd m (drop 3 cs) (drop 3 ks))"

subsection \<open>Entry sequences\<close>

lemma sorted_keys_append [simp]:
  "sorted_keys (xs @ ys) \<longleftrightarrow>
   sorted_keys xs \<and> sorted_keys ys \<and> (\<forall>x\<in>set xs. \<forall>y\<in>set ys. fst x < fst y)"
  by (auto simp: sorted_keys_def sorted_wrt_append)

lemma sorted_keys_Cons [simp]:
  "sorted_keys (x # xs) \<longleftrightarrow> (\<forall>y\<in>set xs. fst x < fst y) \<and> sorted_keys xs"
  by (auto simp: sorted_keys_def)

lemma sorted_keys_Nil [simp]: "sorted_keys []"
  by (simp add: sorted_keys_def)

lemma sorted_keys_last:
  "sorted_keys xs \<Longrightarrow> x \<in> set xs \<Longrightarrow> fst x \<le> fst (last xs)"
  by (induction xs) (auto split: if_splits simp: less_imp_le bspec [OF _ last_in_set])

lemma sorted_keys_distinct: "sorted_keys xs \<Longrightarrow> distinct (map fst xs)"
  by (induction xs) (auto simp: image_iff)

lemma ins_list_ne [simp]: "ins_list k v xs \<noteq> []"
  by (cases "(k, v, xs)" rule: ins_list.cases) auto

lemma length_ins_list: "length (ins_list k v xs) \<le> Suc (length xs)"
  by (induction xs) auto

lemma ins_list_left:
  "\<forall>x\<in>set xs. fst x < k \<Longrightarrow> ins_list k v (xs @ ys) = xs @ ins_list k v ys"
  by (induction xs) auto

lemma ins_list_right:
  "\<forall>y\<in>set ys. k < fst y \<Longrightarrow> ins_list k v (xs @ ys) = ins_list k v xs @ ys"
proof (induction xs)
  case Nil
  then show ?case by (cases ys) auto
qed auto

lemma ins_list_present:
  "sorted_keys xs \<Longrightarrow> k \<in> fst ` set xs \<Longrightarrow> ins_list k v xs = xs"
  by (induction k v xs rule: ins_list.induct) force+

lemma map_of_ins_list:
  "sorted_keys xs \<Longrightarrow> map_of (ins_list k v xs)
     = (case map_of xs k of None \<Rightarrow> (map_of xs)(k \<mapsto> v) | Some _ \<Rightarrow> map_of xs)"
proof (induction k v xs rule: ins_list.induct)
  case (2 k v a b kvs)
  have "map_of kvs k = None" if "k \<le> a"
    using "2.prems" that by (auto simp: map_of_eq_None_iff)
  with 2 show ?case by (auto simp: fun_eq_iff split: option.splits)
qed simp

lemma set_ins_list:
  "sorted_keys xs \<Longrightarrow>
   fst ` set (ins_list k v xs) = insert k (fst ` set xs)"
  by (induction k v xs rule: ins_list.induct) auto

lemma sorted_ins_list: "sorted_keys xs \<Longrightarrow> sorted_keys (ins_list k v xs)"
proof (induction k v xs rule: ins_list.induct)
  case (2 k v a b kvs)
  have "a < fst y" if "a < k" "y \<in> set (ins_list k v kvs)" for y
  proof -
    have "fst y \<in> insert k (fst ` set kvs)"
      using that(2) set_ins_list [of kvs k v] "2.prems" by (metis imageI sorted_keys_Cons)
    then show ?thesis using "2.prems" that(1) by auto
  qed
  with 2 show ?case by auto
qed simp

lemma last_ins_list:
  "sorted_keys xs \<Longrightarrow> xs \<noteq> [] \<Longrightarrow> k \<le> fst (last xs) \<Longrightarrow>
   fst (last (ins_list k v xs)) = fst (last xs)"
proof (induction xs)
  case (Cons x xs)
  show ?case
  proof (cases "xs = []")
    case True
    with Cons.prems show ?thesis by (cases x) auto
  next
    case False
    with Cons show ?thesis by (cases x) auto
  qed
qed simp

text \<open>The insertion by position that the leaf code performs.\<close>

lemma ins_list_at_pos:
  assumes "sorted_keys xs" "k \<notin> fst ` set xs"
  shows "ins_list k v xs = take (pos_in (map fst xs) k) xs @ (k, v) # drop (pos_in (map fst xs) k) xs"
  using assms
proof (induction xs)
  case (Cons x xs)
  then show ?case by (cases x) (auto simp: pos_in_def)
qed (simp add: pos_in_def)

lemma pos_in_hit:
  assumes "sorted_keys xs" "i = pos_in (map fst xs) k"
  shows "k \<in> fst ` set xs \<longleftrightarrow> i < length xs \<and> fst (xs ! i) = k"
    and "i < length xs \<Longrightarrow> fst (xs ! i) = k \<Longrightarrow> map_of xs k = Some (snd (xs ! i))"
    and "\<not> (i < length xs \<and> fst (xs ! i) = k) \<Longrightarrow> map_of xs k = None"
proof -
  have "(k \<in> fst ` set xs \<longleftrightarrow> i < length xs \<and> fst (xs ! i) = k) \<and>
      (i < length xs \<longrightarrow> fst (xs ! i) = k \<longrightarrow> map_of xs k = Some (snd (xs ! i)))"
    using assms
  proof (induction xs arbitrary: i)
    case (Cons x xs)
    show ?case
    proof (cases "fst x < k")
      case True
      with Cons.prems obtain j where j: "i = Suc j" "j = pos_in (map fst xs) k"
        by (simp add: pos_in_def)
      from Cons.prems(1) have "sorted_keys xs" by simp
      note IH = Cons.IH [OF this j(2)]
      from Cons.prems True have "fst x \<noteq> k" "k \<notin> {fst x}" by auto
      with IH j(1) True show ?thesis by (cases x) (auto simp del: Cons.prems)
    next
      case False
      then have "i = 0" using Cons.prems by (simp add: pos_in_def)
      then show ?thesis using Cons.prems False by (cases x) (auto simp: image_iff)
    qed
  qed simp
  then show "k \<in> fst ` set xs \<longleftrightarrow> i < length xs \<and> fst (xs ! i) = k"
    and "i < length xs \<Longrightarrow> fst (xs ! i) = k \<Longrightarrow> map_of xs k = Some (snd (xs ! i))" by blast+
  then show "\<not> (i < length xs \<and> fst (xs ! i) = k) \<Longrightarrow> map_of xs k = None"
    by (auto simp: map_of_eq_None_iff)
qed

subsection \<open>Separators\<close>

lemma seps_Cons [simp]:
  "seps (c # cs) ks = (if cs = [] then ks = [] else
     (case ks of [] \<Rightarrow> False | k # ks \<Rightarrow> sep_of c k \<and> seps cs ks))"
  by (cases cs) auto

declare seps.simps(2,3) [simp del]

lemma seps_length: "seps cs ks \<Longrightarrow> length cs = Suc (length ks)"
  by (induction cs arbitrary: ks) (auto split: if_splits list.splits)

lemma seps_append:
  "length A = length KA \<Longrightarrow> cs \<noteq> [] \<Longrightarrow>
   seps (A @ cs) (KA @ ks) \<longleftrightarrow> list_all2 sep_of A KA \<and> seps cs ks"
  by (induction A KA rule: list_induct2) auto

lemma stored_root:
  assumes "stored f t"
  shows "root_ix t < length f" "holds (f ! root_ix t) t"
  using assms by (cases t; simp)+

lemma stored_read [simp]:
  "stored f t \<Longrightarrow> read_node_from_file f (NODE_SIZE * root_ix t) n = Inr (f ! root_ix t)"
  using stored_root by simp

lemma root_in_slots [simp]: "root_ix t \<in> set (slots t)"
  by (cases t) auto

lemma stored_slots: "stored f t \<Longrightarrow> i \<in> set (slots t) \<Longrightarrow> i < length f"
  by (induction t) auto

text \<open>A tree survives every change of the file outside its slots.\<close>

lemma stored_frame:
  "stored f t \<Longrightarrow> length f \<le> length g \<Longrightarrow> \<forall>i\<in>set (slots t). g ! i = f ! i \<Longrightarrow> stored g t"
  by (induction t) auto

lemma stored_update: "stored f t \<Longrightarrow> i \<notin> set (slots t) \<Longrightarrow> stored (f[i := n]) t"
  by (erule stored_frame) (auto intro: nth_list_update_neq)

lemma stored_append: "stored f t \<Longrightarrow> stored (f @ g) t"
  using stored_slots by (rule_tac stored_frame) (auto simp: nth_append)

lemma fits_mono: "fits d t \<Longrightarrow> d \<le> e \<Longrightarrow> fits e t"
  by (induction d t arbitrary: e rule: fits.induct) (auto intro: diff_le_mono)

lemma length_slots_child:
  "c \<in> set cs \<Longrightarrow> length (slots c) \<le> length (concat (map slots cs))"
  by (auto simp: length_concat intro: member_le_sum_list)

lemma fits_slots: "fits (length (slots t)) t"
  by (induction t) (auto intro: fits_mono length_slots_child simp del: length_concat)

end
