(* ===== verification/BpQueryCorrect.thy ===== *)
theory BpQueryCorrect
  imports BpSpec
begin

text \<open>
  The descent through the tree of \<open>data_structure/bptree.cpp\<close>: which child the search loop selects
  (\<open>child_at\<close>, \<open>child_bounds\<close>), what its pointer is (\<open>holds_ptr\<close>), and that \<open>query_pos\<close> looks a key
  up in the sequence of entries of the stored tree.
\<close>

lemma pos_in_append_split:
  assumes "i = pos_in ks k"
  obtains KA KB where "ks = KA @ KB" "length KA = i" "\<forall>x\<in>set KA. x < k" "KB \<noteq> [] \<longrightarrow> k \<le> hd KB"
proof
  show "ks = take i ks @ drop i ks" by simp
  show "length (take i ks) = i" using assms pos_in_le by simp
  show "\<forall>x\<in>set (take i ks). x < k" using pos_in_split [OF assms] by simp
  show "drop i ks \<noteq> [] \<longrightarrow> k \<le> hd (drop i ks)"
    using pos_in_split [OF assms] by (auto simp: hd_drop_conv_nth not_less)
qed

lemma child_at:
  assumes "seps cs ks" "i = pos_in ks k"
  obtains A c B KA KB where "cs = A @ c # B" "ks = KA @ KB" "length A = i" "length KA = i"
    "\<forall>x\<in>set KA. x < k" "KB \<noteq> [] \<longrightarrow> k \<le> hd KB"
proof -
  obtain KA KB where K: "ks = KA @ KB" "length KA = i" "\<forall>x\<in>set KA. x < k" "KB \<noteq> [] \<longrightarrow> k \<le> hd KB"
    using pos_in_append_split [OF assms(2)] .
  have "i < length cs" using seps_length [OF assms(1)] K by simp
  then have "cs = take i cs @ cs ! i # drop (Suc i) cs" "length (take i cs) = i"
    by (simp_all add: id_take_nth_drop)
  then show thesis using K that by blast
qed

lemma child_bounds:
  assumes "seps (A @ c # B) (KA @ KB)" "length A = length KA"
    and "sorted_keys (concat (map leaves (A @ c # B)))"
    and "\<forall>x\<in>set KA. x < k" "KB \<noteq> [] \<longrightarrow> k \<le> hd KB"
  shows "\<forall>x\<in>set (concat (map leaves A)). fst x < k"
    and "\<forall>y\<in>set (concat (map leaves B)). k < fst y"
    and "KB \<noteq> [] \<Longrightarrow> sep_of c (hd KB)" "KB = [] \<longleftrightarrow> B = []"
    and "list_all2 sep_of A KA"
proof -
  have s: "list_all2 sep_of A KA" "seps (c # B) KB"
    using assms(1,2) seps_append [of A KA "c # B" KB] by simp_all
  then show "list_all2 sep_of A KA" "KB \<noteq> [] \<Longrightarrow> sep_of c (hd KB)" "KB = [] \<longleftrightarrow> B = []"
    by (auto split: if_splits list.splits)
  show "\<forall>x\<in>set (concat (map leaves A)). fst x < k"
  proof
    fix x assume "x \<in> set (concat (map leaves A))"
    then obtain a where a: "a \<in> set A" "x \<in> set (leaves a)" by auto
    then obtain ka where ka: "ka \<in> set KA" "sep_of a ka"
      using s(1) by (metis in_set_conv_nth list_all2_conv_all_nth)
    have "sorted_keys (leaves a)" using assms(3) a(1) by (induction A) auto
    then have "fst x \<le> ka" using ka(2) a(2) by (auto simp: sep_of_def sorted_keys_last)
    then show "fst x < k" using assms(4) ka(1) by fastforce
  qed
  show "\<forall>y\<in>set (concat (map leaves B)). k < fst y"
  proof (cases "KB = []")
    case True
    then show ?thesis using s(2) by (auto split: if_splits)
  next
    case False
    then have "sep_of c (hd KB)" using s(2) by (auto split: if_splits list.splits)
    then have "last (leaves c) \<in> set (leaves c)" "k \<le> fst (last (leaves c))"
      using False assms(5) by (auto simp: sep_of_def)
    then show ?thesis using assms(3) by fastforce
  qed
qed

lemma map_of_mid:
  assumes "\<forall>x\<in>set A. fst x < k" "\<forall>y\<in>set C. k < fst y"
  shows "map_of (A @ B @ C) k = map_of B (k::int)"
proof -
  have "map_of A k = None" "map_of C k = None"
    using assms by (fastforce simp: map_of_eq_None_iff)+
  then show ?thesis by (simp add: map_add_def split: option.splits)
qed

lemma holds_ptr:
  assumes "holds n (Nd i (A @ c # B) ks)" "length ks \<le> MAX_KEY" "length (A @ c # B) = Suc (length ks)"
  shows "aget (pointer n) (length A) = Inr (NODE_SIZE * root_ix c)"
proof -
  have len: "length A < length (pointer n)" using assms by (simp add: shaped_def)
  have "pointer n ! length A = take (length (A @ c # B)) (pointer n) ! length A" by simp
  also have "\<dots> = map (\<lambda>c. NODE_SIZE * root_ix c) (A @ c # B) ! length A"
    using assms(1) by simp
  also have "\<dots> = NODE_SIZE * root_ix c" by (simp add: nth_append)
  finally show ?thesis using len by (simp add: arr)
qed

lemma holds_scan:
  assumes "holds n t" "nkeys t \<le> MAX_KEY"
  shows "scan (key n) (key_total n) k 0 =
    Inr (pos_in (case t of Lf i kvs \<Rightarrow> map fst kvs | Nd i cs ks \<Rightarrow> ks) k)"
  using assms by (cases t) (auto simp: shaped_def arr)

lemma holds_key:
  assumes "holds n t" "nkeys t \<le> MAX_KEY" "i < nkeys t"
  shows "aget (key n) i = Inr ((case t of Lf i kvs \<Rightarrow> map fst kvs | Nd i cs ks \<Rightarrow> ks) ! i)"
  using assms by (cases t) (auto simp: shaped_def arr dest!: arg_cong [where f = "\<lambda>xs. xs ! i"])

lemma holds_leaf_ptr:
  assumes "holds n (Lf j kvs)" "length kvs \<le> MAX_KEY" "i < length kvs"
  shows "aget (pointer n) i = Inr (snd (kvs ! i))"
  using assms by (auto simp: shaped_def arr dest!: arg_cong [where f = "\<lambda>xs. xs ! i"])

text \<open>\<open>query_pos\<close> refines the lookup in the sequence of entries.\<close>

lemma query_pos_ok:
  assumes "stored f t" "wf_bt t" "sorted_keys (leaves t)" "fits d t" "d < fuel"
  shows "query_pos fuel k (NODE_SIZE * root_ix t) False f
    = Inr (case map_of (leaves t) k of None \<Rightarrow> NIL | Some p \<Rightarrow> p)"
  using assms
proof (induction fuel arbitrary: t d)
  case (Suc fuel)
  let ?n = "f ! root_ix t"
  have h: "holds ?n t" using stored_root Suc.prems(1) by blast
  show ?case
  proof (cases t)
    case (Lf i kvs)
    let ?p = "pos_in (map fst kvs) k"
    have kvs: "length kvs \<le> MAX_KEY" "sorted_keys kvs" using Lf Suc.prems by auto
    note hit = pos_in_hit [OF kvs(2) refl, of k]
    have sc: "scan (key ?n) (key_total ?n) k 0 = Inr ?p"
      using holds_scan [OF h] Lf kvs by simp
    have leaf: "is_leaf ?n" "key_total ?n = length kvs" using h Lf by auto
    show ?thesis
    proof (cases "?p < length kvs")
      case True
      have "aget (key ?n) ?p = Inr (fst (kvs ! ?p))"
        using holds_key [OF h, of ?p] Lf kvs True by simp
      moreover have "aget (pointer ?n) ?p = Inr (snd (kvs ! ?p))"
        using holds_leaf_ptr [of ?n i kvs] h Lf kvs True by simp
      ultimately show ?thesis
        using Suc.prems(1) sc leaf True hit Lf by simp
    next
      case False
      then show ?thesis using Suc.prems(1) sc leaf hit Lf by simp
    qed
  next
    case (Nd i cs ks)
    have wf: "seps cs ks" "length ks \<le> MAX_KEY" "\<forall>c\<in>set cs. wf_bt c" using Nd Suc.prems by auto
    obtain A c B KA KB where AB: "cs = A @ c # B" "ks = KA @ KB" "length A = pos_in ks k"
      "length KA = pos_in ks k" "\<forall>x\<in>set KA. x < k" "KB \<noteq> [] \<longrightarrow> k \<le> hd KB"
      using child_at [OF wf(1) refl] by blast
    have srt: "sorted_keys (concat (map leaves (A @ c # B)))" using Nd Suc.prems(3) AB(1) by simp
    have "length A = length KA" using AB by simp
    note b = child_bounds [OF wf(1) [unfolded AB(1,2)] this srt AB(5,6)]
    have hN: "holds ?n (Nd i (A @ c # B) ks)" using h unfolding Nd AB(1) .
    have ptr: "aget (pointer ?n) (length A) = Inr (NODE_SIZE * root_ix c)"
      using holds_ptr [OF hN wf(2)] seps_length [OF wf(1)] unfolding AB(1) by blast
    have c: "c \<in> set cs" using AB(1) by simp
    have sub: "query_pos fuel k (NODE_SIZE * root_ix c) False f
        = Inr (case map_of (leaves c) k of None \<Rightarrow> NIL | Some p \<Rightarrow> p)"
      using Suc.prems Nd c wf srt by (intro Suc.IH [of c "d - 1"]) auto
    have mo: "map_of (leaves t) k = map_of (leaves c) k"
      using map_of_mid [OF b(1,2), of "leaves c"] Nd AB(1) by simp
    have "scan (key ?n) (key_total ?n) k 0 = Inr (pos_in ks k)"
      using holds_scan [OF h] Nd wf(2) by simp
    then have sc: "scan (key ?n) (key_total ?n) k 0 = Inr (length A)"
      by (simp only: AB(3))
    have nl: "\<not> is_leaf ?n" "key_total ?n = length ks" using hN by simp_all
    have "aget (pointer ?n) 0 = Inr (NODE_SIZE * root_ix c)" if "ks = []"
      using that ptr AB(3) by (simp add: pos_in_def)
    then show ?thesis
      using sub mo ptr sc nl stored_read [OF Suc.prems(1), of new_node]
      by (simp only: query_pos.simps bnd_Inr) simp
  qed
qed simp

end
