(* ===== verification/BpInsertCorrect.thy ===== *)
theory BpInsertCorrect
  imports BpQueryCorrect
begin

text \<open>
  Correctness of \<open>split\<close>, \<open>insert_pos\<close> and \<open>bp_insert\<close> of \<open>data_structure/bptree.cpp\<close>.

  \<^item> \<open>split_ok\<close> gives the effect of \<open>split\<close> on the three records, \<open>split_bt_ok\<close> the properties of the
    abstract split, and \<open>split_step\<close> joins them: after the split and the two writes the file stores the
    parent with the child replaced by its halves.
  \<^item> \<open>insert_pos_ok\<close> is the main induction: on a stored tree whose root is not full, \<open>insert_pos\<close> returns
    a file that stores a tree with the entry inserted, and touches no slot outside the tree.
\<close>

subsection \<open>Array form of the insertions\<close>

lemma shifted_insert:
  assumes "j \<le> n" "n < length xs"
  shows "(take (Suc j) xs @ take (n - j) (drop j xs) @ drop (Suc n) xs)[j := x]
    = take j xs @ x # take (n - j) (drop j xs) @ drop (Suc n) xs"
proof -
  have "take (Suc j) xs = take j xs @ [xs ! j]"
    using assms by (simp add: take_Suc_conv_app_nth)
  then show ?thesis using assms by (simp add: list_update_append)
qed

lemma aset_shifted:
  assumes "j \<le> n" "n < length xs"
  shows "aset (take (Suc j) xs @ take (n - j) (drop j xs) @ drop (Suc n) xs) j x
    = Inr (take j xs @ x # take (n - j) (drop j xs) @ drop (Suc n) xs)"
proof -
  have "j < length (take (Suc j) xs)" using assms by simp
  then show ?thesis unfolding aset_def shifted_insert [OF assms] by simp
qed

lemma take_shifted_insert:
  assumes "j \<le> n" "n < length xs"
  shows "take (Suc n) (take j xs @ x # take (n - j) (drop j xs) @ drop (Suc n) xs)
    = take j (take n xs) @ x # drop j (take n xs)"
proof -
  have "min (length xs - j) (n - j) = n - j" "min n j = j" "Suc n - j = Suc (n - j)"
    using assms by auto
  then show ?thesis using assms by (simp add: drop_take)
qed

lemma shifted_pointers:
  assumes "j \<le> n" "Suc n < length ps"
  shows "take (n + 2) ((take (Suc j) (ps[Suc n := ps ! n]) @ take (n - j) (drop j (ps[Suc n := ps ! n]))
            @ drop (Suc n) (ps[Suc n := ps ! n]))[Suc j := r])
    = take (Suc j) ps @ r # drop (Suc j) (take (Suc n) ps)" (is "?l = ?r")
proof -
  let ?q = "ps[Suc n := ps ! n]"
  let ?m = "take (Suc j) ?q @ take (n - j) (drop j ?q) @ drop (Suc n) ?q"
  have l: "min (length ps - j) (n - j) = n - j" "length ?m = Suc (length ps - 1)"
    using assms by auto
  have "?l ! i = ?r ! i" if "i < n + 2" for i
  proof -
    consider "i \<le> j" | "i = Suc j" | "Suc j < i" by linarith
    then show ?thesis
    proof cases
      case 3
      then have "?l ! i = ?m ! i" using that by simp
      also have "\<dots> = ps ! (i - 1)" using 3 that assms l(1)
        by (auto simp: nth_append nth_list_update le_Suc_eq intro!: arg_cong [of _ _ "(!) ps"])
      also have "\<dots> = ?r ! i" using 3 that assms
        by (auto simp: nth_append intro!: arg_cong [of _ _ "(!) ps"])
      finally show ?thesis .
    qed (use that assms l in \<open>auto simp: nth_append\<close>)
  qed
  then show ?thesis using assms l by (intro nth_equalityI) auto
qed

lemma length5E:
  assumes "length xs = MAX_KEY"
  obtains a b c d e where "xs = [a, b, c, d, e]"
  using assms by (auto simp: length_Suc_conv eval_nat_numeral)

lemma length6E:
  assumes "length xs = Suc MAX_KEY"
  obtains a b c d e f where "xs = [a, b, c, d, e, f]"
  using assms by (auto simp: length_Suc_conv eval_nat_numeral)

lemma replicate_4: "replicate 4 x = [x, x, x, x]"
  by (simp add: eval_nat_numeral)

subsection \<open>The split of a full child\<close>

definition right_half :: "Node \<Rightarrow> Node" where
  "right_half c = \<lparr>key = drop 3 (key c) @ [-1, -1, -1],
     pointer = take 2 (drop 3 (pointer c)) @ [pointer c ! 5, NIL, NIL,
       if is_leaf c then pointer c ! 5 else NIL],
     key_total = 2, is_leaf = is_leaf c\<rparr>"

definition left_half :: "Node \<Rightarrow> nat \<Rightarrow> Node" where
  "left_half c r = (if is_leaf c then c\<lparr>pointer := (pointer c)[5 := r], key_total := 3\<rparr>
     else c\<lparr>key_total := 2\<rparr>)"

lemma split_ok:
  assumes p: "shaped p" "key_total p < MAX_KEY" and c: "shaped c" and j: "j \<le> key_total p"
    and sz: "NODE_SIZE * length f < 2 ^ 32"
  shows "\<exists>p'. split p c j f = Inr (p', left_half c (NODE_SIZE * length f), f @ [right_half c])
    \<and> shaped p' \<and> key_total p' = Suc (key_total p) \<and> is_leaf p' = is_leaf p
    \<and> take (Suc (key_total p)) (key p')
        = take j (take (key_total p) (key p)) @ key c ! 2 # drop j (take (key_total p) (key p))
    \<and> take (key_total p + 2) (pointer p')
        = take (Suc j) (pointer p) @ (NODE_SIZE * length f)
            # drop (Suc j) (take (Suc (key_total p)) (pointer p))"
proof -
  let ?n = "key_total p" and ?R = "NODE_SIZE * length f"
  obtain k0 k1 k2 k3 k4 where ck: "key c = [k0, k1, k2, k3, k4]"
    using c length5E unfolding shaped_def by metis
  obtain p0 p1 p2 p3 p4 p5 where cp: "pointer c = [p0, p1, p2, p3, p4, p5]"
    using c length6E unfolding shaped_def by metis
  have len: "length (key p) = MAX_KEY" "length (pointer p) = Suc MAX_KEY"
    using p by (simp_all add: shaped_def)
  let ?ks = "take j (key p) @ k2 # take (?n - j) (drop j (key p)) @ drop (Suc ?n) (key p)"
  let ?q = "(pointer p)[Suc ?n := pointer p ! ?n]"
  let ?ps = "(take (Suc j) ?q @ take (?n - j) (drop j ?q) @ drop (Suc ?n) ?q)[Suc j := ?R]"
  let ?p' = "p\<lparr>key := ?ks, pointer := ?ps, key_total := Suc ?n\<rparr>"
  have R: "get_final_node f = ?R" using sz by (simp add: get_final_node_def)
  have ksh: "bnd (shift_up (key p) ?n j) (\<lambda>pks. bnd (aset pks j k2) g) = g ?ks"
    for g :: "int list \<Rightarrow> 'b result"
    using j p(2) len shifted_insert [of j ?n "key p" k2] by (simp add: arr aset_def)
  have psh: "shift_up ?q ?n j = Inr (take (Suc j) ?q @ take (?n - j) (drop j ?q) @ drop (Suc ?n) ?q)"
    using j p(2) len by (simp add: arr)
  have half: "drop_bit 1 MAX_KEY = 2" by (simp add: drop_bit_eq_div)
  have setR: "aset (take (Suc j) ?q @ take (?n - j) (drop j ?q) @ drop (Suc ?n) ?q) (Suc j) ?R = Inr ?ps"
    using j p(2) len by (simp add: arr min_def)
  have rk: "copy_into (key new_node) 0 (drop (2 + 1) (key c)) (MAX_KEY - 2 - 1)
      = Inr [k3, k4, -1, -1, -1]"
    by (subst copy_into_ok) (simp_all add: ck new_node_def numeral_3_eq_3)
  have rp: "copy_into (pointer new_node) 0 (drop (2 + 1) (pointer c)) (MAX_KEY - 2 - 1)
      = Inr [p3, p4, NIL, NIL, NIL, NIL]"
    by (subst copy_into_ok) (simp_all add: cp new_node_def replicate_4)
  have g: "aget (pointer p) ?n = Inr (pointer p ! ?n)"
      "aset (pointer p) (Suc ?n) (pointer p ! ?n) = Inr ?q"
      "aget (key c) 2 = Inr k2" "aget (pointer c) MAX_KEY = Inr p5"
      "aset [p3, p4, NIL, NIL, NIL, NIL] (MAX_KEY - 2 - 1) p5 = Inr [p3, p4, p5, NIL, NIL, NIL]"
      "aset [p3, p4, p5, NIL, NIL, NIL] MAX_KEY p5 = Inr [p3, p4, p5, NIL, NIL, p5]"
      "aset (pointer c) MAX_KEY ?R = Inr ((pointer c)[5 := ?R])"
    using p(2) len by (simp_all add: aget_def aset_def ck cp)
  have halves: "left_half c ?R = (if is_leaf c then c\<lparr>pointer := (pointer c)[5 := ?R], key_total := 3\<rparr>
      else c\<lparr>pointer := pointer c, key_total := 2\<rparr>)"
    "right_half c = (if is_leaf c
      then \<lparr>key = [k3, k4, -1, -1, -1], pointer = [p3, p4, p5, NIL, NIL, p5], key_total = 2, is_leaf = True\<rparr>
      else \<lparr>key = [k3, k4, -1, -1, -1], pointer = [p3, p4, p5, NIL, NIL, NIL], key_total = 2, is_leaf = False\<rparr>)"
    by (simp_all add: left_half_def right_half_def ck cp)
  have tot: "MAX_KEY - 2 - 1 = 2" "Suc 2 = (3::nat)" by simp_all
  have "split p c j f = Inr (?p', left_half c ?R, f @ [right_half c])"
    unfolding split_def half R Let_def g bnd_Inr psh ksh rk rp setR halves
    by (cases "is_leaf c") (simp_all add: g [unfolded tot])
  moreover have "shaped ?p'" using j p(2) len by (auto simp: shaped_def)
  moreover have "take (Suc ?n) ?ks = take j (take ?n (key p)) @ k2 # drop j (take ?n (key p))"
    using j p(2) len by (intro take_shifted_insert) auto
  moreover have "take (?n + 2) ?ps = take (Suc j) (pointer p) @ ?R # drop (Suc j) (take (Suc ?n) (pointer p))"
    using j p(2) len by (intro shifted_pointers) auto
  ultimately show ?thesis using ck by (intro exI [of _ ?p']) simp
qed

subsection \<open>The split of the abstract tree\<close>

lemma split_bt_ok:
  assumes "wf_bt c" "nkeys c = MAX_KEY" "split_bt m c = (l, s, r)"
  shows "leaves l @ leaves r = leaves c" "sep_of l s" "wf_bt l" "wf_bt r"
    and "nkeys l < MAX_KEY" "nkeys r < MAX_KEY" "root_ix l = root_ix c" "root_ix r = m"
    and "set (slots l) \<union> set (slots r) = insert m (set (slots c))"
    and "m \<notin> set (slots c) \<Longrightarrow> distinct (slots c) \<Longrightarrow> distinct (slots l @ slots r)"
    and "fits d c \<Longrightarrow> fits d l \<and> fits d r" "sep_of c k \<Longrightarrow> sep_of r k"
proof -
  have "leaves l @ leaves r = leaves c \<and> sep_of l s \<and> wf_bt l \<and> wf_bt r \<and>
    nkeys l < MAX_KEY \<and> nkeys r < MAX_KEY \<and> root_ix l = root_ix c \<and> root_ix r = m \<and>
    set (slots l) \<union> set (slots r) = insert m (set (slots c)) \<and>
    (m \<notin> set (slots c) \<longrightarrow> distinct (slots c) \<longrightarrow> distinct (slots l @ slots r)) \<and>
    (fits d c \<longrightarrow> fits d l \<and> fits d r) \<and> (sep_of c k \<longrightarrow> sep_of r k)"
  proof (cases c)
    case (Lf i kvs)
    then have "length kvs = MAX_KEY" using assms(2) by simp
    then obtain a b x d e where "kvs = [a, b, x, d, e]" by (rule length5E)
    with Lf assms show ?thesis by (auto simp: sep_of_def)
  next
    case (Nd i cs ks)
    with assms have sp: "seps cs ks" "length ks = MAX_KEY" by auto
    obtain k0 k1 k2 k3 k4 where ks: "ks = [k0, k1, k2, k3, k4]" using sp(2) length5E by blast
    have "length cs = Suc MAX_KEY" using seps_length [OF sp(1)] sp(2) by simp
    then obtain c0 c1 c2 c3 c4 c5 where cs: "cs = [c0, c1, c2, c3, c4, c5]" using length6E by blast
    show ?thesis using Nd assms sp ks cs by (auto simp: sep_of_def)
  qed
  then show "leaves l @ leaves r = leaves c" "sep_of l s" "wf_bt l" "wf_bt r"
    "nkeys l < MAX_KEY" "nkeys r < MAX_KEY" "root_ix l = root_ix c" "root_ix r = m"
    "set (slots l) \<union> set (slots r) = insert m (set (slots c))"
    "m \<notin> set (slots c) \<Longrightarrow> distinct (slots c) \<Longrightarrow> distinct (slots l @ slots r)"
    "fits d c \<Longrightarrow> fits d l \<and> fits d r" "sep_of c k \<Longrightarrow> sep_of r k" by blast+
qed

lemma holds_shaped: "holds n c \<Longrightarrow> shaped n"
  by (cases c) auto

text \<open>The two records \<open>split\<close> makes of a full child hold the halves of the abstract split.\<close>

lemma split_holds:
  assumes "holds n c" "wf_bt c" "nkeys c = MAX_KEY" "split_bt m c = (l, s, r)"
  shows "holds (left_half n R) l" "holds (right_half n) r" "key n ! 2 = s"
proof -
  have "length (key n) = MAX_KEY" "length (pointer n) = Suc MAX_KEY"
    using holds_shaped [OF assms(1)] by (simp_all add: shaped_def)
  then obtain a b x d e p0 p1 p2 p3 p4 p5
    where ck: "key n = [a, b, x, d, e]" and cp: "pointer n = [p0, p1, p2, p3, p4, p5]"
    using length5E length6E by metis
  have "holds (left_half n R) l \<and> holds (right_half n) r \<and> key n ! 2 = s"
  proof (cases c)
    case (Lf i kvs)
    then have "length kvs = MAX_KEY" using assms(3) by simp
    then obtain a' b' x' d' e' where "kvs = [a', b', x', d', e']" by (rule length5E)
    with Lf assms ck cp show ?thesis by (auto simp: left_half_def right_half_def shaped_def)
  next
    case (Nd i cs ks)
    with assms have sp: "seps cs ks" "length ks = MAX_KEY" by auto
    have "length cs = Suc MAX_KEY" using seps_length [OF sp(1)] sp(2) by simp
    then obtain c0 c1 c2 c3 c4 c5 where cs: "cs = [c0, c1, c2, c3, c4, c5]" using length6E by blast
    obtain k0 k1 k2 k3 k4 where ks: "ks = [k0, k1, k2, k3, k4]" using sp(2) length5E by blast
    show ?thesis using Nd assms ck cp cs ks by (auto simp: left_half_def right_half_def shaped_def)
  qed
  then show "holds (left_half n R) l" "holds (right_half n) r" "key n ! 2 = s" by auto
qed

lemma stored_children:
  assumes "stored f (Nd i cs ks)" "distinct (slots (Nd i cs ks))" "length f \<le> length g"
    and "\<forall>j\<in>set (slots (Nd i cs ks)). j \<noteq> i \<longrightarrow> g ! j = f ! j" "c \<in> set cs"
  shows "stored g c"
proof (rule stored_frame)
  show "stored f c" using assms(1,5) by simp
  have "i \<notin> set (slots c)" using assms(2,5) by auto
  then show "\<forall>j\<in>set (slots c). g ! j = f ! j" using assms(4,5) by auto
qed (rule assms(3))

lemma split_stored:
  assumes f: "stored f c" "wf_bt c" "nkeys c = MAX_KEY" "distinct (slots c)"
    and sp: "split_bt (length f) c = (l, s, r)"
    and g: "length g = Suc (length f)" "g ! root_ix c = left_half (f ! root_ix c) R"
      "g ! length f = right_half (f ! root_ix c)"
      "\<forall>j\<in>set (slots c). j \<noteq> root_ix c \<longrightarrow> g ! j = f ! j"
  shows "stored g l" "stored g r"
proof -
  have lt: "root_ix c < length g" using stored_root [OF f(1)] g(1) by simp
  have h: "holds (g ! root_ix c) l" "holds (g ! length f) r"
    using split_holds [OF stored_root(2) [OF f(1)] f(2,3) sp] g by auto
  have ch: "stored g x" if "c = Nd i cs ks" "x \<in> set cs" for i cs ks x
    using stored_children [of f i cs ks g x] f g that by auto
  show "stored g l" "stored g r"
    using h lt g(1) sp ch by (cases c; auto dest: in_set_takeD in_set_dropD)+
qed

subsection \<open>What an insertion does to the file\<close>

text \<open>\<open>f'\<close> stores \<open>t'\<close>, which is \<open>t\<close> with the entry inserted and of depth at most \<open>d\<close>; at most \<open>e\<close>
  slots are appended to the file, and old slots outside the tree are untouched.\<close>

definition inserts_to :: "nat \<Rightarrow> nat \<Rightarrow> bfile \<Rightarrow> bt \<Rightarrow> int \<Rightarrow> nat \<Rightarrow> bfile \<Rightarrow> bt \<Rightarrow> bool" where
  "inserts_to d e f t k v f' t' \<longleftrightarrow>
     stored f' t' \<and> wf_bt t' \<and> root_ix t' = root_ix t \<and> leaves t' = ins_list k v (leaves t) \<and>
     distinct (slots t') \<and> fits d t' \<and>
     set (slots t') \<subseteq> set (slots t) \<union> {length f..<length f'} \<and>
     length f \<le> length f' \<and> length f' \<le> length f + e \<and>
     (\<forall>i<length f. i \<notin> set (slots t) \<longrightarrow> f' ! i = f ! i)"

lemma inserts_to_refl:
  assumes "stored f t" "wf_bt t" "sorted_keys (leaves t)" "distinct (slots t)" "fits d t"
    and "k \<in> fst ` set (leaves t)"
  shows "inserts_to d e f t k v f t"
  using assms ins_list_present by (auto simp: inserts_to_def)

text \<open>The leaf code.\<close>

definition leaf_insert :: "Node \<Rightarrow> nat \<Rightarrow> Key_Pointer \<Rightarrow> Node" where
  "leaf_insert n j kp = n\<lparr>
     key := take j (key n) @ kp_key kp # take (key_total n - j) (drop j (key n)) @ drop (Suc (key_total n)) (key n),
     pointer := take j (pointer n) @ kp_pointer kp # take (key_total n - j) (drop j (pointer n))
       @ drop (Suc (key_total n)) (pointer n),
     key_total := Suc (key_total n)\<rparr>"

lemma leaf_insert_simps:
  "key (leaf_insert n j kp) =
     take j (key n) @ kp_key kp # take (key_total n - j) (drop j (key n)) @ drop (Suc (key_total n)) (key n)"
  "pointer (leaf_insert n j kp) = take j (pointer n) @ kp_pointer kp # take (key_total n - j) (drop j (pointer n))
     @ drop (Suc (key_total n)) (pointer n)"
  by (simp_all add: leaf_insert_def)

lemma leaf_insert_holds:
  assumes h: "holds n (Lf i kvs)" and "length kvs < MAX_KEY" and "sorted_keys kvs"
    and "kp_key kp \<notin> fst ` set kvs" and j: "j = pos_in (map fst kvs) (kp_key kp)"
  shows "holds (leaf_insert n j kp) (Lf i (ins_list (kp_key kp) (kp_pointer kp) kvs))"
proof -
  have jl: "j \<le> length kvs" using j pos_in_le [of "map fst kvs"] by simp
  have ins: "ins_list (kp_key kp) (kp_pointer kp) kvs
      = take j kvs @ (kp_key kp, kp_pointer kp) # drop j kvs"
    using ins_list_at_pos assms by blast
  have len: "length kvs < length (key n)" "length kvs < length (pointer n)"
    and tk: "take (length kvs) (key n) = map fst kvs" "take (length kvs) (pointer n) = map snd kvs"
    and kt: "key_total n = length kvs"
    using h assms(2) by (simp_all add: shaped_def)
  have "take (Suc (length kvs)) (key (leaf_insert n j kp))
      = take j (map fst kvs) @ kp_key kp # drop j (map fst kvs)"
    unfolding leaf_insert_simps kt take_shifted_insert [OF jl len(1)] tk ..
  moreover have "take (Suc (length kvs)) (pointer (leaf_insert n j kp))
      = take j (map snd kvs) @ kp_pointer kp # drop j (map snd kvs)"
    unfolding leaf_insert_simps kt take_shifted_insert [OF jl len(2)] tk ..
  moreover have "shaped (leaf_insert n j kp)"
    using h assms(2) jl by (auto simp: leaf_insert_def shaped_def)
  moreover have "key_total (leaf_insert n j kp) = Suc (length kvs)" "is_leaf (leaf_insert n j kp)"
    using h by (simp_all add: leaf_insert_def)
  moreover have "length (take j kvs @ (kp_key kp, kp_pointer kp) # drop j kvs) = Suc (length kvs)"
    using jl by simp
  ultimately show ?thesis
    by (simp only: ins holds.simps map_append list.map take_map drop_map fst_conv snd_conv simp_thms)
qed

lemma insert_pos_leaf:
  assumes t: "t = Lf i kvs" "stored f t" "nkeys t < MAX_KEY" "sorted_keys (leaves t)"
  shows "\<exists>f' t'. insert_pos (Suc fuel) kp (NODE_SIZE * root_ix t) f = Inr f'
    \<and> inserts_to d e f t (kp_key kp) (kp_pointer kp) f' t'"
proof -
  let ?n = "f ! i" and ?k = "kp_key kp" and ?j = "pos_in (map fst kvs) (kp_key kp)"
  have h: "holds ?n (Lf i kvs)" and il: "i < length f" using t stored_root by auto
  have jl: "?j \<le> length kvs" using pos_in_le [of "map fst kvs"] by simp
  have len: "length (key ?n) = MAX_KEY" "length (pointer ?n) = Suc MAX_KEY" "length kvs < MAX_KEY"
    "key_total ?n = length kvs" "is_leaf ?n"
    using h t by (auto simp: shaped_def)
  have sc: "scan (key ?n) (length kvs) ?k 0 = Inr ?j"
    using holds_scan [OF h, of ?k] t by simp
  have hk: "aget (key ?n) ?j = Inr (fst (kvs ! ?j))" if "?j < length kvs"
    using holds_key [OF h, of ?j] that t by simp
  note hit = pos_in_hit [of kvs ?j ?k]
  show ?thesis
  proof (cases "?k \<in> fst ` set kvs")
    case True
    then have "insert_pos (Suc fuel) kp (NODE_SIZE * root_ix t) f = Inr f"
      using t len sc hk hit il by simp
    moreover have "inserts_to d e f t ?k (kp_pointer kp) f t"
      using inserts_to_refl t True by auto
    ultimately show ?thesis by blast
  next
    case False
    let ?n' = "leaf_insert ?n ?j kp"
    have sk: "shift_up (key ?n) (length kvs) ?j = Inr (take (Suc ?j) (key ?n)
        @ take (length kvs - ?j) (drop ?j (key ?n)) @ drop (Suc (length kvs)) (key ?n))"
      and sp: "shift_up (pointer ?n) (length kvs) ?j = Inr (take (Suc ?j) (pointer ?n)
        @ take (length kvs - ?j) (drop ?j (pointer ?n)) @ drop (Suc (length kvs)) (pointer ?n))"
      using len jl by (simp_all add: arr)
    have ak: "aset (take (Suc ?j) (key ?n) @ take (length kvs - ?j) (drop ?j (key ?n))
        @ drop (Suc (length kvs)) (key ?n)) ?j ?k = Inr (key ?n')"
      and ap: "aset (take (Suc ?j) (pointer ?n) @ take (length kvs - ?j) (drop ?j (pointer ?n))
        @ drop (Suc (length kvs)) (pointer ?n)) ?j (kp_pointer kp) = Inr (pointer ?n')"
      unfolding leaf_insert_simps len(4) using len jl by (simp_all only: aset_shifted)
    have n': "?n\<lparr>key := key ?n', pointer := pointer ?n', key_total := Suc (length kvs)\<rparr> = ?n'"
      using len by (simp add: leaf_insert_def)
    have miss: "(if ?j < length kvs then bnd (aget (key ?n) ?j) (\<lambda>x. Inr (x = ?k)) else Inr False)
        = (Inr False :: bool result)"
      using False hk hit t by auto
    have "insert_pos (Suc fuel) kp (NODE_SIZE * root_ix t) f = Inr (f[i := ?n'])"
      using t len sc miss sk sp ak ap n' il by simp
    moreover have "inserts_to d e f t ?k (kp_pointer kp) (f[i := ?n']) (Lf i (ins_list ?k (kp_pointer kp) kvs))"
      using leaf_insert_holds [OF h len(3) _ False refl] t il
      by (auto simp: inserts_to_def intro: le_trans [OF length_ins_list])
    ultimately show ?thesis by blast
  qed
qed

subsection \<open>Inner nodes\<close>

lemma distinct_swap:
  assumes "distinct (slots (Nd x (A @ c # B) ks))" "set (slots (Nd x (A @ c # B) ks)) \<subseteq> {..<m}"
    and "distinct M" "\<forall>i\<in>set M. i \<in> set (slots c) \<or> m \<le> i"
  shows "distinct (x # concat (map slots A) @ M @ concat (map slots B))"
proof -
  let ?a = "concat (map slots A)" and ?b = "concat (map slots B)"
  have d: "x \<notin> set ?a" "x \<notin> set ?b" "distinct ?a" "distinct ?b" "set ?a \<inter> set ?b = {}"
    using assms(1) by auto
  have "x \<notin> set (slots c)" "set (slots c) \<inter> set ?a = {}" "set (slots c) \<inter> set ?b = {}"
    using assms(1) by auto
  moreover have "x < m" "set ?a \<subseteq> {..<m}" "set ?b \<subseteq> {..<m}" using assms(2) by auto
  ultimately have "x \<notin> set M" "set M \<inter> set ?a = {}" "set M \<inter> set ?b = {}"
    using assms(4) by (meson disjoint_iff leD lessThan_iff subsetD)+
  then show ?thesis using d assms(3) by auto
qed

text \<open>Replacing a child by the result of inserting into it inserts into the tree.\<close>

lemma graft:
  assumes ins: "inserts_to d e g c k v g' c'"
    and t: "stored g (Nd x (A @ c # B) (KA @ KB))" "wf_bt (Nd x (A @ c # B) (KA @ KB))"
      "sorted_keys (leaves (Nd x (A @ c # B) (KA @ KB)))" "distinct (slots (Nd x (A @ c # B) (KA @ KB)))"
      "fits (Suc d) (Nd x (A @ c # B) (KA @ KB))"
    and at: "length A = length KA" "\<forall>x\<in>set KA. x < k" "KB \<noteq> [] \<longrightarrow> k \<le> hd KB"
  shows "inserts_to (Suc d) e g (Nd x (A @ c # B) (KA @ KB)) k v g' (Nd x (A @ c' # B) (KA @ KB))"
proof -
  have sp: "seps (A @ c # B) (KA @ KB)" using t(2) by simp
  have srt: "sorted_keys (concat (map leaves (A @ c # B)))" using t(3) by simp
  note b = child_bounds [OF sp at(1) srt at(2,3)]
  note i = ins [unfolded inserts_to_def]
  have dis: "x \<notin> set (slots c)" "\<And>a. a \<in> set A \<union> set B \<Longrightarrow> set (slots a) \<inter> set (slots c) = {}"
    using t(4) by auto
  have xl: "x < length g" and lt: "\<And>a s. a \<in> set A \<union> set B \<Longrightarrow> s \<in> set (slots a) \<Longrightarrow> s < length g"
    using t(1) stored_slots by auto
  have new: "s \<in> set (slots c) \<or> length g \<le> s" if "s \<in> set (slots c')" for s
    using i that by auto
  have side: "stored g' a" if "a \<in> set A \<union> set B" for a
  proof (rule stored_frame)
    show "stored g a" using t(1) that by auto
    show "\<forall>s\<in>set (slots a). g' ! s = g ! s" using i dis(2) [OF that] lt [OF that] by auto
  qed (use i in simp)
  have "stored g' (Nd x (A @ c' # B) (KA @ KB))" using i xl dis(1) t(1) side by auto
  moreover have "seps (c' # B) KB"
  proof -
    have s: "seps (c # B) KB" using sp seps_append [OF at(1), of "c # B" KB] by simp
    have "sep_of c' (hd KB)" if "KB \<noteq> []"
      using b(3) [OF that] that at(3) i last_ins_list [of "leaves c" k v] srt by (auto simp: sep_of_def)
    then show ?thesis using s by (auto split: if_splits list.splits)
  qed
  then have "wf_bt (Nd x (A @ c' # B) (KA @ KB))"
    using i t(2) b(5) seps_append [OF at(1), of "c' # B" KB] by simp
  moreover have "leaves (Nd x (A @ c' # B) (KA @ KB)) = ins_list k v (leaves (Nd x (A @ c # B) (KA @ KB)))"
    using i ins_list_left [OF b(1), of v] ins_list_right [OF b(2), of v] by simp
  moreover have "distinct (slots (Nd x (A @ c' # B) (KA @ KB)))"
  proof -
    have "set (slots (Nd x (A @ c # B) (KA @ KB))) \<subseteq> {..<length g}" using stored_slots [OF t(1)] by blast
    then have "distinct (x # concat (map slots A) @ slots c' @ concat (map slots B))"
      by (rule distinct_swap [OF t(4)]) (use new i in blast)+
    then show ?thesis by simp
  qed
  moreover have "fits (Suc d) (Nd x (A @ c' # B) (KA @ KB))" using t(5) i by auto
  moreover have "set (slots (Nd x (A @ c' # B) (KA @ KB)))
      \<subseteq> set (slots (Nd x (A @ c # B) (KA @ KB))) \<union> {length g..<length g'}" using i by auto
  ultimately show ?thesis using i by (auto simp: inserts_to_def)
qed

text \<open>\<open>split\<close> on records: the parent gets the separator and the right half, the child keeps the left.\<close>

lemma split_nodes:
  assumes hp: "holds p (Nd x (A @ c # B) (KA @ KB))" and hc: "holds n c"
    and wf: "wf_bt (Nd x (A @ c # B) (KA @ KB))"
    and full: "length KA + length KB < MAX_KEY" "nkeys c = MAX_KEY" and A: "length A = length KA"
    and sz: "NODE_SIZE * length f < 2 ^ 32" and lsr: "split_bt (length f) c = (l, s, r)"
  shows "\<exists>p'. split p n (length A) f
      = Inr (p', left_half n (NODE_SIZE * length f), f @ [right_half n])
    \<and> holds p' (Nd x (A @ l # r # B) (KA @ s # KB))"
proof -
  let ?p = p and ?c = n and ?m = "length f"
  have wc: "wf_bt c" using wf by simp
  have len: "length (A @ c # B) = Suc (length (KA @ KB))"
    using seps_length [of "A @ c # B" "KA @ KB"] wf by simp
  have B: "length B = length KB" using len A by simp
  have tot: "key_total ?p = length KA + length KB" using hp by simp
  have kp: "take (length KA + length KB) (key ?p) = KA @ KB"
    and pp: "take (Suc (length KA + length KB)) (pointer ?p) = map (\<lambda>c. NODE_SIZE * root_ix c) (A @ c # B)"
    using hp A B by simp_all
  obtain p' where sp: "split ?p ?c (length A) f
      = Inr (p', left_half ?c (NODE_SIZE * ?m), f @ [right_half ?c])"
    and p': "shaped p'" "key_total p' = Suc (key_total ?p)" "is_leaf p' = is_leaf ?p"
      "take (Suc (key_total ?p)) (key p') = take (length A) (take (key_total ?p) (key ?p))
         @ key ?c ! 2 # drop (length A) (take (key_total ?p) (key ?p))"
      "take (key_total ?p + 2) (pointer p') = take (Suc (length A)) (pointer ?p) @ (NODE_SIZE * ?m)
         # drop (Suc (length A)) (take (Suc (key_total ?p)) (pointer ?p))"
    using split_ok [of ?p ?c "length A" f] holds_shaped [OF hp] holds_shaped [OF hc] tot full(1) A sz by auto
  note ok = split_bt_ok [OF wc full(2) lsr]
  have key': "take (Suc (length KA + length KB)) (key p') = KA @ s # KB"
    using p'(4) kp A split_holds(3) [OF hc wc full(2) lsr] unfolding tot by simp
  have ptr': "take (length KA + length KB + 2) (pointer p')
      = map (\<lambda>c. NODE_SIZE * root_ix c) (A @ l # r # B)"
  proof -
    have "take (Suc (length A)) (pointer ?p)
        = take (Suc (length A)) (take (Suc (length KA + length KB)) (pointer ?p))"
      using A by (simp add: min_def)
    then show ?thesis using p'(5) ok(7,8) A unfolding tot pp by simp
  qed
  have "holds p' (Nd x (A @ l # r # B) (KA @ s # KB))" using p'(1-3) key' ptr' hp tot A B by simp
  with sp show ?thesis by blast
qed

text \<open>The split of a full child: \<open>split\<close> itself and the two writes of its caller.\<close>

definition splits_to :: "bfile \<Rightarrow> bt \<Rightarrow> bfile \<Rightarrow> bt \<Rightarrow> bool" where
  "splits_to f t g t2 \<longleftrightarrow>
     stored g t2 \<and> wf_bt t2 \<and> root_ix t2 = root_ix t \<and> leaves t2 = leaves t \<and> distinct (slots t2) \<and>
     (\<forall>d. fits d t \<longrightarrow> fits d t2) \<and> set (slots t2) \<subseteq> insert (length f) (set (slots t)) \<and>
     length g = Suc (length f) \<and> (\<forall>i<length f. i \<notin> set (slots t) \<longrightarrow> g ! i = f ! i)"

lemma split_step:
  assumes t: "t = Nd x (A @ c # B) (KA @ KB)" "stored f t" "wf_bt t" "distinct (slots t)"
    and full: "nkeys t < MAX_KEY" "nkeys c = MAX_KEY" and A: "length A = length KA"
    and sz: "NODE_SIZE * length f < 2 ^ 32"
  obtains g l s r where
    "bnd (split (f ! x) (f ! root_ix c) (length A) f) (\<lambda>(curr_node, child_node, f).
       bnd (write_node_to_file f (NODE_SIZE * x) curr_node) (\<lambda>f.
       bnd (aget (pointer curr_node) (length A)) (\<lambda>p.
       bnd (write_node_to_file f p child_node) (\<lambda>f.
         Inr (curr_node, f))))) = Inr (g ! x, g)"
    "splits_to f t g (Nd x (A @ l # r # B) (KA @ s # KB))" "nkeys l < MAX_KEY" "nkeys r < MAX_KEY"
proof -
  let ?p = "f ! x" and ?c = "f ! root_ix c" and ?m = "length f"
  obtain l s r where lsr: "split_bt ?m c = (l, s, r)" by (cases "split_bt ?m c") auto
  have hp: "holds ?p (Nd x (A @ c # B) (KA @ KB))" and xl: "x < ?m" and sc: "stored f c"
    and side: "\<And>a. a \<in> set A \<union> set B \<Longrightarrow> stored f a" and wc: "wf_bt c"
    and dc: "distinct (slots c)" "x \<notin> set (slots c)"
    and dis: "\<And>a. a \<in> set A \<union> set B \<Longrightarrow> x \<notin> set (slots a) \<and> set (slots a) \<inter> set (slots c) = {}"
    using t by auto
  have disj: "x \<notin> set (slots a) \<and> root_ix c \<notin> set (slots a)" if "a \<in> set A \<union> set B" for a
    using dis [OF that] root_in_slots [of c] by blast
  have cl: "root_ix c < ?m" and hc: "holds ?c c" using stored_root sc by blast+
  have cx: "root_ix c \<noteq> x" using dc(2) root_in_slots by metis
  have len: "length (A @ c # B) = Suc (length (KA @ KB))"
    using seps_length [of "A @ c # B" "KA @ KB"] t(1,3) by simp
  have B: "length B = length KB" using len A by simp
  have tot: "length KA + length KB < MAX_KEY" using full(1) t(1) by simp
  obtain p' where sp: "split ?p ?c (length A) f
      = Inr (p', left_half ?c (NODE_SIZE * ?m), f @ [right_half ?c])"
    and h2: "holds p' (Nd x (A @ l # r # B) (KA @ s # KB))"
    using split_nodes [OF hp hc t(3) [unfolded t(1)] tot full(2) A sz lsr] by blast
  let ?L = "left_half ?c (NODE_SIZE * ?m)" and ?R = "right_half ?c"
  let ?g = "(f @ [?R])[x := p', root_ix c := ?L]"
  let ?t2 = "Nd x (A @ l # r # B) (KA @ s # KB)"
  note ok = split_bt_ok [OF wc full(2) lsr]
  have pA: "aget (pointer p') (length A) = Inr (NODE_SIZE * root_ix c)"
    using holds_ptr [of p' x A l "r # B" "KA @ s # KB"] h2 tot A B ok(7) by simp
  have gx: "?g ! x = p'" using xl cx by (simp add: nth_list_update)
  have gf: "?g ! i = f ! i" if "i < ?m" "i \<noteq> x" "i \<noteq> root_ix c" for i
    using that by (simp add: nth_append)
  have code: "bnd (split ?p ?c (length A) f) (\<lambda>(curr_node, child_node, f).
       bnd (write_node_to_file f (NODE_SIZE * x) curr_node) (\<lambda>f.
       bnd (aget (pointer curr_node) (length A)) (\<lambda>p.
       bnd (write_node_to_file f p child_node) (\<lambda>f. Inr (curr_node, f))))) = Inr (?g ! x, ?g)"
    unfolding sp bnd_Inr case_prod_conv gx using xl cl pA by simp
  have halves: "stored ?g l" "stored ?g r"
  proof -
    have "?g ! root_ix c = ?L" "?g ! ?m = ?R" using cl xl by (simp_all add: nth_append)
    moreover have "\<forall>j\<in>set (slots c). j \<noteq> root_ix c \<longrightarrow> ?g ! j = f ! j"
      using dc(2) stored_slots [OF sc] gf by metis
    ultimately show "stored ?g l" "stored ?g r"
      using split_stored [OF sc wc full(2) dc(1) lsr, of ?g] by simp_all
  qed
  have keep: "stored ?g a" if "a \<in> set A \<union> set B" for a
  proof (rule stored_frame [OF side [OF that]])
    show "\<forall>i\<in>set (slots a). ?g ! i = f ! i"
      using disj [OF that] stored_slots [OF side [OF that]] gf by metis
  qed simp
  have "stored ?g ?t2" using xl gx h2 halves keep by auto
  moreover have "wf_bt ?t2"
  proof -
    have "seps (c # B) KB \<and> list_all2 sep_of A KA"
      using t(1,3) seps_append [OF A, of "c # B" KB] by simp
    moreover have "seps (r # B) KB" using calculation ok(12)
      by (auto split: if_splits list.splits)
    ultimately show ?thesis
      using t(1,3) ok(2-4) tot seps_append [OF A, of "l # r # B" "s # KB"] by auto
  qed
  moreover have "leaves ?t2 = leaves t" using t(1) ok(1) by simp
  moreover have "distinct (slots ?t2)"
  proof -
    have "?m \<notin> set (slots c)" using stored_slots [OF sc] by blast
    then have "distinct (slots l @ slots r)" using ok(10) dc(1) by blast
    moreover have "set (slots (Nd x (A @ c # B) (KA @ KB))) \<subseteq> {..<?m}"
      using stored_slots t(1,2) by blast
    ultimately show ?thesis
      using distinct_swap [OF t(4) [unfolded t(1)], of ?m "slots l @ slots r"] ok(9) by auto
  qed
  moreover have "\<forall>d. fits d t \<longrightarrow> fits d ?t2" using t(1) ok(11) by auto
  moreover have "set (slots ?t2) \<subseteq> insert ?m (set (slots t))" using t(1) ok(9) by auto
  moreover have "\<forall>i<?m. i \<notin> set (slots t) \<longrightarrow> ?g ! i = f ! i"
  proof (intro allI impI)
    fix i assume i: "i < ?m" "i \<notin> set (slots t)"
    then have "i \<noteq> x" "i \<noteq> root_ix c" using t(1) root_in_slots [of c] by auto
    then show "?g ! i = f ! i" using gf i(1) by blast
  qed
  ultimately have "splits_to f t ?g ?t2" by (simp add: splits_to_def t(1))
  from that [OF code this ok(5,6)] show thesis .
qed

lemma splits_then_inserts:
  assumes "splits_to f t g t2" "inserts_to d e g t2 k v f' t'"
  shows "inserts_to d (Suc e) f t k v f' t'"
proof -
  note s = assms(1) [unfolded splits_to_def] and i = assms(2) [unfolded inserts_to_def]
  have "set (slots t') \<subseteq> insert (length f) (set (slots t)) \<union> {length g..<length f'}" using s i by blast
  then have "set (slots t') \<subseteq> set (slots t) \<union> {length f..<length f'}" using s i by auto
  moreover have "f' ! j = f ! j" if "j < length f" "j \<notin> set (slots t)" for j
  proof -
    have "j \<notin> set (slots t2)" using s that by auto
    then show ?thesis using s i that by auto
  qed
  ultimately show ?thesis using s i by (auto simp: inserts_to_def)
qed

lemma inserts_mono: "inserts_to d e f t k v f' t' \<Longrightarrow> e \<le> e' \<Longrightarrow> inserts_to d e' f t k v f' t'"
  by (auto simp: inserts_to_def)

definition runs_ok :: "nat \<Rightarrow> Key_Pointer \<Rightarrow> nat \<Rightarrow> nat \<Rightarrow> bfile \<Rightarrow> bt \<Rightarrow> nat \<Rightarrow> bool" where
  "runs_ok fuel kp d e f t off \<longleftrightarrow> (\<exists>f' t'. insert_pos fuel kp off f = Inr f'
     \<and> inserts_to d e f t (kp_key kp) (kp_pointer kp) f' t')"

text \<open>One step of the descent: the recursive call on child \<open>c\<close>, put back into the tree.\<close>

lemma descend:
  assumes t: "stored g (Nd x (A @ c # B) (KA @ KB))" "wf_bt (Nd x (A @ c # B) (KA @ KB))"
      "sorted_keys (leaves (Nd x (A @ c # B) (KA @ KB)))" "distinct (slots (Nd x (A @ c # B) (KA @ KB)))"
      "fits (Suc d) (Nd x (A @ c # B) (KA @ KB))"
    and at: "length A = length KA" "\<forall>x\<in>set KA. x < kp_key kp" "KB \<noteq> [] \<longrightarrow> kp_key kp \<le> hd KB"
    and IH: "stored g c \<Longrightarrow> wf_bt c \<Longrightarrow> sorted_keys (leaves c) \<Longrightarrow> distinct (slots c) \<Longrightarrow> fits d c \<Longrightarrow>
      runs_ok fuel kp d d g c (NODE_SIZE * root_ix c)"
  shows "runs_ok fuel kp (Suc d) d g (Nd x (A @ c # B) (KA @ KB)) (NODE_SIZE * root_ix c)"
proof -
  obtain f' c' where "insert_pos fuel kp (NODE_SIZE * root_ix c) g = Inr f'"
    "inserts_to d d g c (kp_key kp) (kp_pointer kp) f' c'"
    using IH t by (auto simp: runs_ok_def)
  with graft [OF _ t at] show ?thesis unfolding runs_ok_def by blast
qed

text \<open>What the code reads at an inner node.\<close>

lemma inner_visit:
  assumes t: "t = Nd x (A @ c # B) (KA @ KB)" "stored f t" "wf_bt t" "nkeys t < MAX_KEY"
    and at: "length A = length KA" "\<forall>x\<in>set KA. x < k" "KB \<noteq> [] \<longrightarrow> k \<le> hd KB"
  shows "read_node_from_file f (NODE_SIZE * x) new_node = Inr (f ! x)"
    and "read_node_from_file f (NODE_SIZE * root_ix c) new_node = Inr (f ! root_ix c)"
    and "\<not> is_leaf (f ! x)" "key_total (f ! x) = length KA + length KB"
    and "key_total (f ! root_ix c) = nkeys c"
    and "scan (key (f ! x)) (length KA + length KB) k 0 = Inr (length KA)"
    and "aget (key (f ! x)) (length KA) = Inr (key (f ! x) ! length KA)"
    and "KB \<noteq> [] \<Longrightarrow> key (f ! x) ! length KA = hd KB"
    and "aget (pointer (f ! x)) (length KA) = Inr (NODE_SIZE * root_ix c)"
    and "length B = length KB"
proof -
  let ?n = "f ! x"
  have h: "holds ?n (Nd x (A @ c # B) (KA @ KB))" and sc: "stored f c" using t by auto
  show "read_node_from_file f (NODE_SIZE * x) new_node = Inr ?n"
    using stored_read [OF t(2)] t(1) by simp
  show "read_node_from_file f (NODE_SIZE * root_ix c) new_node = Inr (f ! root_ix c)"
    using stored_read [OF sc] by simp
  show "\<not> is_leaf ?n" and kt: "key_total ?n = length KA + length KB" using h by auto
  show "key_total (f ! root_ix c) = nkeys c" using stored_root(2) [OF sc] by (cases c) auto
  have len: "length (A @ c # B) = Suc (length (KA @ KB))"
    using seps_length [of "A @ c # B" "KA @ KB"] t(1,3) by simp
  then show "length B = length KB" using at(1) by simp
  have "takeWhile (\<lambda>x. x < k) (KA @ KB) = KA"
    using at(2,3) by (cases KB) (auto simp: takeWhile_append2 takeWhile_eq_all_conv)
  then have "pos_in (KA @ KB) k = length KA" by (simp add: pos_in_def)
  then show "scan (key ?n) (length KA + length KB) k 0 = Inr (length KA)"
    using holds_scan [OF h, of k] t(1,4) kt by simp
  show "aget (pointer ?n) (length KA) = Inr (NODE_SIZE * root_ix c)"
    using holds_ptr [OF h] t(1,4) len at(1) by simp
  have "length KA < length (key ?n)" using t(1,4) h by (simp add: shaped_def)
  then show "aget (key ?n) (length KA) = Inr (key ?n ! length KA)" by (simp add: arr)
  assume KB: "KB \<noteq> []"
  then have "key ?n ! length KA = (KA @ KB) ! length KA"
    using h nth_take [of "length KA" "length KA + length KB" "key ?n"] by simp
  then show "key ?n ! length KA = hd KB" using KB by (simp add: nth_append hd_conv_nth)
qed

text \<open>The three cases at an inner node: the key is a separator; the child has room; it is full.\<close>

lemma insert_at_separator:
  assumes t: "t = Nd x (A @ c # B) (KA @ KB)" "stored f t" "wf_bt t" "nkeys t < MAX_KEY"
      "sorted_keys (leaves t)" "distinct (slots t)" "fits d t"
    and at: "length A = length KA" "\<forall>x\<in>set KA. x < kp_key kp" "KB \<noteq> []" "hd KB = kp_key kp"
  shows "runs_ok (Suc fuel) kp d e f t (NODE_SIZE * x)"
proof -
  have at3: "KB \<noteq> [] \<longrightarrow> kp_key kp \<le> hd KB" using at(4) by simp
  note v = inner_visit [OF t(1-4) at(1,2) at3]
  have "sorted_keys (concat (map leaves (A @ c # B)))" "seps (A @ c # B) (KA @ KB)" using t by auto
  then have "sep_of c (hd KB)" using child_bounds(3) [OF _ at(1) _ at(2) at3 at(3)] by blast
  then have "kp_key kp \<in> fst ` set (leaves c)" using at(4) by (auto simp: sep_of_def)
  then have "kp_key kp \<in> fst ` set (leaves t)" unfolding t(1) by (auto simp: image_iff)
  then have "inserts_to d e f t (kp_key kp) (kp_pointer kp) f t" using inserts_to_refl t by blast
  moreover have "insert_pos (Suc fuel) kp (NODE_SIZE * x) f = Inr f"
    using v at(3,4) by simp
  ultimately show ?thesis unfolding runs_ok_def by blast
qed

lemma insert_room:
  assumes t: "t = Nd x (A @ c # B) (KA @ KB)" "stored f t" "wf_bt t" "nkeys t < MAX_KEY"
      "sorted_keys (leaves t)" "distinct (slots t)" "fits (Suc d) t"
    and at: "length A = length KA" "\<forall>x\<in>set KA. x < kp_key kp" "KB \<noteq> [] \<longrightarrow> kp_key kp < hd KB"
    and room: "nkeys c \<noteq> MAX_KEY"
    and IH: "stored f c \<Longrightarrow> wf_bt c \<Longrightarrow> sorted_keys (leaves c) \<Longrightarrow> distinct (slots c) \<Longrightarrow> fits d c \<Longrightarrow>
      runs_ok fuel kp d d f c (NODE_SIZE * root_ix c)"
  shows "runs_ok (Suc fuel) kp (Suc d) (Suc d) f t (NODE_SIZE * x)"
proof -
  have at3: "KB \<noteq> [] \<longrightarrow> kp_key kp \<le> hd KB" using at(3) by auto
  note v = inner_visit [OF t(1-4) at(1,2) at3]
  have run: "insert_pos (Suc fuel) kp (NODE_SIZE * x) f = insert_pos fuel kp (NODE_SIZE * root_ix c) f"
    using v room at(3) by (cases "KB = []") simp_all
  moreover have "runs_ok fuel kp (Suc d) d f t (NODE_SIZE * root_ix c)"
    unfolding t(1) by (rule descend [OF t(2,3,5-7) [unfolded t(1)] at(1,2) at3 IH])
  ultimately show ?thesis
    unfolding runs_ok_def run using inserts_mono le_SucI [OF order_refl] by blast
qed

lemma insert_full:
  assumes t: "t = Nd x (A @ c # B) (KA @ KB)" "stored f t" "wf_bt t" "nkeys t < MAX_KEY"
      "sorted_keys (leaves t)" "distinct (slots t)" "fits (Suc d) t"
    and at: "length A = length KA" "\<forall>x\<in>set KA. x < kp_key kp" "KB \<noteq> [] \<longrightarrow> kp_key kp < hd KB"
    and full: "nkeys c = MAX_KEY" and sz: "NODE_SIZE * length f < 2 ^ 32"
    and IH: "\<And>g c. length g = Suc (length f) \<Longrightarrow> nkeys c < MAX_KEY \<Longrightarrow> stored g c \<Longrightarrow> wf_bt c \<Longrightarrow>
      sorted_keys (leaves c) \<Longrightarrow> distinct (slots c) \<Longrightarrow> fits d c \<Longrightarrow>
      runs_ok fuel kp d d g c (NODE_SIZE * root_ix c)"
  shows "runs_ok (Suc fuel) kp (Suc d) (Suc d) f t (NODE_SIZE * x)"
proof -
  let ?k = "kp_key kp"
  have at3: "KB \<noteq> [] \<longrightarrow> ?k \<le> hd KB" using at(3) by auto
  note v = inner_visit [OF t(1-4) at(1,2) at3]
  obtain g l s r where code: "bnd (split (f ! x) (f ! root_ix c) (length A) f)
      (\<lambda>(curr_node, child_node, f).
       bnd (write_node_to_file f (NODE_SIZE * x) curr_node) (\<lambda>f.
       bnd (aget (pointer curr_node) (length A)) (\<lambda>p.
       bnd (write_node_to_file f p child_node) (\<lambda>f.
         Inr (curr_node, f))))) = Inr (g ! x, g)"
    and spl: "splits_to f t g (Nd x (A @ l # r # B) (KA @ s # KB))"
    and small: "nkeys l < MAX_KEY" "nkeys r < MAX_KEY"
    by (rule split_step [OF t(1-3,6,4) full at(1) sz])
  let ?T = "Nd x (A @ l # r # B) (KA @ s # KB)"
  have lg: "length g = Suc (length f)" using spl by (simp add: splits_to_def)
  have T: "stored g ?T" "wf_bt ?T" "sorted_keys (leaves ?T)" "distinct (slots ?T)" "fits (Suc d) ?T"
  proof -
    have "sorted_keys (leaves t)" "fits (Suc d) t" using t(5,7) by blast+
    then show "stored g ?T" "wf_bt ?T" "sorted_keys (leaves ?T)" "distinct (slots ?T)" "fits (Suc d) ?T"
      using spl unfolding splits_to_def by metis+
  qed
  have h: "holds (g ! x) ?T" using T(1) by simp
  have k4: "length KA + length KB < MAX_KEY" using t(1,4) by simp
  have rd: "key_total (g ! x) = Suc (length KA + length KB)" "aget (key (g ! x)) (length KA) = Inr s"
    "aget (pointer (g ! x)) (length KA) = Inr (NODE_SIZE * root_ix l)"
    "aget (pointer (g ! x)) (Suc (length KA)) = Inr (NODE_SIZE * root_ix r)"
    using h holds_key [OF h, of "length KA"] holds_ptr [of "g ! x" x A l "r # B" "KA @ s # KB"]
      holds_ptr [of "g ! x" x "A @ [l]" r B "KA @ s # KB"] k4 at(1) v(10) by simp_all
  have run: "insert_pos (Suc fuel) kp (NODE_SIZE * x) f
      = insert_pos fuel kp (NODE_SIZE * root_ix (if ?k \<le> s then l else r)) g"
    using v rd full code [unfolded at(1)] at(3) by (cases "KB = []") simp_all
  have "runs_ok fuel kp (Suc d) d g ?T (NODE_SIZE * root_ix (if ?k \<le> s then l else r))"
  proof (cases "?k \<le> s")
    case True
    have "runs_ok fuel kp (Suc d) d g (Nd x (A @ l # r # B) (KA @ s # KB)) (NODE_SIZE * root_ix l)"
      by (rule descend [OF T at(1,2) _ IH [OF lg small(1)]]) (simp_all add: True)
    then show ?thesis using True by simp
  next
    case False
    have "runs_ok fuel kp (Suc d) d g (Nd x ((A @ [l]) @ r # B) ((KA @ [s]) @ KB)) (NODE_SIZE * root_ix r)"
      by (rule descend [OF _ _ _ _ _ _ _ _ IH [OF lg small(2)]])
        (use T at(1,2) at3 False in simp_all)
    then show ?thesis using False by simp
  qed
  then show ?thesis
    using splits_then_inserts [OF spl] unfolding runs_ok_def run by blast
qed

lemma insert_pos_ok:
  assumes "stored f t" "wf_bt t" "sorted_keys (leaves t)" "distinct (slots t)"
    and "nkeys t < MAX_KEY" "fits d t" "d < fuel" "NODE_SIZE * (length f + d) < 2 ^ 32"
  shows "runs_ok fuel kp d d f t (NODE_SIZE * root_ix t)"
  using assms
proof (induction fuel arbitrary: f t d)
  case (Suc fuel)
  show ?case
  proof (cases t)
    case (Lf i kvs)
    then show ?thesis using insert_pos_leaf Suc.prems unfolding runs_ok_def by blast
  next
    case (Nd x cs ks)
    obtain d' where d: "d = Suc d'" using Suc.prems(6) Nd by (cases d) auto
    have "seps cs ks" using Nd Suc.prems by auto
    then obtain A c B KA KB where AB: "cs = A @ c # B" "ks = KA @ KB"
      "length A = pos_in ks (kp_key kp)" "length KA = pos_in ks (kp_key kp)"
      "\<forall>x\<in>set KA. x < kp_key kp" "KB \<noteq> [] \<longrightarrow> kp_key kp \<le> hd KB"
      using child_at by blast
    have tT: "t = Nd x (A @ c # B) (KA @ KB)" and at: "length A = length KA" using Nd AB by simp_all
    note t = tT Suc.prems(1,2,5,3,4) Suc.prems(6) [unfolded d]
    have IH: "runs_ok fuel kp d' d' g c (NODE_SIZE * root_ix c)"
      if "stored g c" "wf_bt c" "sorted_keys (leaves c)" "distinct (slots c)" "nkeys c < MAX_KEY"
        "fits d' c" "length g \<le> Suc (length f)" for g c
      using Suc.IH [of g c d'] that Suc.prems(7,8) d by simp
    have wc: "nkeys c \<le> MAX_KEY" using Suc.prems(2) tT by (cases c) auto
    have sz: "NODE_SIZE * length f < 2 ^ 32" using Suc.prems(8) by simp
    consider "KB \<noteq> []" "hd KB = kp_key kp" | "KB \<noteq> [] \<longrightarrow> kp_key kp < hd KB" "nkeys c \<noteq> MAX_KEY"
      | "KB \<noteq> [] \<longrightarrow> kp_key kp < hd KB" "nkeys c = MAX_KEY" using AB(6) by fastforce
    then show ?thesis
    proof cases
      case 1
      then show ?thesis
        using insert_at_separator [OF tT Suc.prems(1,2,5,3,4,6) at AB(5)] tT by simp
    next
      case 2
      then show ?thesis using insert_room [OF t at AB(5) 2 IH] wc tT d by simp
    next
      case 3
      then show ?thesis using insert_full [OF t at AB(5) 3 sz IH] tT d by simp
    qed
  qed
qed simp

end
