(* ===== verification/BpCorrect.thy ===== *)
theory BpCorrect
  imports BpInsertCorrect
begin

text \<open>
  The public operations of \<open>class Bp_tree\<close> (\<open>data_structure/bptree.cpp\<close>) against a finite map.

  \<^item> \<open>represents d b m\<close>: the object \<open>b\<close> stores a well-formed tree of depth at most \<open>d\<close> whose entries
    are the map \<open>m\<close>.
  \<^item> \<open>root_split\<close>: the root split of \<open>insert\<close>, the only place where the tree grows in height.
  \<^item> \<open>bp_insert_rep\<close>, \<open>query_rep\<close>, \<open>build_rep\<close>: each operation refines its counterpart on maps; the fuel
    needed is the depth, and the file must stay below 2^32 bytes, since offsets are 32-bit.
\<close>

definition bp_rep :: "nat \<Rightarrow> Bp_tree \<Rightarrow> bt \<Rightarrow> bool" where
  "bp_rep d b t \<longleftrightarrow> root b = 0 \<and> root_ix t = 0 \<and> stored (bp_file b) t \<and> wf_bt t \<and>
     sorted_keys (leaves t) \<and> distinct (slots t) \<and> fits d t"

definition represents :: "nat \<Rightarrow> Bp_tree \<Rightarrow> (int \<rightharpoonup> nat) \<Rightarrow> bool" where
  "represents d b m \<longleftrightarrow> (\<exists>t. bp_rep d b t \<and> map_of (leaves t) = m)"

subsection \<open>The root split\<close>

fun reroot :: "nat \<Rightarrow> bt \<Rightarrow> bt" where
  "reroot i (Lf j kvs) = Lf i kvs"
| "reroot i (Nd j cs ks) = Nd i cs ks"

lemma reroot_simps [simp]:
  "root_ix (reroot i t) = i" "leaves (reroot i t) = leaves t" "wf_bt (reroot i t) = wf_bt t"
  "fits d (reroot i t) = fits d t" "nkeys (reroot i t) = nkeys t" "holds n (reroot i t) = holds n t"
  "sep_of (reroot i t) k = sep_of t k" "slots (reroot i t) = i # tl (slots t)"
  by (cases t; simp add: sep_of_def)+

lemma slots_root: "slots t = root_ix t # tl (slots t)"
  by (cases t) auto

lemma stored_reroot:
  assumes "stored g t" "i < length g'" "holds (g' ! i) t" "length g \<le> length g'"
    and "\<forall>j\<in>set (tl (slots t)). g' ! j = g ! j"
  shows "stored g' (reroot i t)"
proof (cases t)
  case (Nd j cs ks)
  have "stored g' c" if "c \<in> set cs" for c
    using assms Nd that by (intro stored_frame [of g c g']) auto
  with assms Nd show ?thesis by simp
qed (use assms in simp)

definition grows_to :: "bfile \<Rightarrow> bt \<Rightarrow> bfile \<Rightarrow> bt \<Rightarrow> bool" where
  "grows_to f t g t2 \<longleftrightarrow> stored g t2 \<and> wf_bt t2 \<and> root_ix t2 = 0 \<and> leaves t2 = leaves t \<and>
     distinct (slots t2) \<and> (\<forall>d. fits d t \<longrightarrow> fits (Suc d) t2) \<and> nkeys t2 = 1 \<and> length g = length f + 2"

text \<open>The new root: one separator and two children, the left one moved to the end of the file.\<close>

lemma root_split:
  assumes t: "stored f t" "root_ix t = 0" "wf_bt t" "distinct (slots t)" "nkeys t = MAX_KEY"
    and lsr: "split_bt (Suc (length f)) t = (l, s, r)"
    and q: "holds q (Nd 0 [reroot (length f) l, r] [s])"
  shows "grows_to f t ((f @ [left_half (f ! 0) R, right_half (f ! 0)])[0 := q])
    (Nd 0 [reroot (length f) l, r] [s])"
proof -
  let ?m = "length f" and ?c = "f ! 0"
  let ?L = "left_half ?c R" and ?R = "right_half ?c"
  let ?g = "(f @ [?L, ?R])[0 := q]"
  let ?h = "(f @ [?L, ?R])[0 := ?L]"
  have m0: "0 < ?m" and hc: "holds ?c t" using stored_root [OF t(1)] t(2) by simp_all
  note ok = split_bt_ok [OF t(3,5) lsr]
  have nin: "?m \<notin> set (slots t)" "Suc ?m \<notin> set (slots t)"
    using stored_slots [OF t(1), of ?m] stored_slots [OF t(1), of "Suc ?m"] by auto
  have l0: "root_ix l = 0" and r1: "root_ix r = Suc ?m" using ok(7,8) t(2) by simp_all
  have dlr: "distinct (slots l @ slots r)" using ok(10) nin t(4) by blast
  have hL: "holds ?L l" "holds ?R r" using split_holds [OF hc t(3,5) lsr] by simp_all
  have st0: "stored (f @ [?L]) t" using t(1) by (rule stored_append)
  have fr: "\<forall>j\<in>set (slots t). j \<noteq> root_ix t \<longrightarrow> ?h ! j = (f @ [?L]) ! j"
    using stored_slots [OF t(1)] t(2) by (auto simp: nth_append nth_list_update)
  have "length ?h = Suc (length (f @ [?L]))" "split_bt (length (f @ [?L])) t = (l, s, r)"
    "?h ! root_ix t = left_half ((f @ [?L]) ! root_ix t) R"
    "?h ! length (f @ [?L]) = right_half ((f @ [?L]) ! root_ix t)"
    using m0 lsr t(2) by (simp_all add: nth_append)
  then have st: "stored ?h l" "stored ?h r" using split_stored [OF st0 t(3,5,4)] fr by blast+
  have same: "?g ! j = ?h ! j" if "j \<noteq> 0" for j using that by (cases j) auto
  obtain ls where ls: "slots l = 0 # ls" using slots_root [of l] l0 by metis
  then have z: "0 \<notin> set (tl (slots l))" "0 \<notin> set (slots r)" using dlr by auto
  then have tails: "\<forall>j\<in>set (tl (slots l)). ?g ! j = ?h ! j" "\<forall>j\<in>set (slots r). ?g ! j = ?h ! j"
    using same z by metis+
  have "stored ?g (reroot ?m l)"
    by (rule stored_reroot [OF st(1) _ _ _ tails(1)]) (use hL m0 in \<open>auto simp: nth_append nth_list_update\<close>)
  moreover have "stored ?g r" by (rule stored_frame [OF st(2) _ tails(2)]) simp
  ultimately have "stored ?g (Nd 0 [reroot ?m l, r] [s])" using q m0 by simp
  moreover have "wf_bt (Nd 0 [reroot ?m l, r] [s])" using ok(2-4) by simp
  moreover have "distinct (slots (Nd 0 [reroot ?m l, r] [s]))"
  proof -
    have "?m \<notin> set (slots l) \<union> set (slots r)" using nin(1) ok(9) by simp
    then show ?thesis using dlr ls m0 by auto
  qed
  ultimately show ?thesis using ok(1,11) by (simp add: grows_to_def)
qed

text \<open>The code of the root split.\<close>

lemma root_split_code:
  assumes t: "stored f t" "root_ix t = 0" "wf_bt t" "distinct (slots t)" "nkeys t = MAX_KEY"
    and sz: "NODE_SIZE * Suc (length f) < 2 ^ 32"
  shows "\<exists>g t2. grows_to f t g t2 \<and>
    bp_insert fuel kp \<lparr>root = 0, bp_file = f\<rparr> =
      bnd (insert_pos fuel kp 0 g) (\<lambda>f. Inr \<lparr>root = 0, bp_file = f\<rparr>)"
proof -
  let ?m = "length f" and ?c = "f ! 0"
  have m0: "0 < ?m" and hc: "holds ?c t" using stored_root [OF t(1)] t(2) by simp_all
  have sh: "shaped ?c" "key_total ?c = MAX_KEY"
    using holds_shaped [OF hc] hc t(5) by (cases t; simp)+
  obtain l s r where lsr: "split_bt (Suc ?m) t = (l, s, r)" by (cases "split_bt (Suc ?m) t") auto
  let ?nr = "new_node\<lparr>is_leaf := False, key_total := 0, key := (key new_node)[0 := key ?c ! 4],
    pointer := (pointer new_node)[0 := 0]\<rparr>"
  let ?f1 = "f @ [?nr]" and ?L = "left_half ?c (NODE_SIZE * Suc ?m)" and ?R = "right_half ?c"
  have hd_ptr: "pointer new_node = NIL # replicate MAX_KEY NIL"
    unfolding new_node_def Node.simps replicate_Suc ..
  have nr: "shaped ?nr" "key_total ?nr = 0" by (simp_all add: shaped_def new_node_def)
  obtain p' where sp: "split ?nr ?c 0 ?f1 = Inr (p', ?L, ?f1 @ [?R])"
    and p': "shaped p'" "key_total p' = 1" "\<not> is_leaf p'" "take 1 (key p') = [key ?c ! 2]"
      "take 2 (pointer p') = [0, NODE_SIZE * Suc ?m]"
    using split_ok [of ?nr ?c 0 ?f1] nr sh sz by (auto simp: hd_ptr numeral_2_eq_2)
  let ?q = "p'\<lparr>pointer := (pointer p')[0 := NODE_SIZE * ?m]\<rparr>"
  let ?g = "(f @ [?L, ?R])[0 := ?q]"
  have lp: "length (pointer p') = 6" "length (key ?c) = 5" using p'(1) sh by (simp_all add: shaped_def)
  obtain a ps where ap: "pointer p' = a # NODE_SIZE * Suc ?m # ps"
    using p'(5) by (cases "pointer p'"; cases "tl (pointer p')") auto
  have q: "holds ?q (Nd 0 [reroot ?m l, r] [s])"
    using p' split_holds(3) [OF hc t(3,5) lsr] split_bt_ok(8) [OF t(3,5) lsr] ap
    by (auto simp: shaped_def)
  have off: "get_final_node f = NODE_SIZE * ?m" using sz by (simp add: get_final_node_def)
  have w: "write_node_to_file f (NODE_SIZE * ?m) n = Inr (f @ [n])"
    "write_node_to_file (f @ [n, n']) (NODE_SIZE * ?m) n'' = Inr (f @ [n'', n'])"
    "write_node_to_file (f @ [n, n']) 0 n'' = Inr ((f @ [n, n'])[0 := n''])" for n n' n''
    using write_slot [of ?m "f @ [n, n']" n''] write_slot [of 0 "f @ [n, n']" n''] by simp_all
  have gets: "aget_sub (key ?c) MAX_KEY 1 = Inr (key ?c ! 4)"
    "aset (key new_node) 0 (key ?c ! 4) = Inr ((key new_node)[0 := key ?c ! 4])"
    "aset (pointer new_node) 0 0 = Inr ((pointer new_node)[0 := 0])"
    "aset (pointer p') 0 (NODE_SIZE * ?m) = Inr ((pointer p')[0 := NODE_SIZE * ?m])"
    using lp by (simp_all add: aget_sub_def aget_def aset_def new_node_def)
  have rd: "read_node_from_file f 0 new_node = Inr ?c" using read_slot [OF m0, of new_node] by simp
  have "bp_insert fuel kp \<lparr>root = 0, bp_file = f\<rparr>
      = bnd (insert_pos fuel kp 0 ?g) (\<lambda>f. Inr \<lparr>root = 0, bp_file = f\<rparr>)"
    unfolding bp_insert_def Bp_tree.simps rd bnd_Inr sh(2) off Let_def gets simp_thms if_True w sp
      case_prod_conv node_copy_shaped [OF p'(1) shaped_new_node] append_assoc append_Cons append_Nil
    by (simp add: gets(4) w)
  then show ?thesis using root_split [OF t lsr q, of "NODE_SIZE * Suc ?m"] by blast
qed

subsection \<open>The operations against a finite map\<close>

definition put_new :: "(int \<rightharpoonup> nat) \<Rightarrow> Key_Pointer \<Rightarrow> (int \<rightharpoonup> nat)" where
  "put_new m kp = (case m (kp_key kp) of None \<Rightarrow> m(kp_key kp \<mapsto> kp_pointer kp) | Some _ \<Rightarrow> m)"

lemma bp_rep_obj: "bp_rep d b t \<Longrightarrow> b = \<lparr>root = 0, bp_file = bp_file b\<rparr>"
  by (simp add: bp_rep_def)

lemma bp_insert_room:
  assumes "bp_rep d b t" "nkeys t < MAX_KEY"
  shows "bp_insert fuel kp b = bnd (insert_pos fuel kp 0 (bp_file b)) (\<lambda>f. Inr \<lparr>root = 0, bp_file = f\<rparr>)"
proof -
  have r: "root b = 0" "root_ix t = 0" "stored (bp_file b) t" using assms(1) by (simp_all add: bp_rep_def)
  have "read_node_from_file (bp_file b) 0 new_node = Inr (bp_file b ! 0)"
    using stored_read [OF r(3), of new_node] r(2) by simp
  moreover have "key_total (bp_file b ! 0) = nkeys t" using stored_root(2) [OF r(3)] r(2) by (cases t) auto
  ultimately show ?thesis using r(1) assms(2) by (cases b) (simp add: bp_insert_def)
qed

lemma inserts_rep:
  assumes "inserts_to d e f t k v f' t'" "root_ix t = 0" "sorted_keys (leaves t)"
  shows "bp_rep d \<lparr>root = 0, bp_file = f'\<rparr> t'"
    "map_of (leaves t') = put_new (map_of (leaves t)) \<lparr>kp_key = k, kp_pointer = v\<rparr>"
  using assms sorted_ins_list map_of_ins_list [OF assms(3), of k v]
  by (auto simp: inserts_to_def bp_rep_def put_new_def split: option.splits)

lemma bp_insert_rep:
  assumes "bp_rep d b t" "Suc d < fuel" "NODE_SIZE * (length (bp_file b) + d + 3) < 2 ^ 32"
  shows "\<exists>b'. bp_insert fuel kp b = Inr b' \<and> represents (Suc d) b' (put_new (map_of (leaves t)) kp)
    \<and> length (bp_file b') \<le> length (bp_file b) + d + 3"
proof -
  let ?f = "bp_file b"
  note r = assms(1) [unfolded bp_rep_def]
  have kp: "\<lparr>kp_key = kp_key kp, kp_pointer = kp_pointer kp\<rparr> = kp" by simp
  have key: "\<exists>b'. bnd (insert_pos fuel kp 0 g) (\<lambda>f. Inr \<lparr>root = 0, bp_file = f\<rparr>) = Inr b'
      \<and> represents (Suc d) b' (put_new (map_of (leaves t)) kp) \<and> length (bp_file b') \<le> length g + Suc d"
    if g: "stored g u" "wf_bt u" "root_ix u = 0" "leaves u = leaves t" "distinct (slots u)"
      "fits (Suc d) u" "nkeys u < MAX_KEY" "length g \<le> length ?f + 2" for g u
  proof -
    have "sorted_keys (leaves u)" using g(4) r by simp
    then have "runs_ok fuel kp (Suc d) (Suc d) g u (NODE_SIZE * root_ix u)"
      using g assms(2,3) by (intro insert_pos_ok) simp_all
    then obtain f' t' where i: "insert_pos fuel kp 0 g = Inr f'"
      "inserts_to (Suc d) (Suc d) g u (kp_key kp) (kp_pointer kp) f' t'"
      using g(3) by (auto simp: runs_ok_def)
    have "length f' \<le> length g + Suc d" using i(2) by (simp add: inserts_to_def)
    then show ?thesis
      using i inserts_rep [OF i(2) g(3)] g(4) r unfolding represents_def kp by auto
  qed
  show ?thesis
  proof (cases "nkeys t = MAX_KEY")
    case True
    obtain g u where g: "grows_to ?f t g u" "bp_insert fuel kp \<lparr>root = 0, bp_file = ?f\<rparr> =
        bnd (insert_pos fuel kp 0 g) (\<lambda>f. Inr \<lparr>root = 0, bp_file = f\<rparr>)"
      using root_split_code [of ?f t fuel kp] r True assms(3) by auto
    have "stored g u" "wf_bt u" "root_ix u = 0" "leaves u = leaves t" "distinct (slots u)"
      "fits (Suc d) u" "nkeys u < MAX_KEY" "length g = length ?f + 2"
      using g(1) r by (simp_all add: grows_to_def)
    with key [of g u] g(2) bp_rep_obj [OF assms(1)] show ?thesis by auto
  next
    case False
    then have room: "nkeys t < MAX_KEY" using r by (cases t) auto
    have "fits (Suc d) t" using r fits_mono [of d t "Suc d"] by simp
    with key [of ?f t] r room bp_insert_room [OF assms(1) room] show ?thesis by auto
  qed
qed

lemma bp_insert_represents:
  assumes "represents d b m" "Suc d < fuel" "NODE_SIZE * (length (bp_file b) + d + 3) < 2 ^ 32"
  shows "\<exists>b'. bp_insert fuel kp b = Inr b' \<and> represents (Suc d) b' (put_new m kp)
    \<and> length (bp_file b') \<le> length (bp_file b) + d + 3"
  using assms bp_insert_rep unfolding represents_def [of d b m] by blast

lemma query_represents:
  assumes "represents d b m" "d < fuel"
  shows "query fuel k False b = Inr (case m k of None \<Rightarrow> NIL | Some p \<Rightarrow> p)"
proof -
  obtain t where t: "bp_rep d b t" "map_of (leaves t) = m" using assms(1) by (auto simp: represents_def)
  note r = t(1) [unfolded bp_rep_def]
  show ?thesis
    using query_pos_ok [of "bp_file b" t d fuel k] r t(2) assms(2) by (simp add: query_def)
qed

definition empty_leaf :: Node where
  "empty_leaf = new_node\<lparr>pointer := (pointer new_node)[MAX_KEY := 0], is_leaf := True\<rparr>"

lemma build_empty: "build (open_tree []) = Inr \<lparr>root = 0, bp_file = [empty_leaf]\<rparr>"
  by (simp add: build_def open_tree_def get_final_node_def empty_leaf_def new_node_def aset_def
      write_node_to_file_def Let_def)

lemma build_represents: "represents d \<lparr>root = 0, bp_file = [empty_leaf]\<rparr> Map.empty"
  unfolding represents_def
  by (intro exI [of _ "Lf 0 []"]) (simp add: bp_rep_def empty_leaf_def shaped_def new_node_def)

text \<open>The filling loop of \<open>main\<close>: each insertion adds at most one level and \<open>d + 3\<close> records.\<close>

fun grown :: "nat \<Rightarrow> nat \<Rightarrow> nat \<Rightarrow> nat" where
  "grown d l 0 = l"
| "grown d l (Suc n) = grown (Suc d) (l + d + 3) n"

lemma grown_mono: "l \<le> l' \<Longrightarrow> grown d l n \<le> grown d l' n"
  by (induction n arbitrary: d l l') auto

lemma grown_ge: "l \<le> grown d l n"
proof (induction n arbitrary: d l)
  case (Suc n)
  have "l \<le> l + d + 3" by simp
  also have "\<dots> \<le> grown (Suc d) (l + d + 3) n" by (rule Suc.IH)
  finally show ?case by simp
qed simp

lemma grown_le: "grown d l n \<le> l + n * (d + n + 3)"
proof (induction n arbitrary: d l)
  case (Suc n)
  have "grown (Suc d) (l + d + 3) n \<le> l + d + 3 + n * (Suc d + n + 3)" by (rule Suc.IH)
  then show ?case by (simp add: algebra_simps)
qed simp

fun fill_map :: "nat \<Rightarrow> (int \<rightharpoonup> nat) \<Rightarrow> (int \<rightharpoonup> nat)" where
  "fill_map 0 m = m"
| "fill_map (Suc i) m = fill_map i (put_new m \<lparr>kp_key = int i, kp_pointer = i * 100\<rparr>)"

lemma insert_down_represents:
  assumes "represents d b m" "d + n < fuel" "NODE_SIZE * grown d (length (bp_file b)) n < 2 ^ 32"
  shows "\<exists>b'. insert_down fuel n b = Inr b' \<and> represents (d + n) b' (fill_map n m)"
  using assms
proof (induction n arbitrary: d b m)
  case (Suc n)
  let ?l = "length (bp_file b)"
  have "?l + d + 3 \<le> grown (Suc d) (?l + d + 3) n" by (rule grown_ge)
  then have "NODE_SIZE * (?l + d + 3) < 2 ^ 32" using Suc.prems(3) by simp
  then obtain b' where b': "bp_insert fuel \<lparr>kp_key = int n, kp_pointer = n * 100\<rparr> b = Inr b'"
    "represents (Suc d) b' (put_new m \<lparr>kp_key = int n, kp_pointer = n * 100\<rparr>)"
    "length (bp_file b') \<le> ?l + d + 3"
    using bp_insert_represents [OF Suc.prems(1), of fuel "\<lparr>kp_key = int n, kp_pointer = n * 100\<rparr>"]
      Suc.prems(2) by auto
  have "NODE_SIZE * grown (Suc d) (length (bp_file b')) n < 2 ^ 32"
    using grown_mono [OF b'(3), of "Suc d" n] Suc.prems(3) by simp
  with Suc.IH [OF b'(2)] Suc.prems(2) b'(1) show ?case by simp
qed simp

lemma fill_map_apply:
  "fill_map n m k = (case m k of Some p \<Rightarrow> Some p
     | None \<Rightarrow> if 0 \<le> k \<and> k < int n then Some (nat k * 100) else None)"
  by (induction n arbitrary: m) (auto simp: put_new_def split: option.splits)

end
