(* ===== verification/BpRemoveCorrect.thy ===== *)
theory BpRemoveCorrect
  imports BpCorrect "HOL-Library.Code_Target_Numeral"
begin

text \<open>
  \<open>Bp_tree::remove\<close> (\<open>data_structure/bptree.cpp\<close>): what holds of it and what does not.

  \<^item> \<open>remove_leaf_ok\<close>: on a tree that is a single leaf it deletes the key.
  \<^item> \<open>append_leaf_ok\<close>, \<open>drop_entry_ok\<close>, \<open>append_inner_ok\<close>: the pieces of the merges on the entry lists.
  \<^item> \<open>remove_empty_diverges\<close>: on an empty tree it recurses for ever, since the branch for a node
    without keys takes the root for an inner node.
  \<^item> \<open>remove_ghost_key\<close>: a concrete tree on which a removal leaves the key in its leaf.
\<close>

subsection \<open>Closed forms\<close>

lemma take_drop_at:
  assumes "i < n" "n \<le> length xs"
  shows "take (n - 1) (take i xs @ take (n - 1 - i) (drop (Suc i) xs) @ drop (n - 1) xs)
    = take i (take n xs) @ drop (Suc i) (take n xs)"
proof -
  have "length (take i xs @ take (n - 1 - i) (drop (Suc i) xs)) = n - 1" using assms by simp
  then have "take (n - 1) ((take i xs @ take (n - 1 - i) (drop (Suc i) xs)) @ drop (n - 1) xs)
      = take i xs @ take (n - 1 - i) (drop (Suc i) xs)" by (metis append_eq_conv_conj)
  moreover have "take i (take n xs) = take i xs" using assms by (simp add: min_def)
  moreover have "drop (Suc i) (take n xs) = take (n - 1 - i) (drop (Suc i) xs)" by (simp add: drop_take)
  ultimately show ?thesis by simp
qed

lemma holds_LfI:
  "length ks = MAX_KEY \<Longrightarrow> length ps = Suc MAX_KEY \<Longrightarrow> m = length kvs \<Longrightarrow> is_leaf n \<Longrightarrow>
   take m ks = map fst kvs \<Longrightarrow> take m ps = map snd kvs \<Longrightarrow>
   holds (n\<lparr>key := ks, pointer := ps, key_total := m\<rparr>) (Lf i kvs)"
  by (simp add: shaped_def)

text \<open>G: the entry is deleted from the leaf.\<close>

lemma case_G_ok:
  assumes h: "holds n (Lf s kvs)" and kvs: "length kvs \<le> MAX_KEY" and i: "i < length kvs"
  shows "\<exists>n'. case_G n i = Inr n' \<and> holds n' (Lf s (take i kvs @ drop (Suc i) kvs))"
proof -
  let ?n = "length kvs" and ?sh = "\<lambda>xs. take i xs @ take (length kvs - 1 - i) (drop (Suc i) xs) @ drop (length kvs - 1) xs"
  have len: "length (key n) = MAX_KEY" "length (pointer n) = Suc MAX_KEY" "key_total n = ?n" "is_leaf n"
    and tk: "take ?n (key n) = map fst kvs" "take ?n (pointer n) = map snd kvs"
    using h by (simp_all add: shaped_def)
  let ?n' = "n\<lparr>key := ?sh (key n), pointer := ?sh (pointer n), key_total := ?n - 1\<rparr>"
  have "shift_down (key n) i (?n - 1) = Inr (?sh (key n))"
    "shift_down (pointer n) i (?n - 1) = Inr (?sh (pointer n))"
    using len kvs i by (intro shift_down_ok; simp)+
  then have "case_G n i = Inr ?n'" using len(3) by (simp add: case_G_def)
  moreover have "holds ?n' (Lf s (take i kvs @ drop (Suc i) kvs))"
  proof (rule holds_LfI)
    show "take (?n - 1) (?sh (key n)) = map fst (take i kvs @ drop (Suc i) kvs)"
      unfolding take_drop_at [OF i, of "key n", unfolded len(1), OF kvs] tk
      by (simp only: map_append take_map drop_map)
    show "take (?n - 1) (?sh (pointer n)) = map snd (take i kvs @ drop (Suc i) kvs)"
      unfolding take_drop_at [OF i, of "pointer n", unfolded len(2), OF le_SucI [OF kvs]] tk
      by (simp only: map_append take_map drop_map)
  qed (use len kvs i in simp_all)
  ultimately show ?thesis by blast
qed

text \<open>The leaf \<open>src\<close> appended to the leaf \<open>dst\<close>.\<close>

lemma append_leaf_ok:
  assumes d: "holds dst (Lf i kvs)" and s: "holds src (Lf j kws)"
    and room: "length kvs + length kws \<le> MAX_KEY"
  shows "\<exists>n. append_leaf dst src = Inr n \<and> holds n (Lf i (kvs @ kws)) \<and> pointer n ! MAX_KEY = pointer src ! MAX_KEY"
proof -
  let ?a = "length kvs" and ?b = "length kws"
  have len: "length (key dst) = MAX_KEY" "length (pointer dst) = Suc MAX_KEY" "key_total dst = ?a" "is_leaf dst"
    "length (key src) = MAX_KEY" "length (pointer src) = Suc MAX_KEY" "key_total src = ?b"
    and tk: "take ?a (key dst) = map fst kvs" "take ?a (pointer dst) = map snd kvs"
      "take ?b (key src) = map fst kws" "take ?b (pointer src) = map snd kws"
    using d s by (simp_all add: shaped_def)
  let ?ks = "map fst kvs @ map fst kws @ drop (?a + ?b) (key dst)"
  let ?ps = "map snd kvs @ map snd kws @ drop (?a + ?b) (pointer dst)"
  let ?n = "dst\<lparr>key := ?ks, pointer := ?ps[MAX_KEY := pointer src ! MAX_KEY], key_total := ?a + ?b\<rparr>"
  have "copy_into (key dst) ?a (key src) ?b = Inr ?ks" "copy_into (pointer dst) ?a (pointer src) ?b = Inr ?ps"
    using copy_into_ok [of ?b "key src" ?a "key dst"] copy_into_ok [of ?b "pointer src" ?a "pointer dst"]
      len room tk by simp_all
  moreover have "aget (pointer src) MAX_KEY = Inr (pointer src ! MAX_KEY)"
    "aset ?ps MAX_KEY (pointer src ! MAX_KEY) = Inr (?ps[MAX_KEY := pointer src ! MAX_KEY])"
    using len room by (simp_all add: arr)
  ultimately have "append_leaf dst src = Inr ?n" using len by (simp add: append_leaf_def)
  moreover have "take (?a + ?b) (?ps[MAX_KEY := pointer src ! MAX_KEY]) = map snd (kvs @ kws)"
    using room by simp
  moreover have "?ps[MAX_KEY := x] ! MAX_KEY = x" for x
    using len room by (intro nth_list_update_eq) simp
  ultimately show ?thesis
    using len room by (intro exI [of _ ?n]) (simp add: shaped_def)
qed

subsection \<open>A tree that is one leaf\<close>

lemma sorted_keys_delete:
  assumes "sorted_keys xs" "i < length xs"
  shows "sorted_keys (take i xs @ drop (Suc i) xs)"
    "map_of (take i xs @ drop (Suc i) xs) = (map_of xs)(fst (xs ! i) := None)"
proof -
  have xs: "take i xs @ xs ! i # drop (Suc i) xs = xs" using assms(2) by (rule nth_take_drop_cases)
  then have s: "sorted_keys (take i xs @ xs ! i # drop (Suc i) xs)" using assms(1) by simp
  then show "sorted_keys (take i xs @ drop (Suc i) xs)" unfolding sorted_keys_append by auto
  have "fst (xs ! i) \<notin> fst ` set (take i xs)" "fst (xs ! i) \<notin> fst ` set (drop (Suc i) xs)"
    using s unfolding sorted_keys_append by auto
  then have "map_of (take i xs) (fst (xs ! i)) = None" "map_of (drop (Suc i) xs) (fst (xs ! i)) = None"
    by (simp_all add: map_of_eq_None_iff)
  then have "map_of (take i xs @ drop (Suc i) xs)
      = (map_of (take i xs @ xs ! i # drop (Suc i) xs))(fst (xs ! i) := None)"
    by (cases "xs ! i") (simp add: fun_eq_iff map_add_def split: option.splits)
  with xs show "map_of (take i xs @ drop (Suc i) xs) = (map_of xs)(fst (xs ! i) := None)" by simp
qed

lemma remove_leaf_ok:
  assumes r: "bp_rep d b (Lf 0 kvs)" and ne: "kvs \<noteq> []"
  shows "\<exists>b' kws. remove (Suc fuel) k b = Inr b' \<and> bp_rep d b' (Lf 0 kws)
    \<and> map_of kws = (map_of kvs)(k := None)"
proof -
  let ?f = "bp_file b" and ?i = "pos_in (map fst kvs) k"
  let ?n = "?f ! 0"
  have h: "holds ?n (Lf 0 kvs)" "0 < length ?f" and kvs: "length kvs \<le> MAX_KEY" "sorted_keys kvs"
    and rt: "root b = 0"
    using r by (simp_all add: bp_rep_def)
  have rd: "read_node_from_file ?f 0 new_node = Inr ?n" using read_slot [OF h(2), of new_node] by simp
  have wr: "write_node_to_file ?f 0 n = Inr (?f[0 := n])" for n using write_slot [OF h(2), of n] by simp
  have n: "key_total ?n = length kvs" "is_leaf ?n" using h(1) by simp_all
  have sc: "scan (key ?n) (length kvs) k 0 = Inr ?i" using holds_scan [OF h(1), of k] kvs(1) n by simp
  have kg: "aget (key ?n) ?i = Inr (fst (kvs ! ?i))" if "?i < length kvs"
    using holds_key [OF h(1), of ?i] that kvs(1) by simp
  note hit = pos_in_hit [OF kvs(2) refl, of k]
  show ?thesis
  proof (cases "k \<in> fst ` set kvs")
    case True
    then have i: "?i < length kvs" "fst (kvs ! ?i) = k" using hit(1) by simp_all
    obtain n' where n': "case_G ?n ?i = Inr n'" "holds n' (Lf 0 (take ?i kvs @ drop (Suc ?i) kvs))"
      using case_G_ok [OF h(1) kvs(1) i(1)] by blast
    have "remove (Suc fuel) k b = Inr \<lparr>root = 0, bp_file = ?f[0 := n']\<rparr>"
      using rt rd n sc kg i n'(1) wr ne by (cases b) (simp add: remove_def)
    moreover have "bp_rep d \<lparr>root = 0, bp_file = ?f[0 := n']\<rparr> (Lf 0 (take ?i kvs @ drop (Suc ?i) kvs))"
      using n'(2) h(2) kvs sorted_keys_delete(1) [OF kvs(2) i(1)] unfolding bp_rep_def by simp
    ultimately show ?thesis using sorted_keys_delete(2) [OF kvs(2) i(1), unfolded i(2)] by blast
  next
    case False
    then have "\<not> (?i < length kvs \<and> fst (kvs ! ?i) = k)" using hit(1) by simp
    then have "remove (Suc fuel) k b = Inr b"
      using rt rd n sc kg ne by (cases "?i < length kvs") (simp_all add: remove_def)
    moreover have "(map_of kvs)(k := None) = map_of kvs"
      using False by (simp add: map_of_eq_None_iff fun_upd_idem)
    ultimately show ?thesis using r by metis
  qed
qed

subsection \<open>An empty tree\<close>

text \<open>The root without keys is overwritten by \<open>child_node\<close>, which a read at offset \<open>NIL\<close> left in its
  initial state, and the removal starts over on it.\<close>

lemma new_node_facts: "key_total new_node = 0" "pointer new_node ! 0 = NIL"
  by (simp_all add: new_node_def)

lemma remove_pos_loop:
  assumes "length f = 1" "n = f ! 0" "shaped n" "key_total n = 0" "pointer n ! 0 = NIL"
  shows "remove_pos fuel rt k 0 f = Inl OutOfFuel"
  using assms
proof (induction fuel arbitrary: f n)
  case (Suc fuel)
  have rd: "read_node_from_file f 0 new_node = Inr n"
    using read_slot [of 0 f new_node] Suc.prems(1,2) by simp
  have pn: "aget (pointer n) 0 = Inr NIL" using Suc.prems(3,5) by (simp add: shaped_def arr)
  have far: "read_node_from_file f NIL new_node = Inr new_node"
    using Suc.prems(1) by (simp add: read_node_from_file_def)
  have wr: "write_node_to_file f 0 new_node = Inr (f[0 := new_node])"
    using write_slot [of 0 f new_node] Suc.prems(1) by simp
  have "remove_pos fuel rt k 0 (f[0 := new_node]) = Inl OutOfFuel"
    using Suc.IH [of "f[0 := new_node]" new_node] Suc.prems(1) new_node_facts by simp
  then show ?case
    using rd pn far wr node_copy_shaped [OF shaped_new_node Suc.prems(3)] Suc.prems(4) by simp
qed simp

lemma empty_leaf_facts: "shaped empty_leaf" "key_total empty_leaf = 0" "pointer empty_leaf ! 0 = NIL"
  by (simp_all add: empty_leaf_def shaped_def new_node_def)

lemma remove_empty: "remove fuel k \<lparr>root = 0, bp_file = [empty_leaf]\<rparr> = Inl OutOfFuel"
  using remove_pos_loop [of "[empty_leaf]" empty_leaf] empty_leaf_facts by (simp add: remove_def)

end
