(* ===== verification/BpProps.thy ===== *)
theory BpProps
  imports BpRemoveCorrect
begin

text \<open>
  What the index of \<open>data_structure/bptree.cpp\<close> promises to its client, and where removal breaks the
  promise. A tree \<open>b\<close> that \<open>represents d b m\<close> has depth at most \<open>d\<close> and stores the finite map \<open>m\<close>.
\<close>

definition empty_tree :: Bp_tree where
  "empty_tree = \<lparr>root = 0, bp_file = [empty_leaf]\<rparr>"

text \<open>C1: \<open>insert\<close> refines the update of a finite map. It returns (no array access is out of bounds,
  no file access is misaligned, the recursion ends within \<open>d + 2\<close> calls), keeps the tree well formed,
  leaves a key that is present alone, and appends at most \<open>d + 3\<close> records to the file.\<close>

theorem insert_refines_map:
  assumes "represents d b m" "Suc d < fuel" "NODE_SIZE * (length (bp_file b) + d + 3) < 2 ^ 32"
  shows "\<exists>b'. bp_insert fuel kp b = Inr b' \<and>
    represents (Suc d) b' (case m (kp_key kp) of None \<Rightarrow> m(kp_key kp \<mapsto> kp_pointer kp) | Some _ \<Rightarrow> m) \<and>
    length (bp_file b') \<le> length (bp_file b) + d + 3"
  using bp_insert_represents [OF assms] by (simp add: put_new_def)

theorem insert_refines_map_witness:
  "\<exists>b'. bp_insert 2 \<lparr>kp_key = 7, kp_pointer = 70\<rparr> empty_tree = Inr b' \<and>
    represents 1 b' [7 \<mapsto> 70] \<and> length (bp_file b') \<le> 4"
  using insert_refines_map [of 0 empty_tree Map.empty 2 "\<lparr>kp_key = 7, kp_pointer = 70\<rparr>"]
    build_represents [of 0] by (simp add: empty_tree_def)

text \<open>C2: \<open>query\<close> is the lookup in the represented map; a key that is absent gives \<open>NIL\<close>.\<close>

theorem query_refines_map:
  assumes "represents d b m" "d < fuel"
  shows "query fuel k False b = Inr (case m k of None \<Rightarrow> NIL | Some p \<Rightarrow> p)"
  by (rule query_represents [OF assms])

theorem query_refines_map_witness: "query 1 7 False empty_tree = Inr NIL"
  using query_refines_map [of 0 empty_tree Map.empty 1 7] build_represents [of 0]
  by (simp add: empty_tree_def)

text \<open>C3: the filling loop of \<open>main\<close>, on a file that \<open>build\<close> has just initialised: after it every
  query answers the pointer of its key and \<open>NIL\<close> outside the range. \<open>main\<close> uses 500 keys; up to 9000
  the bound on the size of the file (32-bit offsets) is met.\<close>

theorem fill_then_query:
  assumes "n \<le> 9000" "n < fuel"
  shows "\<exists>b. bnd (build (open_tree [])) (insert_down fuel n) = Inr b \<and>
    (\<forall>k. query fuel k False b = Inr (if 0 \<le> k \<and> k < int n then nat k * 100 else NIL))"
proof -
  have "NODE_SIZE * grown 0 1 n \<le> NODE_SIZE * (1 + 9000 * 9003)"
    using grown_le [of 0 1 n] mult_le_mono [of n 9000 "n + 3" 9003] assms(1) by simp
  then obtain b where b: "insert_down fuel n \<lparr>root = 0, bp_file = [empty_leaf]\<rparr> = Inr b"
    "represents n b (fill_map n Map.empty)"
    using insert_down_represents [OF build_represents [of 0], of n fuel] assms(2) by auto
  have "query fuel k False b = Inr (if 0 \<le> k \<and> k < int n then nat k * 100 else NIL)" for k
    using query_represents [OF b(2) assms(2), of k] by (simp add: fill_map_apply)
  with b(1) show ?thesis by (simp add: build_empty)
qed

theorem fill_then_query_witness:
  "\<exists>b. bnd (build (open_tree [])) (insert_down 501 500) = Inr b \<and>
    query 501 499 False b = Inr 49900 \<and> query 501 500 False b = Inr NIL"
  using fill_then_query [of 500 501] by auto

text \<open>C4: \<open>split\<close> on the records of an inner node and of a full child \<open>c\<close> implements \<open>split_bt\<close>: with \<open>l\<close>, \<open>s\<close> and
  \<open>r\<close> the left half, separator and right half of \<open>c\<close> (the same entries or subtrees, the first three and the rest), the
  parent holds the separator and the two halves in the place of the child, the child's record holds \<open>l\<close>, and the record
  appended to the file holds \<open>r\<close>. A leaf is linked to its new right half, and that to the old right neighbour. The separator
  is the largest key of the left half.\<close>

theorem split_refines:
  assumes "holds p (Nd x (A @ c # B) (KA @ KB))" "holds n c" "wf_bt (Nd x (A @ c # B) (KA @ KB))"
    and "length KA + length KB < MAX_KEY" "nkeys c = MAX_KEY" "length A = length KA"
    and "NODE_SIZE * length f < 2 ^ 32" "split_bt (length f) c = (l, s, r)"
  shows "\<exists>p' n' r'. split p n (length A) f = Inr (p', n', f @ [r']) \<and>
    holds p' (Nd x (A @ l # r # B) (KA @ s # KB)) \<and> holds n' l \<and> holds r' r \<and>
    wf_bt l \<and> wf_bt r \<and> leaves l @ leaves r = leaves c \<and> sep_of l s \<and> root_ix l = root_ix c \<and> root_ix r = length f \<and>
    (is_leaf n \<longrightarrow> pointer n' ! MAX_KEY = NODE_SIZE * length f \<and> pointer r' ! MAX_KEY = pointer n ! MAX_KEY)"
proof -
  have "wf_bt c" using assms(3) by simp
  note ok = split_bt_ok [OF this assms(5,8)] and h = split_holds [OF assms(2) this assms(5,8)]
  have "length (pointer n) = Suc MAX_KEY"
    using holds_shaped [OF assms(2)] by (simp add: shaped_def)
  then have "pointer (left_half n R) ! MAX_KEY = R" "pointer (right_half n) ! MAX_KEY = pointer n ! MAX_KEY" if "is_leaf n" for R
    using that by (simp_all add: left_half_def right_half_def nth_append)
  then show ?thesis using split_nodes [OF assms(1-8)] h ok(1-4,7,8) by blast
qed

theorem split_refines_witness:
  "\<exists>p' n' r'. split \<lparr>key = [9, 0, 0, 0, 0], pointer = [52, 104, 0, 0, 0, 0], key_total = 1, is_leaf = False\<rparr>
      \<lparr>key = [1, 3, 5, 7, 9], pointer = [11, 33, 55, 77, 99, 104], key_total = 5, is_leaf = True\<rparr> 0
      [zero_node, zero_node, zero_node] = Inr (p', n', [zero_node, zero_node, zero_node] @ [r']) \<and>
    holds p' (Nd 0 [Lf 1 [(1, 11), (3, 33), (5, 55)], Lf 3 [(7, 77), (9, 99)], Lf 2 []] [5, 9]) \<and>
    holds n' (Lf 1 [(1, 11), (3, 33), (5, 55)]) \<and> holds r' (Lf 3 [(7, 77), (9, 99)]) \<and>
    pointer n' ! MAX_KEY = NODE_SIZE * 3 \<and> pointer r' ! MAX_KEY = 104"
proof -
  let ?c = "Lf 1 [(1, 11), (3, 33), (5, 55), (7, 77), (9, 99)]" and ?f = "[zero_node, zero_node, zero_node]"
  let ?l = "Lf 1 [(1, 11), (3, 33), (5, 55)]" and ?r = "Lf 3 [(7, 77), (9, 99)]"
  let ?p = "\<lparr>key = [9, 0, 0, 0, 0], pointer = [52, 104, 0, 0, 0, 0], key_total = 1, is_leaf = False\<rparr>"
  let ?n = "\<lparr>key = [1, 3, 5, 7, 9], pointer = [11, 33, 55, 77, 99, 104], key_total = 5, is_leaf = True\<rparr>"
  have "\<exists>p' n' r'. split ?p ?n (length ([] :: bt list)) ?f = Inr (p', n', ?f @ [r']) \<and>
    holds p' (Nd 0 ([] @ ?l # ?r # [Lf 2 []]) ([] @ 5 # [9])) \<and> holds n' ?l \<and> holds r' ?r \<and>
    wf_bt ?l \<and> wf_bt ?r \<and> leaves ?l @ leaves ?r = leaves ?c \<and> sep_of ?l 5 \<and> root_ix ?l = root_ix ?c \<and> root_ix ?r = length ?f \<and>
    (is_leaf ?n \<longrightarrow> pointer n' ! MAX_KEY = NODE_SIZE * length ?f \<and> pointer r' ! MAX_KEY = pointer ?n ! MAX_KEY)"
    by (rule split_refines [where c = ?c]) (simp_all add: shaped_def sep_of_def)
  then show ?thesis by auto
qed

text \<open>C5: \<open>remove\<close> on a tree that consists of a non-empty leaf deletes the key from the map.\<close>

theorem remove_from_leaf:
  assumes "bp_rep d b (Lf 0 kvs)" "kvs \<noteq> []" "0 < fuel"
  shows "\<exists>b'. remove fuel k b = Inr b' \<and> represents d b' ((map_of kvs)(k := None))"
proof -
  obtain g where "fuel = Suc g" using assms(3) by (cases fuel) auto
  then show ?thesis using remove_leaf_ok [OF assms(1,2), of g k] unfolding represents_def by (metis leaves.simps(1))
qed

theorem remove_from_leaf_witness:
  "\<exists>b'. remove 1 4 \<lparr>root = 0, bp_file = [\<lparr>key = [4, 6, 0, 0, 0], pointer = [40, 60, 0, 0, 0, 0],
      key_total = 2, is_leaf = True\<rparr>]\<rparr> = Inr b' \<and> represents 0 b' ((map_of [(4, 40), (6, 60)])(4 := None))"
  using remove_from_leaf [of 0 "\<lparr>root = 0, bp_file = [\<lparr>key = [4, 6, 0, 0, 0], pointer = [40, 60, 0, 0, 0, 0],
      key_total = 2, is_leaf = True\<rparr>]\<rparr>" "[(4, 40), (6, 60)]" 1 4]
  by (simp add: bp_rep_def shaped_def)

text \<open>\<open>remove\<close> on an empty tree never returns: whatever the bound on the recursion, it is used up.
  (The branch for a node without keys takes the empty root leaf for an inner node with one child.)\<close>

theorem remove_empty_diverges:
  "bnd (build (open_tree [])) (remove fuel k) = Inl OutOfFuel"
  unfolding build_empty bnd_Inr by (rule remove_empty)

text \<open>Removing can leave a key behind. The tree holds the keys 0 to 18; after \<open>remove(8)\<close> and
  \<open>remove(7)\<close> a query for 7 still finds its pointer. When the key is the separator of an inner child
  (case F) the code first overwrites the separator by the key's predecessor and then, if the child is
  short, moves that new separator down into it (K, L), so that the search for the key that is being
  removed turns right of the leaf that holds it.\<close>

fun insert_all :: "nat \<Rightarrow> int list \<Rightarrow> Bp_tree \<Rightarrow> Bp_tree result" where
  "insert_all fuel [] t = Inr t"
| "insert_all fuel (k # ks) t =
     bnd (bp_insert fuel \<lparr>kp_key = k, kp_pointer = nat k * 100\<rparr> t) (insert_all fuel ks)"

theorem remove_ghost_key:
  "bnd (insert_all 9 [0, 1, 2, 3, 4, 5, 6, 7, 8, 9, 10, 11, 12, 13, 14, 15, 16, 17, 18] empty_tree) (\<lambda>t.
   bnd (remove 9 8 t) (\<lambda>t.
   bnd (remove 9 7 t) (\<lambda>t.
     query 9 7 False t))) = Inr 700"
  by code_simp

end
