(* ===== verification/FifoSpec.thy ===== *)
theory FifoSpec
  imports Prelude
begin

text \<open>
  The contract of a first-in first-out buffer, as its clients use it: the task queue of the thread pool
  (a linked list on the heap) provides it.

  \<^item> \<open>rep s xs\<close>: the concrete buffer \<open>s\<close> holds the values \<open>xs\<close>, oldest first.
  \<^item> \<open>can x s\<close>: the request \<open>x\<close> may be put now (a fresh address; a free slot); \<open>val x\<close> is its value.
  \<^item> \<open>fifo_run\<close> performs a sequence of operations and collects what was taken out.
\<close>

datatype 'x fifo_op = Put 'x | Get

locale fifo_buffer =
  fixes rep :: "'s \<Rightarrow> 'a list \<Rightarrow> bool"
    and can :: "'x \<Rightarrow> 's \<Rightarrow> bool"
    and val :: "'x \<Rightarrow> 'a"
    and put :: "'x \<Rightarrow> 's \<Rightarrow> 's"
    and front :: "'s \<Rightarrow> 'a"
    and get :: "'s \<Rightarrow> 's"
  assumes put_rep: "rep s xs \<Longrightarrow> can x s \<Longrightarrow> rep (put x s) (xs @ [val x])"
    and front_rep: "rep s (y # ys) \<Longrightarrow> front s = y"
    and get_rep: "rep s (y # ys) \<Longrightarrow> rep (get s) ys"
begin

fun fifo_run :: "'x fifo_op list \<Rightarrow> 's \<Rightarrow> 's \<times> 'a list" where
  "fifo_run [] s = (s, [])"
| "fifo_run (Put x # os) s = fifo_run os (put x s)"
| "fifo_run (Get # os) s = (let (s', out) = fifo_run os (get s) in (s', front s # out))"

fun legal :: "'x fifo_op list \<Rightarrow> 's \<Rightarrow> nat \<Rightarrow> bool" where
  "legal [] s n = True"
| "legal (Put x # os) s n = (can x s \<and> legal os (put x s) (Suc n))"
| "legal (Get # os) s n = (0 < n \<and> legal os (get s) (n - 1))"

fun puts :: "'x fifo_op list \<Rightarrow> 'a list" where
  "puts [] = []"
| "puts (Put x # os) = val x # puts os"
| "puts (Get # os) = puts os"

text \<open>Whatever the interleaving of puts and gets: what came out, followed by what is still inside, is
  what was inside, followed by what was put.\<close>

lemma fifo_order:
  assumes "rep s xs" "legal os s (length xs)"
  shows "\<exists>ys. rep (fst (fifo_run os s)) ys \<and> snd (fifo_run os s) @ ys = xs @ puts os"
  using assms
proof (induction os arbitrary: s xs)
  case (Cons op os)
  show ?case
  proof (cases op)
    case (Put x)
    then have "\<exists>ys. rep (fst (fifo_run os (put x s))) ys
        \<and> snd (fifo_run os (put x s)) @ ys = (xs @ [val x]) @ puts os"
      using Cons.prems put_rep by (intro Cons.IH) auto
    then show ?thesis using Put by simp
  next
    case Get
    then obtain y ys where xs: "xs = y # ys" using Cons.prems(2) by (cases xs) auto
    have "\<exists>zs. rep (fst (fifo_run os (get s))) zs \<and> snd (fifo_run os (get s)) @ zs = ys @ puts os"
      using Cons.prems xs Get get_rep by (intro Cons.IH) auto
    then show ?thesis using Get xs front_rep Cons.prems(1) by (auto simp: case_prod_beta Let_def)
  qed
qed auto

end

end
