(* ===== verification/Threadpool.thy ===== *)
theory Threadpool
  imports FifoSpec
begin

text \<open>
  The thread pool of \<open>process/ipc/codes/threadpool\<close>.

  \<^item> \<open>task_t\<close> and \<open>threadpool_t\<close> are the structures of \<open>threadpool.h\<close>; the tasks live on a heap, addresses
    are natural numbers and \<open>NULL\<close> is 0. A task's \<open>run\<close> and \<open>arg\<close> pointers are opaque numbers.
  \<^item> \<open>enqueue\<close> and \<open>dequeue\<close> are the pointer code of \<open>threadpool_add_task\<close> and \<open>handle_thread\<close>; they
    implement the contract \<open>fifo_buffer\<close>.
  \<^item> \<open>worker_locked\<close>, \<open>worker_woken\<close> and \<open>worker_relocked\<close> are the critical sections of
    \<open>handle_thread\<close>: what a worker does from the moment it owns the mutex until it gives it up, which
    is by \<open>condition_unlock\<close> or inside \<open>condition_timedwait\<close>. \<open>add_task\<close> and \<open>destroy\<close> are those of the
    client. All shared accesses lie in critical sections (but for one read of \<open>quit\<close> in
    \<open>threadpool_destroy\<close>), so that threads interleave at the granularity of these definitions.
  \<^item> \<open>tp_step\<close> is the interleaving: any worker, the client, a timeout or a spurious wakeup.
\<close>

abbreviation NULL :: nat where
  "NULL \<equiv> 0"

record task_t =
  run :: nat
  arg :: nat
  next_task :: nat

record threadpool_t =
  heap :: "nat \<rightharpoonup> task_t"
  first :: nat
  last_task :: nat
  count :: int
  idle :: int
  max_threads :: int
  quit :: int

definition threadpool_init :: "int \<Rightarrow> threadpool_t" where
  "threadpool_init threads = \<lparr>heap = Map.empty, first = NULL, last_task = NULL, count = 0, idle = 0,
     max_threads = threads, quit = 0\<rparr>"

subsection \<open>The task queue\<close>

text \<open>A request: the address \<open>malloc\<close> returned, the function and its argument.\<close>

type_synonym task_req = "nat \<times> nat \<times> nat"

definition enqueue :: "task_req \<Rightarrow> threadpool_t \<Rightarrow> threadpool_t" where
  "enqueue req pool =
     (case req of (p_task, f, a) \<Rightarrow>
        let pool = pool\<lparr>heap := (heap pool)(p_task \<mapsto> \<lparr>run = f, arg = a, next_task = NULL\<rparr>)\<rparr>;
            pool = (if first pool = NULL then pool\<lparr>first := p_task\<rparr>
                    else pool\<lparr>heap := (heap pool)(last_task pool \<mapsto>
                           (the (heap pool (last_task pool)))\<lparr>next_task := p_task\<rparr>)\<rparr>)
        in pool\<lparr>last_task := p_task\<rparr>)"

definition dequeue :: "threadpool_t \<Rightarrow> threadpool_t" where
  "dequeue pool =
     (if first pool = last_task pool then pool\<lparr>first := NULL, last_task := NULL\<rparr>
      else pool\<lparr>first := next_task (the (heap pool (first pool)))\<rparr>)"

text \<open>The task at the head of the queue, as the worker that takes it sees it.\<close>

definition front_task :: "threadpool_t \<Rightarrow> task_req" where
  "front_task pool = (first pool, run (the (heap pool (first pool))), arg (the (heap pool (first pool))))"

subsection \<open>The threads\<close>

text \<open>Where a worker is when it does not own the mutex: before \<open>condition_lock\<close> at the top of the loop;
  in \<open>condition_timedwait\<close>; woken in there (by a signal, or with \<open>ETIMEDOUT\<close>) and before the mutex is
  his again; running a task; before the \<open>condition_lock\<close> behind it; returned. The flag is
  \<open>timeout_flag\<close>.\<close>

datatype worker = At_lock | Waiting | Woken bool | Running task_req bool | At_relock bool | Exited

datatype client = Adding | In_wait | Wait_over | Destroyed

record tp_state =
  tpool :: threadpool_t
  workers :: "worker list"
  main_thread :: client
  added :: "task_req list"
  started :: "task_req list"

text \<open>What a critical section does to the condition variable.\<close>

datatype wake = No_wake | Signal | Broadcast

text \<open>From the last check of the queue to the end of the loop body.\<close>

definition worker_tail :: "bool \<Rightarrow> threadpool_t \<Rightarrow> threadpool_t \<times> worker \<times> wake" where
  "worker_tail timeout_flag pool =
     (if quit pool = 1 \<and> first pool = NULL then
        let pool = pool\<lparr>count := count pool - 1\<rparr>
        in (pool, Exited, if count pool = 0 then Signal else No_wake)
      else if timeout_flag \<and> first pool = NULL then
        let pool = pool\<lparr>count := count pool - 1\<rparr>
        in (pool, Exited, if count pool = 0 then Signal else No_wake)
      else (pool, At_lock, No_wake))"

text \<open>From behind the waiting loop on.\<close>

definition worker_after_wait :: "bool \<Rightarrow> threadpool_t \<Rightarrow> threadpool_t \<times> worker \<times> wake" where
  "worker_after_wait timeout_flag pool =
     (let pool = pool\<lparr>idle := idle pool - 1\<rparr> in
      if first pool \<noteq> NULL
      then (dequeue pool, Running (front_task pool) timeout_flag, No_wake)
      else worker_tail timeout_flag pool)"

text \<open>The test of the waiting loop.\<close>

definition worker_wait_loop :: "threadpool_t \<Rightarrow> threadpool_t \<times> worker \<times> wake" where
  "worker_wait_loop pool =
     (if first pool = NULL \<and> quit pool = 0 then (pool, Waiting, No_wake)
      else worker_after_wait False pool)"

definition worker_locked :: "threadpool_t \<Rightarrow> threadpool_t \<times> worker \<times> wake" where
  "worker_locked pool = worker_wait_loop (pool\<lparr>idle := idle pool + 1\<rparr>)"

text \<open>\<open>condition_timedwait\<close> has returned, with \<open>ETIMEDOUT\<close> or without.\<close>

definition worker_woken :: "bool \<Rightarrow> threadpool_t \<Rightarrow> threadpool_t \<times> worker \<times> wake" where
  "worker_woken timed_out pool =
     (if timed_out then worker_after_wait True pool else worker_wait_loop pool)"

text \<open>The task is done and its structure freed; the mutex is locked again.\<close>

definition worker_relocked :: "bool \<Rightarrow> threadpool_t \<Rightarrow> threadpool_t \<times> worker \<times> wake" where
  "worker_relocked timeout_flag pool = worker_tail timeout_flag pool"

definition free_task :: "nat \<Rightarrow> threadpool_t \<Rightarrow> threadpool_t" where
  "free_task p pool = pool\<lparr>heap := (heap pool)(p := None)\<rparr>"

text \<open>\<open>threadpool_add_task\<close>: the result says whether a worker was created.\<close>

definition threadpool_add_task :: "task_req \<Rightarrow> threadpool_t \<Rightarrow> threadpool_t \<times> bool \<times> wake" where
  "threadpool_add_task req pool =
     (let pool = enqueue req pool in
      if idle pool > 0 then (pool, False, Signal)
      else if idle pool = 0 \<and> count pool < max_threads pool
      then (pool\<lparr>count := count pool + 1\<rparr>, True, No_wake)
      else (pool, False, No_wake))"

definition threadpool_destroy :: "threadpool_t \<Rightarrow> threadpool_t \<times> client \<times> wake" where
  "threadpool_destroy pool =
     (if quit pool = 1 then (pool, Destroyed, No_wake)
      else let pool = pool\<lparr>quit := 1\<rparr> in
        if count pool > 0
        then (if idle pool > 0 then (pool, Destroyed, Broadcast) else (pool, In_wait, No_wake))
        else (pool, Destroyed, No_wake))"

subsection \<open>Interleavings\<close>

text \<open>\<open>pthread_cond_signal\<close> wakes some thread that waits, if one does; \<open>pthread_cond_broadcast\<close> all.\<close>

inductive wakes :: "wake \<Rightarrow> tp_state \<Rightarrow> tp_state \<Rightarrow> bool" where
  no_wake: "wakes No_wake s s"
| signal_none: "Waiting \<notin> set (workers s) \<Longrightarrow> main_thread s \<noteq> In_wait \<Longrightarrow> wakes Signal s s"
| signal_worker: "i < length (workers s) \<Longrightarrow> workers s ! i = Waiting \<Longrightarrow>
    wakes Signal s (s\<lparr>workers := (workers s)[i := Woken False]\<rparr>)"
| signal_main: "main_thread s = In_wait \<Longrightarrow> wakes Signal s (s\<lparr>main_thread := Wait_over\<rparr>)"
| broadcast: "wakes Broadcast s (s\<lparr>
    workers := map (\<lambda>w. if w = Waiting then Woken False else w) (workers s),
    main_thread := (if main_thread s = In_wait then Wait_over else main_thread s)\<rparr>)"

inductive_cases wakes_No: "wakes No_wake s s'"
inductive_cases wakes_Signal: "wakes Signal s s'"
inductive_cases wakes_Broadcast: "wakes Broadcast s s'"

definition picked :: "worker \<Rightarrow> task_req list" where
  "picked w = (case w of Running t b \<Rightarrow> [t] | _ \<Rightarrow> [])"

text \<open>The state after a worker's critical section, before the wake-up it sends.\<close>

definition after_section :: "nat \<Rightarrow> threadpool_t \<Rightarrow> worker \<Rightarrow> tp_state \<Rightarrow> tp_state" where
  "after_section i p w s = s\<lparr>tpool := p, workers := (workers s)[i := w], started := started s @ picked w\<rparr>"

text \<open>\<open>spurious\<close> says whether \<open>pthread_cond_wait\<close> may return without a wake-up, as POSIX allows.\<close>

inductive tp_step :: "bool \<Rightarrow> tp_state \<Rightarrow> tp_state \<Rightarrow> bool" for spurious :: bool where
  lock: "i < length (workers s) \<Longrightarrow> workers s ! i = At_lock \<Longrightarrow> worker_locked (tpool s) = (p, w, wk) \<Longrightarrow>
    wakes wk (after_section i p w s) s' \<Longrightarrow> tp_step spurious s s'"
| wake: "i < length (workers s) \<Longrightarrow> workers s ! i = Woken b \<Longrightarrow> worker_woken b (tpool s) = (p, w, wk) \<Longrightarrow>
    wakes wk (after_section i p w s) s' \<Longrightarrow> tp_step spurious s s'"
| finish: "i < length (workers s) \<Longrightarrow> workers s ! i = Running t b \<Longrightarrow>
    tp_step spurious s (s\<lparr>tpool := free_task (fst t) (tpool s), workers := (workers s)[i := At_relock b]\<rparr>)"
| relock: "i < length (workers s) \<Longrightarrow> workers s ! i = At_relock b \<Longrightarrow>
    worker_relocked b (tpool s) = (p, w, wk) \<Longrightarrow>
    wakes wk (after_section i p w s) s' \<Longrightarrow> tp_step spurious s s'"
| timeout: "i < length (workers s) \<Longrightarrow> workers s ! i = Waiting \<Longrightarrow>
    tp_step spurious s (s\<lparr>workers := (workers s)[i := Woken b]\<rparr>)"
| add: "main_thread s = Adding \<Longrightarrow> fst req \<noteq> NULL \<Longrightarrow> heap (tpool s) (fst req) = None \<Longrightarrow>
    threadpool_add_task req (tpool s) = (p, spawned, wk) \<Longrightarrow>
    wakes wk (s\<lparr>tpool := p, workers := workers s @ (if spawned then [At_lock] else []),
      added := added s @ [req]\<rparr>) s' \<Longrightarrow> tp_step spurious s s'"
| destroy: "main_thread s = Adding \<Longrightarrow> threadpool_destroy (tpool s) = (p, m, wk) \<Longrightarrow>
    wakes wk (s\<lparr>tpool := p, main_thread := m\<rparr>) s' \<Longrightarrow> tp_step spurious s s'"
| main_spurious: "spurious \<Longrightarrow> main_thread s = In_wait \<Longrightarrow>
    tp_step spurious s (s\<lparr>main_thread := Wait_over\<rparr>)"
| main_return: "main_thread s = Wait_over \<Longrightarrow> tp_step spurious s (s\<lparr>main_thread := Destroyed\<rparr>)"

definition tp_start :: "int \<Rightarrow> tp_state" where
  "tp_start threads = \<lparr>tpool = threadpool_init threads, workers = [], main_thread = Adding,
     added = [], started = []\<rparr>"

subsection \<open>The linked list is a queue\<close>

fun chain :: "(nat \<rightharpoonup> task_t) \<Rightarrow> nat \<Rightarrow> task_req list \<Rightarrow> bool" where
  "chain h p [] = (p = NULL)"
| "chain h p ((a, f, x) # q) = (p = a \<and> a \<noteq> NULL \<and>
     (case h a of None \<Rightarrow> False | Some t \<Rightarrow> run t = f \<and> arg t = x \<and> chain h (next_task t) q))"

definition queue_rep :: "threadpool_t \<Rightarrow> task_req list \<Rightarrow> bool" where
  "queue_rep pool q \<longleftrightarrow> chain (heap pool) (first pool) q \<and> distinct (map fst q) \<and>
     (q \<noteq> [] \<longrightarrow> last_task pool = fst (last q))"

definition can_enqueue :: "task_req \<Rightarrow> threadpool_t \<Rightarrow> bool" where
  "can_enqueue req pool \<longleftrightarrow> fst req \<noteq> NULL \<and> heap pool (fst req) = None"

lemma chain_dom: "chain h p q \<Longrightarrow> fst ` set q \<subseteq> dom h"
  by (induction h p q rule: chain.induct) (auto split: option.splits)

lemma chain_frame:
  "chain h p q \<Longrightarrow> \<forall>a\<in>fst ` set q. h' a = h a \<Longrightarrow> chain h' p q"
  by (induction h p q rule: chain.induct) (auto split: option.splits)

lemma chain_first: "chain h p q \<Longrightarrow> p = NULL \<longleftrightarrow> q = []"
  by (cases "(h, p, q)" rule: chain.cases) (auto split: option.splits)

lemma chain_append:
  assumes "chain h p q" "q \<noteq> []" "distinct (map fst q)" "a \<noteq> NULL" "a \<notin> fst ` set q" "h a = Some t"
    "next_task t = NULL"
  shows "chain (h(fst (last q) \<mapsto> (the (h (fst (last q))))\<lparr>next_task := a\<rparr>)) p (q @ [(a, run t, arg t)])"
  using assms
proof (induction h p q rule: chain.induct)
  case (2 h p b f x q)
  then obtain u where u: "h b = Some u" "run u = f" "arg u = x" "chain h (next_task u) q"
    by (auto split: option.splits)
  show ?case
  proof (cases "q = []")
    case True
    with 2 u show ?thesis by auto
  next
    case False
    define h' where "h' = h(fst (last q) \<mapsto> (the (h (fst (last q))))\<lparr>next_task := a\<rparr>)"
    have "fst (last q) \<in> fst ` set q" using False by simp
    then have "fst (last q) \<noteq> b" using "2.prems"(3) by auto
    then have "h' b = Some u" using u(1) by (simp add: h'_def)
    moreover have "chain h' (next_task u) (q @ [(a, run t, arg t)])"
      unfolding h'_def using False u "2.prems" by (intro "2.IH" [OF u(1)]) auto
    ultimately have "chain h' p (((b, f, x) # q) @ [(a, run t, arg t)])" using u(2,3) "2.prems" by simp
    moreover have "last ((b, f, x) # q) = last q" using False by simp
    ultimately show ?thesis unfolding h'_def by (simp only:)
  qed
qed simp

lemma enqueue_rep:
  assumes "queue_rep pool q" "can_enqueue req pool"
  shows "queue_rep (enqueue req pool) (q @ [req])"
proof -
  obtain a f x where req: "req = (a, f, x)" by (cases req)
  let ?h = "(heap pool)(a \<mapsto> \<lparr>run = f, arg = x, next_task = NULL\<rparr>)"
  note r = assms(1) [unfolded queue_rep_def]
  have c: "chain (heap pool) (first pool) q" using r by blast
  then have sub: "fst ` set q \<subseteq> dom (heap pool)" by (rule chain_dom)
  have new: "a \<noteq> NULL" "heap pool a = None" using assms(2) req by (simp_all add: can_enqueue_def)
  then have fresh: "a \<notin> fst ` set q" using sub by blast
  have h: "chain ?h (first pool) q" by (rule chain_frame [OF c]) (metis fresh fun_upd_apply)
  have "chain (?h(fst (last q) \<mapsto> (the (?h (fst (last q))))\<lparr>next_task := a\<rparr>)) (first pool) (q @ [req])"
    if "q \<noteq> []"
  proof -
    have "chain (?h(fst (last q) \<mapsto> (the (?h (fst (last q))))\<lparr>next_task := a\<rparr>)) (first pool)
        (q @ [(a, run \<lparr>run = f, arg = x, next_task = NULL\<rparr>, arg \<lparr>run = f, arg = x, next_task = NULL\<rparr>)])"
      by (rule chain_append [OF h that _ new(1) fresh]) (use r in simp_all)
    then show ?thesis by (simp only: req task_t.simps)
  qed
  then have app: "q \<noteq> [] \<Longrightarrow> chain (heap (enqueue req pool)) (first (enqueue req pool)) (q @ [req])"
    using r req chain_first [of "heap pool" "first pool" q] by (simp add: enqueue_def Let_def)
  have one: "q = [] \<Longrightarrow> chain (heap (enqueue req pool)) (first (enqueue req pool)) [req]"
    using r req new chain_first [of "heap pool" "first pool" q] by (simp add: enqueue_def Let_def)
  have "last_task (enqueue req pool) = a" using req by (simp add: enqueue_def Let_def)
  then show ?thesis using app one r fresh req by (cases "q = []") (simp_all add: queue_rep_def)
qed

lemma front_task_rep: "queue_rep pool (t # q) \<Longrightarrow> front_task pool = t"
  by (cases t) (auto simp: queue_rep_def front_task_def split: option.splits)

lemma dequeue_rep:
  assumes "queue_rep pool (t # q)"
  shows "queue_rep (dequeue pool) q"
proof (cases q)
  case Nil
  with assms show ?thesis by (cases t) (auto simp: queue_rep_def dequeue_def)
next
  case (Cons u q')
  obtain a f x where t: "t = (a, f, x)" by (cases t)
  have "last_task pool = fst (last q)" "last q \<in> set q" "a \<notin> fst ` set q" "first pool = a"
    using assms Cons t by (auto simp: queue_rep_def)
  then have "first pool \<noteq> last_task pool" by auto
  with assms Cons t show ?thesis by (auto simp: queue_rep_def dequeue_def split: option.splits)
qed

text \<open>The pool's task list provides the contract of a first-in first-out buffer.\<close>

interpretation task_queue: fifo_buffer queue_rep can_enqueue "\<lambda>req. req" enqueue front_task dequeue
  by unfold_locales (auto intro: enqueue_rep front_task_rep dequeue_rep)

end
