(* ===== verification/ThreadpoolCorrect.thy ===== *)
theory ThreadpoolCorrect
  imports Threadpool
begin

text \<open>
  Correctness of the thread pool (\<open>process/ipc/codes/threadpool\<close>).

  \<^item> \<open>section_ok\<close>: the effect of any critical section of a worker on the counters and on the queue.
  \<^item> \<open>tp_inv\<close>: the invariant of the interleavings. Tasks are started in the order they were added and
    each once; the counters count; while a task is queued some worker is on its way to it; after
    \<open>quit\<close> no worker waits.
\<close>

fun alive :: "worker \<Rightarrow> bool" where
  "alive Exited = False"
| "alive _ = True"

fun parked :: "worker \<Rightarrow> bool" where
  "parked Waiting = True"
| "parked (Woken b) = True"
| "parked _ = False"

fun active :: "worker \<Rightarrow> bool" where
  "active Waiting = False"
| "active Exited = False"
| "active _ = True"

definition num :: "(worker \<Rightarrow> bool) \<Rightarrow> worker list \<Rightarrow> int" where
  "num P ws = int (length (filter P ws))"

lemma num_update:
  "i < length ws \<Longrightarrow> num P (ws[i := w]) = num P ws - (if P (ws ! i) then 1 else 0) + (if P w then 1 else 0)"
  unfolding num_def
proof (induction ws arbitrary: i)
  case (Cons a ws)
  show ?case
  proof (cases i)
    case (Suc j)
    then show ?thesis using Cons.IH [of j] Cons.prems by (cases "P (ws ! j)"; cases "P w") simp_all
  qed simp
qed simp

lemma num_append [simp]: "num P (ws @ vs) = num P ws + num P vs"
  by (simp add: num_def)

lemma num_Nil [simp]: "num P [] = 0"
  by (simp add: num_def)

lemma num_Cons [simp]: "num P (w # ws) = (if P w then 1 else 0) + num P ws"
  by (simp add: num_def)

lemma num_nonneg: "0 \<le> num P ws"
  by (simp add: num_def)

lemma num_0: "num P ws = 0 \<longleftrightarrow> (\<forall>w\<in>set ws. \<not> P w)"
  by (auto simp: num_def filter_empty_conv)

lemma num_map: "(\<And>w. P (g w) = P w) \<Longrightarrow> num P (map g ws) = num P ws"
  by (induction ws) auto

subsection \<open>One critical section of a worker\<close>

definition section_ok :: "worker \<Rightarrow> threadpool_t \<Rightarrow> task_req list \<Rightarrow> threadpool_t \<times> worker \<times> wake \<Rightarrow> bool" where
  "section_ok w pool q res \<longleftrightarrow> (case res of (p', w', wk) \<Rightarrow>
     (\<exists>q'. queue_rep p' q' \<and> q = picked w' @ q') \<and> heap p' = heap pool \<and> quit p' = quit pool \<and>
     max_threads p' = max_threads pool \<and> (\<forall>b. w' \<noteq> Woken b) \<and>
     count p' = count pool - (if w' = Exited then 1 else 0) \<and>
     idle p' = idle pool - (if parked w then 1 else 0) + (if parked w' then 1 else 0) \<and>
     (w' = Waiting \<longrightarrow> q = [] \<and> quit pool = 0) \<and> (w' = Exited \<longrightarrow> q = []) \<and>
     wk = (if w' = Exited \<and> count p' = 0 then Signal else No_wake))"

lemma queue_rep_first: "queue_rep pool q \<Longrightarrow> first pool = NULL \<longleftrightarrow> q = []"
  using chain_first unfolding queue_rep_def by blast

lemma queue_rep_cong:
  "heap p = heap pool \<Longrightarrow> first p = first pool \<Longrightarrow> last_task p = last_task pool \<Longrightarrow> queue_rep p q = queue_rep pool q"
  by (simp add: queue_rep_def)

lemma dequeue_fields [simp]:
  "heap (dequeue pool) = heap pool" "quit (dequeue pool) = quit pool" "idle (dequeue pool) = idle pool"
  "count (dequeue pool) = count pool" "max_threads (dequeue pool) = max_threads pool"
  by (simp_all add: dequeue_def)

lemma enqueue_fields [simp]:
  "quit (enqueue r pool) = quit pool" "idle (enqueue r pool) = idle pool"
  "count (enqueue r pool) = count pool" "max_threads (enqueue r pool) = max_threads pool"
  by (simp_all add: enqueue_def Let_def split: prod.splits)

lemma worker_tail_ok:
  assumes "queue_rep pool q" "\<not> parked w"
  shows "section_ok w pool q (worker_tail b pool)"
  using assms queue_rep_first [OF assms(1)]
    queue_rep_cong [of "pool\<lparr>count := count pool - 1\<rparr>" pool q]
  by (auto simp: worker_tail_def section_ok_def picked_def Let_def)

lemma worker_after_wait_ok:
  assumes "queue_rep pool q" "parked w"
  shows "section_ok w pool q (worker_after_wait b pool)"
proof -
  let ?p = "pool\<lparr>idle := idle pool - 1\<rparr>"
  have rep: "queue_rep ?p q" using assms(1) queue_rep_cong [of ?p pool q] by simp
  show ?thesis
  proof (cases q)
    case Nil
    have "section_ok At_lock ?p q (worker_tail b ?p)" using worker_tail_ok [OF rep, of At_lock b] by simp
    then show ?thesis
      using Nil queue_rep_first [OF rep] assms(2)
      by (auto simp: worker_after_wait_def section_ok_def Let_def)
  next
    case (Cons t q')
    have "queue_rep (dequeue ?p) q'" "front_task ?p = t"
      using rep dequeue_rep front_task_rep unfolding Cons by blast+
    then show ?thesis
      using Cons queue_rep_first [OF rep] assms(2)
      by (auto simp: worker_after_wait_def section_ok_def Let_def picked_def)
  qed
qed

lemma worker_wait_loop_ok:
  assumes "queue_rep pool q" "parked w" "quit pool = 0 \<or> quit pool = 1"
  shows "section_ok w pool q (worker_wait_loop pool)"
  using worker_after_wait_ok [OF assms(1,2), of False] queue_rep_first [OF assms(1)] assms
  by (auto simp: worker_wait_loop_def section_ok_def picked_def)

lemma worker_locked_ok:
  assumes "queue_rep pool q" "quit pool = 0 \<or> quit pool = 1"
  shows "section_ok At_lock pool q (worker_locked pool)"
proof -
  let ?p = "pool\<lparr>idle := idle pool + 1\<rparr>"
  have "queue_rep ?p q" using assms(1) queue_rep_cong [of ?p pool q] by simp
  then have "section_ok Waiting ?p q (worker_wait_loop ?p)"
    using worker_wait_loop_ok [of ?p q Waiting] assms(2) by simp
  then show ?thesis by (simp add: section_ok_def worker_locked_def split: prod.splits)
qed

lemma worker_woken_ok:
  assumes "queue_rep pool q" "quit pool = 0 \<or> quit pool = 1"
  shows "section_ok (Woken b) pool q (worker_woken b pool)"
  using worker_after_wait_ok [OF assms(1), of "Woken b" True]
    worker_wait_loop_ok [OF assms(1), of "Woken b"] assms(2)
  by (cases b) (simp_all add: worker_woken_def)

lemma worker_relocked_ok:
  "queue_rep pool q \<Longrightarrow> section_ok (At_relock b) pool q (worker_relocked b pool)"
  using worker_tail_ok by (simp add: worker_relocked_def)

lemmas sections_ok = worker_locked_ok worker_woken_ok worker_relocked_ok

subsection \<open>The invariant\<close>

text \<open>The structure of a running task is allocated, no longer queued, and nobody else's.\<close>

definition run_ok :: "worker list \<Rightarrow> (nat \<rightharpoonup> task_t) \<Rightarrow> task_req list \<Rightarrow> bool" where
  "run_ok ws h q \<longleftrightarrow> (\<forall>i<length ws. \<forall>t b. ws ! i = Running t b \<longrightarrow>
     fst t \<notin> fst ` set q \<and> h (fst t) \<noteq> None \<and>
     (\<forall>j<length ws. \<forall>u c. j \<noteq> i \<longrightarrow> ws ! j = Running u c \<longrightarrow> fst u \<noteq> fst t))"

lemma run_okD:
  "run_ok ws h q \<Longrightarrow> i < length ws \<Longrightarrow> ws ! i = Running t b \<Longrightarrow> fst t \<notin> fst ` set q \<and> h (fst t) \<noteq> None"
  "run_ok ws h q \<Longrightarrow> i < length ws \<Longrightarrow> ws ! i = Running t b \<Longrightarrow> j < length ws \<Longrightarrow> ws ! j = Running u c \<Longrightarrow>
    j \<noteq> i \<Longrightarrow> fst u \<noteq> fst t"
  unfolding run_ok_def by blast+

lemma run_ok_update:
  assumes "run_ok ws h q" "i < length ws" "set q' \<subseteq> set q"
    and new: "\<And>t b. w' = Running t b \<Longrightarrow> fst t \<notin> fst ` set q' \<and> h (fst t) \<noteq> None \<and> fst t \<in> fst ` set q"
  shows "run_ok (ws[i := w']) h q'"
  unfolding run_ok_def
proof (intro allI impI)
  fix k t b assume k: "k < length (ws[i := w'])" "ws[i := w'] ! k = Running t b"
  show "fst t \<notin> fst ` set q' \<and> h (fst t) \<noteq> None \<and>
    (\<forall>j<length (ws[i := w']). \<forall>u c. j \<noteq> k \<longrightarrow> ws[i := w'] ! j = Running u c \<longrightarrow> fst u \<noteq> fst t)"
  proof (cases "k = i")
    case True
    then have w': "w' = Running t b" using k assms(2) by simp
    have "fst u \<noteq> fst t" if "j < length ws" "j \<noteq> i" "ws ! j = Running u c" for j u c
      using run_okD(1) [OF assms(1) that(1,3)] new [OF w'] by metis
    then show ?thesis using new [OF w'] True by auto
  next
    case False
    then have k': "k < length ws" "ws ! k = Running t b" using k by auto
    have a: "fst t \<notin> fst ` set q" "h (fst t) \<noteq> None" using run_okD(1) [OF assms(1) k'] by auto
    have "fst u \<noteq> fst t" if "j < length ws" "j \<noteq> k" "ws[i := w'] ! j = Running u c" for j u c
    proof (cases "j = i")
      case True
      then have "w' = Running u c" using that assms(2) by simp
      then show ?thesis using new a(1) by metis
    next
      case False
      then show ?thesis using run_okD(2) [OF assms(1) k'] that by auto
    qed
    then show ?thesis using a assms(3) by auto
  qed
qed

definition queue_inv :: "tp_state \<Rightarrow> task_req list \<Rightarrow> bool" where
  "queue_inv s q \<longleftrightarrow> queue_rep (tpool s) q \<and> added s = started s @ q \<and>
     run_ok (workers s) (heap (tpool s)) q \<and> (q \<noteq> [] \<longrightarrow> (\<exists>w\<in>set (workers s). active w))"

definition count_inv :: "tp_state \<Rightarrow> bool" where
  "count_inv s \<longleftrightarrow> count (tpool s) = num alive (workers s) \<and> idle (tpool s) = num parked (workers s) \<and>
     count (tpool s) \<le> max_threads (tpool s) \<and> 0 < max_threads (tpool s)"

definition quit_inv :: "bool \<Rightarrow> tp_state \<Rightarrow> bool" where
  "quit_inv spurious s \<longleftrightarrow> (if main_thread s = Adding then quit (tpool s) = 0 else quit (tpool s) = 1) \<and>
     (quit (tpool s) = 1 \<longrightarrow> Waiting \<notin> set (workers s)) \<and>
     (main_thread s = In_wait \<longrightarrow> 0 < count (tpool s)) \<and>
     (main_thread s = Wait_over \<and> \<not> spurious \<longrightarrow> count (tpool s) = 0)"

definition tp_inv :: "bool \<Rightarrow> tp_state \<Rightarrow> bool" where
  "tp_inv spurious s \<longleftrightarrow> (\<exists>q. queue_inv s q) \<and> count_inv s \<and> quit_inv spurious s"

lemma tp_inv_start: "0 < threads \<Longrightarrow> tp_inv sp (tp_start threads)"
  by (auto simp: tp_inv_def queue_inv_def count_inv_def quit_inv_def tp_start_def threadpool_init_def
      queue_rep_def run_ok_def)

lemma set_update_iff: "i < length xs \<Longrightarrow> x \<in> set (xs[i := y]) \<longleftrightarrow> x = y \<or> (\<exists>j<length xs. j \<noteq> i \<and> xs ! j = x)"
  by (auto simp: in_set_conv_nth nth_list_update)

lemma signal_no_waiter:
  assumes "wakes Signal s s'" "Waiting \<notin> set (workers s)"
  shows "s' = (if main_thread s = In_wait then s\<lparr>main_thread := Wait_over\<rparr> else s)"
  using assms by (elim wakes_Signal) (auto dest: nth_mem)

text \<open>A worker that is woken: no counter moves, and it is active from then on.\<close>

lemma tp_inv_woken:
  assumes "tp_inv sp s" "i < length (workers s)" "workers s ! i = Waiting"
  shows "tp_inv sp (s\<lparr>workers := (workers s)[i := Woken b]\<rparr>)"
proof -
  obtain q where q: "queue_inv s q" using assms(1) by (auto simp: tp_inv_def)
  have "run_ok ((workers s)[i := Woken b]) (heap (tpool s)) q"
    using q assms(2) by (auto simp: queue_inv_def run_ok_def nth_list_update)
  then have "queue_inv (s\<lparr>workers := (workers s)[i := Woken b]\<rparr>) q"
    using q assms(2) by (auto simp: queue_inv_def intro!: bexI [of _ "Woken b"] set_update_memI)
  moreover have "Waiting \<in> set (workers s)" using assms(2,3) by (metis nth_mem)
  ultimately show ?thesis
    using assms num_update [OF assms(2), of _ "Woken b"]
    by (auto simp: tp_inv_def count_inv_def quit_inv_def)
qed

text \<open>The state after a worker's section, before its wake-up: only the clause on \<open>In_wait\<close> may fail.\<close>

lemma tp_inv_section:
  assumes inv: "tp_inv sp s" and i: "i < length (workers s)" and w: "\<not> (\<exists>t b. workers s ! i = Running t b)"
    and act: "active (workers s ! i)"
    and sec: "\<And>q. queue_rep (tpool s) q \<Longrightarrow> quit (tpool s) = 0 \<or> quit (tpool s) = 1 \<Longrightarrow>
      section_ok (workers s ! i) (tpool s) q (p, w', wk)"
    and wk: "wakes wk (after_section i p w' s) s'"
  shows "tp_inv sp s'"
proof -
  let ?ws = "workers s" and ?m = "after_section i p w' s"
  obtain q where q: "queue_inv s q" and cnt: "count_inv s" and qt: "quit_inv sp s"
    using inv by (auto simp: tp_inv_def)
  have quit01: "quit (tpool s) = 0 \<or> quit (tpool s) = 1" using qt by (auto simp: quit_inv_def split: if_splits)
  note so = sec [OF _ quit01, of q, unfolded section_ok_def prod.case]
  obtain q' where q': "queue_rep p q'" "q = picked w' @ q'" using so q by (auto simp: queue_inv_def)
  have f: "heap p = heap (tpool s)" "quit p = quit (tpool s)" "max_threads p = max_threads (tpool s)"
    "count p = count (tpool s) - (if w' = Exited then 1 else 0)"
    "idle p = idle (tpool s) - (if parked (?ws ! i) then 1 else 0) + (if parked w' then 1 else 0)"
    "w' = Waiting \<Longrightarrow> q = [] \<and> quit (tpool s) = 0" "w' = Exited \<Longrightarrow> q = []"
    "wk = (if w' = Exited \<and> count p = 0 then Signal else No_wake)"
    using so q by (simp_all add: queue_inv_def)
  have al: "alive (?ws ! i)" using act by (cases "?ws ! i") auto
  have cnt': "count_inv ?m"
    using cnt f(3,4,5) al num_update [OF i, of alive w'] num_update [OF i, of parked w']
    by (cases w') (auto simp: count_inv_def after_section_def)
  have "run_ok (?ws[i := w']) (heap p) q'"
  proof -
    have "fst t \<notin> fst ` set q' \<and> heap (tpool s) (fst t) \<noteq> None \<and> fst t \<in> fst ` set q" if "w' = Running t b" for t b
    proof -
      have "queue_rep (tpool s) q" using q by (simp add: queue_inv_def)
      then have "distinct (map fst q)" "fst ` set q \<subseteq> dom (heap (tpool s))"
        using chain_dom unfolding queue_rep_def by blast+
      then show ?thesis using q'(2) that by (auto simp: picked_def)
    qed
    moreover have "set q' \<subseteq> set q" using q'(2) by auto
    moreover have "run_ok ?ws (heap (tpool s)) q" using q by (simp add: queue_inv_def)
    ultimately show ?thesis unfolding f(1) using run_ok_update [OF _ i] by blast
  qed
  moreover have "\<exists>w\<in>set (?ws[i := w']). active w" if "q' \<noteq> []"
  proof -
    have "active w'" using that q'(2) f(6,7) so q by (cases w') (auto simp: queue_inv_def)
    then show ?thesis using i set_update_memI by metis
  qed
  ultimately have qi: "queue_inv ?m q'"
    using q q' by (auto simp: queue_inv_def after_section_def)
  have nw: "Waiting \<notin> set (?ws[i := w'])" if "quit p = 1"
  proof -
    have "Waiting \<notin> set ?ws" "w' \<noteq> Waiting" using qt that f(2,6) by (auto simp: quit_inv_def)
    then show ?thesis using set_update_subset_insert [of ?ws i w'] by auto
  qed
  have c0: "0 \<le> count p" using cnt' num_nonneg [of alive "workers ?m"] by (simp add: count_inv_def after_section_def)
  have c1: "0 < count (tpool s)"
    using cnt num_0 [of alive ?ws] num_nonneg [of alive ?ws] al i by (auto simp: count_inv_def less_le)
  show ?thesis
  proof (cases "w' = Exited \<and> count p = 0")
    case True
    then have "wk = Signal" using f(8) by simp
    moreover have "Waiting \<notin> set (workers ?m)"
    proof -
      have "num alive (workers ?m) = 0" using cnt' True by (simp add: count_inv_def after_section_def)
      then show ?thesis using num_0 [of alive "workers ?m"] by auto
    qed
    ultimately have s': "s' = (if main_thread ?m = In_wait then ?m\<lparr>main_thread := Wait_over\<rparr> else ?m)"
      using wk signal_no_waiter by metis
    have "queue_inv s' q'" "count_inv s'"
      using qi cnt' unfolding s' by (simp_all add: queue_inv_def count_inv_def)
    moreover have "quit_inv sp s'"
      using qt nw True f(2) unfolding s' by (auto simp: quit_inv_def after_section_def)
    ultimately show ?thesis unfolding tp_inv_def by blast
  next
    case False
    then have "s' = ?m" using wk f(8) by (auto elim: wakes_No)
    moreover have "quit_inv sp ?m"
      using qt nw False c0 c1 f(2,4) by (auto simp: quit_inv_def after_section_def split: if_splits)
    ultimately show ?thesis using qi cnt' unfolding tp_inv_def by blast
  qed
qed

subsection \<open>Every step keeps the invariant\<close>

lemma tp_inv_finish:
  assumes inv: "tp_inv sp s" and i: "i < length (workers s)" "workers s ! i = Running t b"
  shows "tp_inv sp (s\<lparr>tpool := free_task (fst t) (tpool s), workers := (workers s)[i := At_relock b]\<rparr>)"
proof -
  let ?ws = "workers s" and ?h = "(heap (tpool s))(fst t := None)"
  obtain q where q: "queue_inv s q" and cnt: "count_inv s" and qt: "quit_inv sp s"
    using inv by (auto simp: tp_inv_def)
  have r: "run_ok ?ws (heap (tpool s)) q" and rep: "queue_rep (tpool s) q"
    using q by (simp_all add: queue_inv_def)
  note t = run_okD [OF r i]
  have "chain ?h (first (tpool s)) q"
    using rep t(1) unfolding queue_rep_def by (metis chain_frame fun_upd_apply)
  then have "queue_rep (free_task (fst t) (tpool s)) q"
    using rep by (simp add: queue_rep_def free_task_def)
  moreover have "run_ok (?ws[i := At_relock b]) ?h q"
    unfolding run_ok_def
  proof (intro allI impI)
    fix k u c assume k: "k < length (?ws[i := At_relock b])" "?ws[i := At_relock b] ! k = Running u c"
    then have ki: "k \<noteq> i" "k < length ?ws" "?ws ! k = Running u c"
      using i(1) by (auto simp: nth_list_update split: if_splits)
    have "fst u \<noteq> fst t" using t(2) [OF ki(2,3,1)] .
    moreover have "fst v \<noteq> fst u"
      if "j < length ?ws" "j \<noteq> k" "?ws[i := At_relock b] ! j = Running v d" for j v d
      using run_okD(2) [OF r ki(2,3) that(1) _ that(2), of v d] that(3) i(1)
      by (cases "j = i") simp_all
    ultimately show "fst u \<notin> fst ` set q \<and> ?h (fst u) \<noteq> None \<and>
      (\<forall>j<length (?ws[i := At_relock b]). \<forall>v c. j \<noteq> k \<longrightarrow> ?ws[i := At_relock b] ! j = Running v c \<longrightarrow> fst v \<noteq> fst u)"
      using run_okD(1) [OF r ki(2,3)] by simp
  qed
  ultimately have "queue_inv (s\<lparr>tpool := free_task (fst t) (tpool s), workers := ?ws[i := At_relock b]\<rparr>) q"
    using q i(1) set_update_memI [of i ?ws "At_relock b"]
    by (auto simp: queue_inv_def free_task_def intro!: bexI [of _ "At_relock b"])
  moreover have "quit_inv sp (s\<lparr>tpool := free_task (fst t) (tpool s), workers := ?ws[i := At_relock b]\<rparr>)"
    using qt set_update_subset_insert [of ?ws i "At_relock b"] by (auto simp: quit_inv_def free_task_def)
  ultimately show ?thesis
    using cnt num_update [OF i(1), of _ "At_relock b"] i(2)
    by (auto simp: tp_inv_def count_inv_def free_task_def)
qed

lemma active_exists:
  "0 < num parked ws \<Longrightarrow> Waiting \<notin> set ws \<Longrightarrow> \<exists>w\<in>set ws. active w"
  "num parked ws = 0 \<Longrightarrow> 0 < num alive ws \<Longrightarrow> \<exists>w\<in>set ws. active w"
proof -
  assume "0 < num parked ws" "Waiting \<notin> set ws"
  then obtain w where "w \<in> set ws" "parked w" "w \<noteq> Waiting" using num_0 [of parked ws] by force
  then show "\<exists>w\<in>set ws. active w" by (intro bexI [of _ w]) (cases w; simp)
next
  assume "num parked ws = 0" "0 < num alive ws"
  then obtain w where "w \<in> set ws" "alive w" "\<not> parked w"
    using num_0 [of alive ws] num_0 [of parked ws] by force
  then show "\<exists>w\<in>set ws. active w" by (intro bexI [of _ w]) (cases w; simp)
qed

lemma run_ok_add:
  assumes "run_ok ws h q" "h (fst req) = None" "\<And>a. a \<in> dom h \<Longrightarrow> h' a \<noteq> None"
    and "vs = [] \<or> vs = [At_lock]"
  shows "run_ok (ws @ vs) h' (q @ [req])"
  unfolding run_ok_def
proof (intro allI impI)
  fix k u c assume k: "k < length (ws @ vs)" "(ws @ vs) ! k = Running u c"
  then have k': "k < length ws" "ws ! k = Running u c"
    using assms(4) by (auto simp: nth_append less_Suc_eq split: if_splits)
  note r = run_okD [OF assms(1) k']
  have "fst u \<noteq> fst req" using r(1) assms(2) by metis
  moreover have "fst v \<noteq> fst u" if "j < length (ws @ vs)" "j \<noteq> k" "(ws @ vs) ! j = Running v d" for j v d
    using r(2) [of j v d] that assms(4) by (auto simp: nth_append less_Suc_eq split: if_splits)
  ultimately show "fst u \<notin> fst ` set (q @ [req]) \<and> h' (fst u) \<noteq> None \<and>
    (\<forall>j<length (ws @ vs). \<forall>v c. j \<noteq> k \<longrightarrow> (ws @ vs) ! j = Running v c \<longrightarrow> fst v \<noteq> fst u)"
    using r(1) assms(3) [of "fst u"] by auto
qed

lemma enqueue_heap: "a \<in> dom (heap pool) \<Longrightarrow> heap (enqueue req pool) a \<noteq> None"
  by (cases req) (auto simp: enqueue_def Let_def)

lemma tp_inv_add:
  assumes inv: "tp_inv sp s" and m: "main_thread s = Adding" and req: "can_enqueue req (tpool s)"
    and add: "threadpool_add_task req (tpool s) = (p, spawned, wk)"
    and wk: "wakes wk (s\<lparr>tpool := p, workers := workers s @ (if spawned then [At_lock] else []),
      added := added s @ [req]\<rparr>) s'" (is "wakes wk ?m s'")
  shows "tp_inv sp s'"
proof -
  let ?ws = "workers s" and ?e = "enqueue req (tpool s)"
  let ?vs = "if spawned then [At_lock] else []"
  obtain q where q: "queue_inv s q" and cnt: "count_inv s" and qt: "quit_inv sp s"
    using inv by (auto simp: tp_inv_def)
  have np: "0 \<le> idle (tpool s)" using cnt num_nonneg by (simp add: count_inv_def)
  consider (sig) "0 < idle (tpool s)" "p = ?e" "\<not> spawned" "wk = Signal"
    | (new) "idle (tpool s) = 0" "count (tpool s) < max_threads (tpool s)" "p = ?e\<lparr>count := count ?e + 1\<rparr>" "spawned"
        "wk = No_wake"
    | (busy) "idle (tpool s) = 0" "count (tpool s) = max_threads (tpool s)" "p = ?e" "\<not> spawned" "wk = No_wake"
    using add np cnt by (auto simp: threadpool_add_task_def Let_def count_inv_def split: if_splits)
  note cases = this
  have hp: "heap p = heap ?e" "quit p = quit (tpool s)" "first p = first ?e" "last_task p = last_task ?e"
    by (rule cases; simp)+
  have "queue_rep ?e (q @ [req])" using q req enqueue_rep by (simp add: queue_inv_def)
  then have rep: "queue_rep p (q @ [req])" using queue_rep_cong [of p ?e] hp by simp
  have run: "run_ok (?ws @ ?vs) (heap p) (q @ [req])"
    by (rule run_ok_add [of _ "heap (tpool s)"])
      (use q req enqueue_heap hp in \<open>auto simp: queue_inv_def can_enqueue_def\<close>)
  have cnt': "count_inv ?m"
    by (rule cases) (use cnt in \<open>auto simp: count_inv_def\<close>)
  have qt': "quit_inv sp ?m" using qt m hp(2) by (auto simp: quit_inv_def)
  have mid: "queue_inv ?m (q @ [req])" if "\<exists>w\<in>set (?ws @ ?vs). active w"
    using q rep run that by (auto simp: queue_inv_def)
  have mid': "tp_inv sp ?m" if "\<exists>w\<in>set (?ws @ ?vs). active w"
    using mid [OF that] cnt' qt' by (auto simp: tp_inv_def)
  show ?thesis
  proof (rule cases)
    assume "spawned" "wk = No_wake"
    then show ?thesis using wk mid' by (auto elim: wakes_No)
  next
    assume a: "idle (tpool s) = 0" "count (tpool s) = max_threads (tpool s)" "\<not> spawned" "wk = No_wake"
    then have "\<exists>w\<in>set ?ws. active w" using active_exists(2) [of ?ws] cnt by (simp add: count_inv_def)
    then show ?thesis using a wk mid' by (auto elim: wakes_No)
  next
    assume a: "0 < idle (tpool s)" "\<not> spawned" "wk = Signal"
    have "wakes Signal ?m s'" using wk a(3) by simp
    then show ?thesis
    proof (cases rule: wakes_Signal)
      assume "Waiting \<notin> set (workers ?m)" "s' = ?m"
      moreover have "0 < num parked ?ws" using a cnt by (simp add: count_inv_def)
      ultimately show ?thesis using active_exists(1) [of ?ws] a(2) mid' by auto
    next
      fix i assume i: "s' = ?m\<lparr>workers := (workers ?m)[i := Woken False]\<rparr>" "i < length (workers ?m)"
        "workers ?m ! i = Waiting"
      then have w: "?ws ! i = Waiting" "i < length ?ws" using a(2) by simp_all
      have "run_ok (?ws[i := Woken False]) (heap p) (q @ [req])"
        using run a(2) w(2) by (auto simp: run_ok_def nth_list_update)
      then have "queue_inv s' (q @ [req])"
        using q rep w(2) a(2) set_update_memI [OF w(2), of "Woken False"] unfolding i(1)
        by (auto simp: queue_inv_def intro!: bexI [of _ "Woken False"])
      moreover have "count_inv s'" "quit_inv sp s'"
        using cnt' qt' m a(2) w num_update [OF w(2), of _ "Woken False"] unfolding i(1)
        by (auto simp: count_inv_def quit_inv_def)
      ultimately show ?thesis by (auto simp: tp_inv_def)
    qed (use m in simp_all)
  qed
qed

lemma tp_inv_destroy:
  assumes inv: "tp_inv sp s" and m: "main_thread s = Adding"
    and des: "threadpool_destroy (tpool s) = (p, m', wk)"
    and wk: "wakes wk (s\<lparr>tpool := p, main_thread := m'\<rparr>) s'"
  shows "tp_inv sp s'"
proof -
  let ?ws = "workers s" and ?p = "(tpool s)\<lparr>quit := 1\<rparr>"
  obtain q where q: "queue_inv s q" and cnt: "count_inv s" and qt: "quit_inv sp s"
    using inv by (auto simp: tp_inv_def)
  have p: "p = ?p" using des qt m by (auto simp: threadpool_destroy_def quit_inv_def Let_def split: if_splits)
  have rep: "queue_rep p q" using q queue_rep_cong [of p "tpool s" q] p by (simp add: queue_inv_def)
  have w0: "Waiting \<notin> set ?ws" if "\<not> 0 < idle (tpool s)"
  proof -
    have "num parked ?ws = 0" using that cnt num_nonneg [of parked ?ws] by (simp add: count_inv_def)
    then show ?thesis using num_0 [of parked ?ws] by auto
  qed
  have w1: "Waiting \<notin> set ?ws" if "\<not> 0 < count (tpool s)"
  proof -
    have "num alive ?ws = 0" using that cnt num_nonneg [of alive ?ws] by (simp add: count_inv_def)
    then show ?thesis using num_0 [of alive ?ws] by auto
  qed
  have qi: "queue_inv (s\<lparr>tpool := p, main_thread := x\<rparr>) q" and ci: "count_inv (s\<lparr>tpool := p, main_thread := x\<rparr>)" for x
    using q rep cnt p by (simp_all add: queue_inv_def count_inv_def)
  show ?thesis
  proof (cases "0 < count (tpool s) \<and> 0 < idle (tpool s)")
    case True
    let ?g = "\<lambda>w. if w = Waiting then Woken False else w"
    have "m' = Destroyed" "wk = Broadcast"
      using True des qt m by (auto simp: threadpool_destroy_def quit_inv_def Let_def)
    then have s': "s' = s\<lparr>tpool := p, workers := map ?g ?ws, main_thread := Destroyed\<rparr>"
      using wk by (auto elim: wakes_Broadcast)
    have "run_ok (map ?g ?ws) (heap p) q"
      using q p unfolding queue_inv_def run_ok_def by (simp split: if_splits)
    moreover have "\<exists>w\<in>set (map ?g ?ws). active w" if ne: "q \<noteq> []"
    proof -
      obtain w where "w \<in> set ?ws" "active w" using q ne unfolding queue_inv_def by blast
      then show ?thesis by (intro bexI [of _ w]) (auto intro!: rev_image_eqI)
    qed
    ultimately have "queue_inv s' q" using q rep unfolding s' by (simp add: queue_inv_def)
    moreover have "count_inv s'"
      using cnt p num_map [of alive ?g ?ws] num_map [of parked ?g ?ws] unfolding s' by (simp add: count_inv_def)
    moreover have "quit_inv sp s'" unfolding s' quit_inv_def using p by auto
    ultimately show ?thesis unfolding tp_inv_def by blast
  next
    case False
    then have "wk = No_wake" "m' = (if 0 < count (tpool s) then In_wait else Destroyed)"
      using des qt m by (auto simp: threadpool_destroy_def quit_inv_def Let_def split: if_splits)
    then have "s' = s\<lparr>tpool := p, main_thread := m'\<rparr>" using wk by (auto elim: wakes_No)
    moreover have "quit_inv sp (s\<lparr>tpool := p, main_thread := m'\<rparr>)"
      using w0 w1 False p \<open>m' = _\<close> by (auto simp: quit_inv_def)
    ultimately show ?thesis using qi ci unfolding tp_inv_def by blast
  qed
qed

lemma tp_inv_step:
  assumes "tp_step sp s s'" "tp_inv sp s"
  shows "tp_inv sp s'"
  using assms
proof (cases rule: tp_step.cases)
  case (lock i p w wk)
  then show ?thesis
    using tp_inv_section [OF assms(2), of i p w wk s'] worker_locked_ok [of "tpool s"] by simp
next
  case (wake i b p w wk)
  then show ?thesis
    using tp_inv_section [OF assms(2), of i p w wk s'] worker_woken_ok [of "tpool s" _ b] by simp
next
  case (relock i b p w wk)
  then show ?thesis
    using tp_inv_section [OF assms(2), of i p w wk s'] worker_relocked_ok [of "tpool s" _ b] by simp
next
  case (add req p spawned wk)
  then show ?thesis
    using tp_inv_add [OF assms(2), of req p spawned wk s'] by (simp add: can_enqueue_def)
next
  case main_spurious
  then show ?thesis using assms(2) by (auto simp: tp_inv_def queue_inv_def count_inv_def quit_inv_def)
next
  case main_return
  then show ?thesis using assms(2) by (auto simp: tp_inv_def queue_inv_def count_inv_def quit_inv_def)
qed (use assms(2) tp_inv_finish tp_inv_woken tp_inv_destroy in blast)+

lemma tp_inv_reachable:
  assumes "(tp_step sp)\<^sup>*\<^sup>* (tp_start threads) s" "0 < threads"
  shows "tp_inv sp s"
  using assms(1) by (induction rule: rtranclp_induct) (auto intro: tp_inv_start tp_inv_step assms(2))

subsection \<open>Some reachable states\<close>

text \<open>One task added, its worker created.\<close>

definition tp_one :: tp_state where
  "tp_one = \<lparr>tpool = \<lparr>heap = [1 \<mapsto> \<lparr>run = 10, arg = 5, next_task = NULL\<rparr>], first = 1, last_task = 1, count = 1,
     idle = 0, max_threads = 3, quit = 0\<rparr>, workers = [At_lock], main_thread = Adding, added = [(1, 10, 5)], started = []\<rparr>"

text \<open>The worker runs it.\<close>

definition tp_busy :: tp_state where
  "tp_busy = \<lparr>tpool = \<lparr>heap = [1 \<mapsto> \<lparr>run = 10, arg = 5, next_task = NULL\<rparr>], first = NULL, last_task = NULL, count = 1,
     idle = 0, max_threads = 3, quit = 0\<rparr>, workers = [Running (1, 10, 5) False], main_thread = Adding,
     added = [(1, 10, 5)], started = [(1, 10, 5)]\<rparr>"

text \<open>The worker has come back and waits.\<close>

definition tp_idle :: tp_state where
  "tp_idle = tp_busy\<lparr>tpool := (tpool tp_busy)\<lparr>heap := Map.empty, idle := 1\<rparr>, workers := [Waiting]\<rparr>"

text \<open>A second task was added and the pool destroyed.\<close>

definition tp_abandoned :: tp_state where
  "tp_abandoned = \<lparr>tpool = \<lparr>heap = [2 \<mapsto> \<lparr>run = 10, arg = 6, next_task = NULL\<rparr>], first = 2, last_task = 2, count = 1,
     idle = 1, max_threads = 3, quit = 1\<rparr>, workers = [Woken False], main_thread = Destroyed,
     added = [(1, 10, 5), (2, 10, 6)], started = [(1, 10, 5)]\<rparr>"

text \<open>The pool was destroyed while the worker was busy.\<close>

definition tp_all_done :: tp_state where
  "tp_all_done = \<lparr>tpool = \<lparr>heap = Map.empty, first = NULL, last_task = NULL, count = 0,
     idle = 0, max_threads = 3, quit = 1\<rparr>, workers = [Exited], main_thread = Wait_over,
     added = [(1, 10, 5)], started = [(1, 10, 5)]\<rparr>"

lemmas section_defs = worker_locked_def worker_woken_def worker_relocked_def worker_wait_loop_def
  worker_after_wait_def worker_tail_def dequeue_def front_task_def after_section_def picked_def

lemma tp_one_reachable: "(tp_step sp)\<^sup>*\<^sup>* (tp_start 3) tp_one"
proof (rule r_into_rtranclp)
  show "tp_step sp (tp_start 3) tp_one"
    by (rule tp_step.add [where req = "(1, 10, 5)" and wk = No_wake and spawned = True])
      (auto simp: tp_start_def tp_one_def threadpool_init_def threadpool_add_task_def enqueue_def
        intro: wakes.no_wake)
qed

lemma tp_busy_reachable: "(tp_step sp)\<^sup>*\<^sup>* (tp_start 3) tp_busy"
proof (rule rtranclp.rtrancl_into_rtrancl [OF tp_one_reachable])
  have "after_section 0 (tpool tp_busy) (Running (1, 10, 5) False) tp_one = tp_busy"
    by (simp add: tp_one_def tp_busy_def section_defs)
  then have "wakes No_wake (after_section 0 (tpool tp_busy) (Running (1, 10, 5) False) tp_one) tp_busy"
    using wakes.no_wake by metis
  then show "tp_step sp tp_one tp_busy"
    by (rule tp_step.lock [rotated 3]) (simp_all add: tp_one_def tp_busy_def section_defs)
qed


text \<open>One section of worker 0 that wakes nobody.\<close>

lemma lock0: "workers s = [At_lock] \<Longrightarrow> worker_locked (tpool s) = (p, w, No_wake) \<Longrightarrow>
    after_section 0 p w s = s' \<Longrightarrow> tp_step sp s s'"
  using tp_step.lock [of 0 s p w No_wake s' sp] wakes.no_wake [of s'] by simp

lemma relock0: "workers s = [At_relock b] \<Longrightarrow> worker_relocked b (tpool s) = (p, w, wk) \<Longrightarrow>
    wakes wk (after_section 0 p w s) s' \<Longrightarrow> tp_step sp s s'"
  using tp_step.relock [of 0 s b p w wk s' sp] by simp

lemma finish0: "workers s = [Running t b] \<Longrightarrow>
    s\<lparr>tpool := free_task (fst t) (tpool s), workers := [At_relock b]\<rparr> = s' \<Longrightarrow> tp_step sp s s'"
  using tp_step.finish [of 0 s t b sp] by simp

lemma tp_idle_reachable: "(tp_step sp)\<^sup>*\<^sup>* (tp_start 3) tp_idle"
proof -
  let ?a = "tp_busy\<lparr>tpool := (tpool tp_busy)\<lparr>heap := Map.empty\<rparr>, workers := [At_relock False]\<rparr>"
  let ?b = "?a\<lparr>workers := [At_lock]\<rparr>"
  have "tp_step sp tp_busy ?a" by (rule finish0 [where t = "(1, 10, 5)" and b = False]) (simp_all add: tp_busy_def free_task_def)
  moreover have "wakes No_wake (after_section 0 (tpool ?a) At_lock ?a) ?b"
    using wakes.no_wake [of ?b] by (simp add: tp_busy_def section_defs)
  then have "tp_step sp ?a ?b" by (rule relock0 [where b = False, rotated 2]) (simp_all add: tp_busy_def section_defs)
  moreover have "tp_step sp ?b tp_idle"
    by (rule lock0 [where w = Waiting]) (simp_all add: tp_busy_def tp_idle_def section_defs)
  ultimately show ?thesis using tp_busy_reachable [of sp] by (meson rtranclp.rtrancl_into_rtrancl)
qed

lemma tp_abandoned_reachable: "(tp_step sp)\<^sup>*\<^sup>* (tp_start 3) tp_abandoned"
proof -
  let ?p = "(tpool tp_abandoned)\<lparr>quit := 0\<rparr>"
  let ?a = "tp_idle\<lparr>tpool := ?p, added := added tp_abandoned\<rparr>"
  let ?b = "?a\<lparr>workers := [Woken False]\<rparr>"
  have "wakes Signal ?a ?b"
    using wakes.signal_worker [of 0 ?a] by (simp add: tp_idle_def)
  then have "tp_step sp tp_idle ?b"
    by (intro tp_step.add [where req = "(2, 10, 6)" and p = ?p and wk = Signal and spawned = False])
      (simp_all add: tp_idle_def tp_busy_def tp_abandoned_def threadpool_add_task_def enqueue_def)
  moreover have "wakes Broadcast (?b\<lparr>tpool := tpool tp_abandoned, main_thread := Destroyed\<rparr>) tp_abandoned"
    using wakes.broadcast [of "?b\<lparr>tpool := tpool tp_abandoned, main_thread := Destroyed\<rparr>"]
    by (simp add: tp_abandoned_def tp_idle_def tp_busy_def)
  then have "tp_step sp ?b tp_abandoned"
    by (rule tp_step.destroy [rotated 2]) (simp_all add: tp_idle_def tp_busy_def tp_abandoned_def threadpool_destroy_def Let_def)
  ultimately show ?thesis using tp_idle_reachable [of sp] by (meson rtranclp.rtrancl_into_rtrancl)
qed

lemma tp_all_done_reachable: "(tp_step sp)\<^sup>*\<^sup>* (tp_start 3) tp_all_done"
proof -
  let ?a = "tp_busy\<lparr>tpool := (tpool tp_busy)\<lparr>quit := 1\<rparr>, main_thread := In_wait\<rparr>"
  let ?b = "?a\<lparr>tpool := (tpool ?a)\<lparr>heap := Map.empty\<rparr>, workers := [At_relock False]\<rparr>"
  have "wakes No_wake ?a ?a" by (rule wakes.no_wake)
  then have "tp_step sp tp_busy ?a"
    by (intro tp_step.destroy [where wk = No_wake and m = In_wait and p = "tpool ?a"])
      (simp_all add: tp_busy_def threadpool_destroy_def Let_def)
  moreover have "tp_step sp ?a ?b" by (rule finish0 [where t = "(1, 10, 5)" and b = False]) (simp_all add: tp_busy_def free_task_def)
  moreover have "wakes Signal (after_section 0 (tpool tp_all_done) Exited ?b) tp_all_done"
    using wakes.signal_main [of "tp_all_done\<lparr>main_thread := In_wait\<rparr>"]
    by (simp add: tp_busy_def tp_all_done_def section_defs)
  then have "tp_step sp ?b tp_all_done"
    by (rule relock0 [where b = False, rotated 2]) (simp_all add: tp_busy_def tp_all_done_def section_defs Let_def)
  ultimately show ?thesis using tp_busy_reachable [of sp] by (meson rtranclp.rtrancl_into_rtrancl)
qed

subsection \<open>What the pool promises\<close>

text \<open>C8: the linked task list is a first-in first-out queue. For any sequence of puts (of fresh
  addresses) and gets on an empty pool, what the gets return, followed by what is still queued, is what
  the puts put, in order.\<close>

theorem task_list_fifo:
  assumes "task_queue.legal os (threadpool_init n) 0"
  shows "\<exists>q. queue_rep (fst (task_queue.fifo_run os (threadpool_init n))) q \<and>
    snd (task_queue.fifo_run os (threadpool_init n)) @ q = task_queue.puts os"
  using task_queue.fifo_order [of "threadpool_init n" "[]" os] assms
  by (simp add: queue_rep_def threadpool_init_def)

theorem task_list_fifo_witness:
  "\<exists>q. queue_rep (fst (task_queue.fifo_run [Put (4, 1, 1), Put (8, 1, 2), Get] (threadpool_init 3))) q \<and>
    snd (task_queue.fifo_run [Put (4, 1, 1), Put (8, 1, 2), Get] (threadpool_init 3)) @ q = [(4, 1, 1), (8, 1, 2)]"
  using task_list_fifo [of "[Put (4, 1, 1), Put (8, 1, 2), Get]" 3]
  by (simp add: can_enqueue_def threadpool_init_def enqueue_def Let_def)

text \<open>C9: under every interleaving of workers, client, timeouts and spurious wakeups, the tasks started so
  far are a prefix of the tasks added, in order, each once, and the rest is what the task list holds.\<close>

theorem tasks_start_in_order:
  assumes "(tp_step sp)\<^sup>*\<^sup>* (tp_start threads) s" "0 < threads"
  shows "\<exists>q. added s = started s @ q \<and> queue_rep (tpool s) q"
  using tp_inv_reachable [OF assms] by (auto simp: tp_inv_def queue_inv_def)

theorem tasks_start_in_order_witness:
  "\<exists>q. added (tp_start 3) = started (tp_start 3) @ q \<and> queue_rep (tpool (tp_start 3)) q"
  by (rule tasks_start_in_order [of True 3]) simp_all

text \<open>C10: the counters of the pool are right whenever the mutex is free: \<open>count\<close> is the number of
  workers that have not returned and never exceeds \<open>max_threads\<close>, \<open>idle\<close> is the number of those inside
  the waiting loop.\<close>

theorem pool_counters:
  assumes "(tp_step sp)\<^sup>*\<^sup>* (tp_start threads) s" "0 < threads"
  shows "count (tpool s) = int (length (filter alive (workers s))) \<and>
    idle (tpool s) = int (length (filter parked (workers s))) \<and>
    count (tpool s) \<le> max_threads (tpool s) \<and> 0 \<le> idle (tpool s) \<and> idle (tpool s) \<le> count (tpool s)"
proof -
  have c: "count_inv s" using tp_inv_reachable [OF assms] by (simp add: tp_inv_def)
  have "filter parked (workers s) = filter parked (filter alive (workers s))"
    unfolding filter_filter by (rule filter_cong [OF refl]) (auto elim: parked.elims)
  then have "length (filter parked (workers s)) \<le> length (filter alive (workers s))"
    by (metis length_filter_le)
  then show ?thesis using c by (simp add: count_inv_def num_def)
qed

theorem pool_counters_witness:
  "count (tpool (tp_start 3)) = int (length (filter alive (workers (tp_start 3)))) \<and>
    idle (tpool (tp_start 3)) \<le> count (tpool (tp_start 3))"
  using pool_counters [of True 3 "tp_start 3"] by simp

text \<open>C11: no task is stranded and no wake-up is lost: whenever a task is queued, some worker is awake
  and on its way to the queue (never all of them in \<open>pthread_cond_timedwait\<close>, never none left).\<close>

theorem no_stranded_task:
  assumes "(tp_step sp)\<^sup>*\<^sup>* (tp_start threads) s" "0 < threads" "first (tpool s) \<noteq> NULL"
  shows "\<exists>i<length (workers s). active (workers s ! i)"
proof -
  obtain q where q: "queue_inv s q" using tp_inv_reachable [OF assms(1,2)] by (auto simp: tp_inv_def)
  then have "queue_rep (tpool s) q" by (simp add: queue_inv_def)
  then have "q \<noteq> []" using queue_rep_first [of "tpool s" q] assms(3) by auto
  then show ?thesis using q unfolding queue_inv_def by (metis in_set_conv_nth)
qed

theorem no_stranded_task_witness: "\<exists>i<length (workers tp_one). active (workers tp_one ! i)"
  by (rule no_stranded_task [OF tp_one_reachable [of True]]) (simp_all add: tp_one_def)

text \<open>A step other than a spurious wake-up of the client is one of a world without them.\<close>

lemma step_without_spurious:
  "tp_step sp s s' \<Longrightarrow> (sp \<and> main_thread s = In_wait \<and> s' = s\<lparr>main_thread := Wait_over\<rparr>) \<or> tp_step False s s'"
  by (induction rule: tp_step.induct) (blast intro: tp_step.intros)+

lemma wait_over_all_done:
  assumes "tp_inv False s" "main_thread s = Wait_over"
  shows "set (workers s) \<subseteq> {Exited} \<and> first (tpool s) = NULL"
proof -
  obtain q where q: "queue_inv s q" and c: "count_inv s" "quit_inv False s"
    using assms(1) by (auto simp: tp_inv_def)
  have al: "alive w \<longleftrightarrow> w \<noteq> Exited" for w by (cases w) auto
  have "num alive (workers s) = 0" using c assms(2) by (simp add: count_inv_def quit_inv_def)
  then have *: "\<forall>w\<in>set (workers s). w = Exited" using num_0 [of alive] al by blast
  then have "\<not> (\<exists>w\<in>set (workers s). active w)" by auto
  then have "q = []" using q unfolding queue_inv_def by blast
  then have "first (tpool s) = NULL" using q queue_rep_first unfolding queue_inv_def by blast
  then show ?thesis using * by auto
qed

text \<open>C12: the waiting branch of \<open>threadpool_destroy\<close>, under every interleaving. While it waits some worker is still active,
  so that the signal it needs is still to come; and the step that ends the wait is either the signal of the last worker,
  after which all workers have exited and no task is left, or a spurious wake-up, against which the code, which does not
  call \<open>condition_wait\<close> in a loop, is not protected (\<open>sp\<close> says whether there are any). Without them it returns only when all workers
  have exited.\<close>

theorem destroy_waits_for_all:
  assumes "(tp_step sp)\<^sup>*\<^sup>* (tp_start threads) s" "0 < threads"
  shows "(main_thread s = In_wait \<longrightarrow> (\<exists>w\<in>set (workers s). active w)) \<and>
    (main_thread s = In_wait \<longrightarrow> (\<forall>s'. tp_step sp s s' \<and> main_thread s' = Wait_over \<longrightarrow>
      set (workers s') \<subseteq> {Exited} \<and> first (tpool s') = NULL \<or> sp \<and> s' = s\<lparr>main_thread := Wait_over\<rparr>)) \<and>
    (\<not> sp \<and> main_thread s = Wait_over \<longrightarrow> set (workers s) \<subseteq> {Exited} \<and> first (tpool s) = NULL)"
proof -
  have inv: "tp_inv sp s" using tp_inv_reachable [OF assms] .
  have al: "alive w \<longleftrightarrow> w \<noteq> Exited" for w by (cases w) auto
  have "\<exists>w\<in>set (workers s). active w" if m: "main_thread s = In_wait"
  proof -
    have "0 < num alive (workers s)" "Waiting \<notin> set (workers s)"
      using inv m by (auto simp: tp_inv_def count_inv_def quit_inv_def)
    then obtain w where w: "w \<in> set (workers s)" "alive w" "w \<noteq> Waiting"
      using num_0 [of alive "workers s"] by (metis less_irrefl)
    have "active w" by (cases w) (use w(2,3) in auto)
    then show ?thesis using w(1) by auto
  qed
  moreover have "set (workers s') \<subseteq> {Exited} \<and> first (tpool s') = NULL \<or> sp \<and> s' = s\<lparr>main_thread := Wait_over\<rparr>"
    if m: "main_thread s = In_wait" and st: "tp_step sp s s'" and o: "main_thread s' = Wait_over" for s'
  proof -
    have "tp_inv False s" using inv m by (auto simp: tp_inv_def quit_inv_def)
    then show ?thesis using step_without_spurious [OF st] tp_inv_step wait_over_all_done o by blast
  qed
  moreover have "set (workers s) \<subseteq> {Exited} \<and> first (tpool s) = NULL" if "\<not> sp" "main_thread s = Wait_over"
    using wait_over_all_done inv that by simp
  ultimately show ?thesis by blast
qed

theorem destroy_waits_for_all_witness:
  "main_thread tp_all_done = Wait_over \<and> set (workers tp_all_done) \<subseteq> {Exited} \<and> first (tpool tp_all_done) = NULL"
  using destroy_waits_for_all [OF tp_all_done_reachable [of False]] by (simp add: tp_all_done_def)

text \<open>One spurious wake-up, and \<open>threadpool_destroy\<close> returns while the worker is still busy with its task.\<close>

theorem destroy_spurious:
  "\<exists>s. (tp_step True)\<^sup>*\<^sup>* (tp_start 3) s \<and> main_thread s = Destroyed \<and> workers s = [Running (1, 10, 5) False]"
proof -
  let ?a = "tp_busy\<lparr>tpool := (tpool tp_busy)\<lparr>quit := 1\<rparr>, main_thread := In_wait\<rparr>"
  have "wakes No_wake ?a ?a" by (rule wakes.no_wake)
  then have "tp_step True tp_busy ?a"
    by (intro tp_step.destroy [where wk = No_wake and m = In_wait and p = "tpool ?a"])
      (simp_all add: tp_busy_def threadpool_destroy_def Let_def)
  moreover have "tp_step True ?a (?a\<lparr>main_thread := Wait_over\<rparr>)" by (rule tp_step.main_spurious) simp_all
  moreover have "tp_step True (?a\<lparr>main_thread := Wait_over\<rparr>) (?a\<lparr>main_thread := Destroyed\<rparr>)"
    using tp_step.main_return [of "?a\<lparr>main_thread := Wait_over\<rparr>"] by simp
  ultimately have "(tp_step True)\<^sup>*\<^sup>* (tp_start 3) (?a\<lparr>main_thread := Destroyed\<rparr>)"
    using tp_busy_reachable [of True] by (meson rtranclp.rtrancl_into_rtrancl)
  then show ?thesis by (intro exI [of _ "?a\<lparr>main_thread := Destroyed\<rparr>"]) (simp add: tp_busy_def)
qed

text \<open>The other branch is not: when a worker is idle, \<open>threadpool_destroy\<close> broadcasts and returns at
  once. Here a task has been added, its worker is woken but has not run yet, and \<open>threadpool_destroy\<close> has
  returned with the task still queued; \<open>main\<close> then returns, which ends the process and drops the task.\<close>

theorem destroy_abandons_task:
  "\<exists>s. (tp_step False)\<^sup>*\<^sup>* (tp_start 3) s \<and> main_thread s = Destroyed \<and> first (tpool s) \<noteq> NULL \<and>
    workers s = [Woken False]"
  using tp_abandoned_reachable [of False] by (intro exI [of _ tp_abandoned]) (simp add: tp_abandoned_def)

end
