(* ===== verification/SockModel.thy ===== *)
theory SockModel
  imports Prelude "HOL-Library.Word"
begin

text \<open>
  A connected stream socket as one process of \<open>network/socket/codes\<close> sees it, and the helpers that
  \<open>readline/server.c\<close>, \<open>readline/client.c\<close>, \<open>fixed-length/server.c\<close> and \<open>fixed-length/client.c\<close> share.

  \<^item> The kernel is a parameter: \<open>script\<close> (\<open>wscript\<close>) is the list of its answers to the coming \<open>read\<close> and
    \<open>recv\<close> (\<open>write\<close>) calls, one per call. A call may be interrupted by a signal, fail, or deliver (accept)
    some bytes, possibly fewer than asked for. \<open>inq\<close> holds the bytes the peer has sent and that have not
    been read, \<open>fin\<close> says that the peer has closed its end behind them. With no answer left, or with
    nothing to read from a peer that has not closed, a call blocks for ever: \<open>Inl Blocked\<close>.
  \<^item> \<open>readn\<close> and \<open>writen\<close> are the loops of these names: \<open>readn\<close> into a buffer at an offset. A byte stored
    outside the buffer is \<open>Fault OutOfBounds\<close>.
  \<^item> the \<open>_ok\<close> lemmas: with as many answers as bytes and no failure among them, the loops transfer all.
\<close>

type_synonym byte = "8 word"

datatype rx = Chunk nat | Interrupt | Failure

datatype tx = Accept nat | W_interrupt | W_failure

datatype reply = Data "byte list" | EINTR | EFAIL

record sock =
  inq :: "byte list"
  fin :: bool
  script :: "rx list"
  sent :: "byte list"
  wscript :: "tx list"

text \<open>\<open>Chunk k\<close> delivers up to \<open>k + 1\<close> bytes: a read that returns data returns at least one byte. A read of
  no bytes, and one at the end of the stream, returns no data.\<close>

definition sys_recv :: "bool \<Rightarrow> nat \<Rightarrow> sock \<Rightarrow> (reply \<times> sock) run" where
  "sys_recv peek n s =
     (case script s of
        [] \<Rightarrow> Inl Blocked
      | Interrupt # r \<Rightarrow> Inr (EINTR, s\<lparr>script := r\<rparr>)
      | Failure # r \<Rightarrow> Inr (EFAIL, s\<lparr>script := r\<rparr>)
      | Chunk k # r \<Rightarrow>
          if n \<noteq> 0 \<and> inq s = [] \<and> \<not> fin s then Inl Blocked
          else let m = min n (Suc k)
               in Inr (Data (take m (inq s)),
                       s\<lparr>inq := (if peek then inq s else drop m (inq s)), script := r\<rparr>))"

definition sys_write :: "byte list \<Rightarrow> sock \<Rightarrow> (int \<times> bool \<times> sock) run" where
  "sys_write bs s =
     (case wscript s of
        [] \<Rightarrow> Inl Blocked
      | W_interrupt # r \<Rightarrow> Inr (-1, True, s\<lparr>wscript := r\<rparr>)
      | W_failure # r \<Rightarrow> Inr (-1, False, s\<lparr>wscript := r\<rparr>)
      | Accept k # r \<Rightarrow> let m = min (length bs) k
          in Inr (int m, False, s\<lparr>sent := sent s @ take m bs, wscript := r\<rparr>))"

definition store :: "byte list \<Rightarrow> nat \<Rightarrow> byte list \<Rightarrow> (byte list) run" where
  "store buf off bs =
     (if bs = [] \<or> off + length bs \<le> length buf then Inr (take off buf @ bs @ drop (off + length bs) buf)
      else Inl (Fault OutOfBounds))"

lemma sys_recv_script: "sys_recv peek n s = Inr (r, s') \<Longrightarrow> length (script s') < length (script s)"
  by (auto simp: sys_recv_def Let_def split: list.splits rx.splits if_splits)

lemma sys_write_script: "sys_write bs s = Inr (r, e, s') \<Longrightarrow> length (wscript s') < length (wscript s)"
  by (auto simp: sys_write_def Let_def split: list.splits tx.splits)

subsection \<open>The loops\<close>

function readn_loop :: "byte list \<Rightarrow> nat \<Rightarrow> nat \<Rightarrow> nat \<Rightarrow> sock \<Rightarrow> (int \<times> byte list \<times> sock) run" where
  "readn_loop buf off nleft count s =
     (if nleft = 0 then Inr (int count, buf, s)
      else bnd (sys_recv False nleft s) (\<lambda>(r, s). case r of
             EINTR \<Rightarrow> readn_loop buf off nleft count s
           | EFAIL \<Rightarrow> Inr (-1, buf, s)
           | Data bs \<Rightarrow>
               if bs = [] then Inr (int (count - nleft), buf, s)
               else bnd (store buf off bs) (\<lambda>buf.
                    readn_loop buf (off + length bs) (nleft - length bs) count s)))"
  by pat_completeness auto
termination
  by (relation "measure (\<lambda>(buf, off, nleft, count, s). length (script s))") (auto dest: sys_recv_script)

declare readn_loop.simps [simp del]

definition readn :: "byte list \<Rightarrow> nat \<Rightarrow> nat \<Rightarrow> sock \<Rightarrow> (int \<times> byte list \<times> sock) run" where
  "readn buf off count s = readn_loop buf off count count s"

function writen_loop :: "byte list \<Rightarrow> nat \<Rightarrow> sock \<Rightarrow> (int \<times> sock) run" where
  "writen_loop bs count s =
     (if bs = [] then Inr (int count, s)
      else bnd (sys_write bs s) (\<lambda>(ret, intr, s).
           if ret < 0 \<and> intr then writen_loop bs count s
           else if ret < 0 then Inr (int (count - length bs), s)
           else if ret = 0 then writen_loop bs count s
           else writen_loop (drop (nat ret) bs) count s))"
  by pat_completeness auto
termination
  by (relation "measure (\<lambda>(bs, count, s). length (wscript s))") (auto dest: sys_write_script)

declare writen_loop.simps [simp del]

definition writen :: "byte list \<Rightarrow> sock \<Rightarrow> (int \<times> sock) run" where
  "writen bs s = writen_loop bs (length bs) s"

subsection \<open>Answers\<close>

text \<open>The number of answers that are not interruptions: the credit of a run.\<close>

fun chunks :: "rx list \<Rightarrow> nat" where
  "chunks [] = 0"
| "chunks (Chunk k # r) = Suc (chunks r)"
| "chunks (_ # r) = chunks r"

fun accepts :: "tx list \<Rightarrow> nat" where
  "accepts [] = 0"
| "accepts (Accept (Suc k) # r) = Suc (accepts r)"
| "accepts (_ # r) = accepts r"

lemma accepts_Accept [simp]: "accepts (Accept k # r) = (if k = 0 then accepts r else Suc (accepts r))"
  by (cases k) simp_all

lemma credit_replicate [simp]: "chunks (replicate n (Chunk i)) = n" "accepts (replicate n (Accept (Suc i))) = n"
  by (induction n) simp_all

text \<open>Two states that differ in the receiving script only, up to \<open>n\<close> answers.\<close>

definition spends :: "nat \<Rightarrow> sock \<Rightarrow> sock \<Rightarrow> bool" where
  "spends n s s' \<longleftrightarrow> chunks (script s) \<le> chunks (script s') + n \<and>
     (Failure \<notin> set (script s) \<longrightarrow> Failure \<notin> set (script s')) \<and>
     fin s' = fin s \<and> sent s' = sent s \<and> wscript s' = wscript s"

lemma spends_refl [simp]: "spends n s s"
  by (simp add: spends_def)

lemma spends_trans: "spends m s s' \<Longrightarrow> spends n s' s'' \<Longrightarrow> spends (m + n) s s''"
  by (auto simp: spends_def)

lemma spends_mono: "spends m s s' \<Longrightarrow> m \<le> n \<Longrightarrow> spends n s s'"
  by (auto simp: spends_def)

text \<open>A receive on a socket that has data (or is at its end), retried while interrupted, succeeds.\<close>

lemma sys_recv_cases:
  assumes "Failure \<notin> set (script s)" "0 < chunks (script s)"
  obtains (intr) s' where "sys_recv peek n s = Inr (EINTR, s')" "inq s' = inq s" "spends 0 s s'"
      "length (script s') < length (script s)"
  | (data) k r where "script s = Chunk k # r"
proof (cases "script s")
  case (Cons a r)
  show ?thesis
  proof (cases a)
    case Interrupt
    then show ?thesis using Cons assms intr [of "s\<lparr>script := r\<rparr>"] by (simp add: sys_recv_def spends_def)
  qed (use Cons assms data in auto)
qed (use assms in simp)

lemma store_ok: "off + length bs \<le> length buf \<Longrightarrow>
    store buf off bs = Inr (take off buf @ bs @ drop (off + length bs) buf)"
  by (simp add: store_def)

text \<open>\<open>readn\<close> transfers what it is asked for when that much is there.\<close>

lemma readn_loop_ok:
  assumes "nleft \<le> length (inq s)" "Failure \<notin> set (script s)" "nleft \<le> chunks (script s)"
    and "off + nleft \<le> length buf"
  shows "\<exists>s'. readn_loop buf off nleft count s
      = Inr (int count, take off buf @ take nleft (inq s) @ drop (off + nleft) buf, s')
    \<and> inq s' = drop nleft (inq s) \<and> spends nleft s s'"
  using assms
proof (induction "length (script s)" arbitrary: s buf off nleft rule: less_induct)
  case less
  show ?case
  proof (cases "nleft = 0")
    case True
    then show ?thesis by (simp add: readn_loop.simps)
  next
    case False
    then have "0 < chunks (script s)" using less.prems(3) by simp
    with less.prems(2) show ?thesis
    proof (cases rule: sys_recv_cases [of s False nleft])
      case (intr s')
      have "nleft \<le> chunks (script s')" "Failure \<notin> set (script s')"
        using less.prems(2,3) intr(3) by (auto simp: spends_def)
      from less.hyps [OF intr(4) _ this(2,1) less.prems(4)] intr(1-3) less.prems(1) False
      show ?thesis
        using spends_trans [of 0 s s' nleft] by (subst readn_loop.simps) auto
    next
      case (data k r)
      let ?m = "min nleft (Suc k)" and ?s = "s\<lparr>inq := drop (min nleft (Suc k)) (inq s), script := r\<rparr>"
      let ?bs = "take ?m (inq s)"
      let ?b = "take off buf @ ?bs @ drop (off + ?m) buf"
      have m: "0 < ?m" "?m \<le> nleft" "length ?bs = ?m" using False less.prems(1) by auto
      have ne: "inq s \<noteq> []" "?bs \<noteq> []" using m less.prems(1) by auto
      have rc: "sys_recv False nleft s = Inr (Data ?bs, ?s)"
        using data ne(1) by (simp add: sys_recv_def Let_def)
      have st: "store buf off ?bs = Inr ?b"
        using m less.prems(4) store_ok [of off ?bs buf] by simp
      have lt: "length (script ?s) < length (script s)" using data by simp
      have prem: "nleft - ?m \<le> length (inq ?s)" "Failure \<notin> set (script ?s)" "nleft - ?m \<le> chunks (script ?s)"
        "off + ?m + (nleft - ?m) \<le> length ?b"
        using less.prems data m by auto
      obtain s' where s': "readn_loop ?b (off + ?m) (nleft - ?m) count ?s
          = Inr (int count, take (off + ?m) ?b @ take (nleft - ?m) (inq ?s) @ drop (off + ?m + (nleft - ?m)) ?b, s')"
        "inq s' = drop (nleft - ?m) (inq ?s)" "spends (nleft - ?m) ?s s'"
        using less.hyps [OF lt prem] by blast
      have len: "length (take off buf) = off" using less.prems(4) by simp
      have b1: "take (off + ?m) ?b = take off buf @ ?bs"
        using len m(3) by (metis append_assoc append_eq_conv_conj length_append)
      have dd: "drop (off + nleft) xs = drop (nleft - ?m) (drop (off + ?m) xs)" for xs :: "byte list"
        using m(2) by (simp add: drop_drop add.commute)
      have "drop (off + ?m) ?b = drop (off + ?m) buf"
        using len m(3) by (metis append_assoc append_eq_conv_conj length_append)
      then have b2: "drop (off + nleft) ?b = drop (off + nleft) buf" unfolding dd by simp
      have "?bs @ take (nleft - ?m) (drop ?m (inq s)) = take nleft (inq s)"
        using m(2) take_add [of ?m "nleft - ?m" "inq s"] by simp
      then have res: "take (off + ?m) ?b @ take (nleft - ?m) (inq ?s) @ drop (off + ?m + (nleft - ?m)) ?b
          = take off buf @ take nleft (inq s) @ drop (off + nleft) buf"
        using m(2) b2 unfolding b1 by simp
      have "readn_loop buf off nleft count s = readn_loop ?b (off + ?m) (nleft - ?m) count ?s"
        by (subst readn_loop.simps) (simp only: False if_False bnd_Inr rc prod.case reply.case ne(2) st m(3))
      moreover have "inq s' = drop nleft (inq s)" using s'(2) m(2) by simp
      moreover have "spends nleft s s'" using s'(3) data m(1,2) by (auto simp: spends_def)
      ultimately show ?thesis using s'(1) unfolding res by (intro exI [of _ s'] conjI) (simp_all only:)
    qed
  qed
qed

lemma readn_ok:
  assumes "n \<le> length (inq s)" "Failure \<notin> set (script s)" "n \<le> chunks (script s)" "off + n \<le> length buf"
  shows "\<exists>s'. readn buf off n s = Inr (int n, take off buf @ take n (inq s) @ drop (off + n) buf, s')
    \<and> inq s' = drop n (inq s) \<and> spends n s s'"
  using readn_loop_ok [OF assms] by (simp add: readn_def)

text \<open>\<open>writen\<close> hands over all of its bytes, through interruptions, short writes and writes of nothing.\<close>

definition w_spends :: "nat \<Rightarrow> sock \<Rightarrow> sock \<Rightarrow> bool" where
  "w_spends n s s' \<longleftrightarrow> accepts (wscript s) \<le> accepts (wscript s') + n \<and>
     (W_failure \<notin> set (wscript s) \<longrightarrow> W_failure \<notin> set (wscript s')) \<and>
     inq s' = inq s \<and> fin s' = fin s \<and> script s' = script s"

lemma writen_loop_ok:
  assumes "W_failure \<notin> set (wscript s)" "length bs \<le> accepts (wscript s)"
  shows "\<exists>s'. writen_loop bs count s = Inr (int count, s') \<and> sent s' = sent s @ bs \<and> w_spends (length bs) s s'"
  using assms
proof (induction "length (wscript s)" arbitrary: s bs rule: less_induct)
  case less
  show ?case
  proof (cases "bs = []")
    case True
    then show ?thesis by (simp add: writen_loop.simps w_spends_def)
  next
    case False
    then obtain a r where ws: "wscript s = a # r" using less.prems(2) by (cases "wscript s") auto
    have retry: ?thesis
      if "writen_loop bs count s = writen_loop bs count (s\<lparr>wscript := r\<rparr>)" "accepts (wscript s) = accepts r"
    proof -
      have "\<exists>s'. writen_loop bs count (s\<lparr>wscript := r\<rparr>) = Inr (int count, s') \<and> sent s' = sent s @ bs
          \<and> w_spends (length bs) (s\<lparr>wscript := r\<rparr>) s'"
        using less.hyps [of "s\<lparr>wscript := r\<rparr>" bs] less.prems ws that(2) by simp
      then show ?thesis using that ws by (auto simp: w_spends_def)
    qed
    show ?thesis
    proof (cases a)
      case (Accept k)
      show ?thesis
      proof (cases k)
        case 0
        then have "writen_loop bs count s = writen_loop bs count (s\<lparr>wscript := r\<rparr>)"
          using ws Accept False by (subst writen_loop.simps) (simp add: sys_write_def Let_def)
        then show ?thesis by (rule retry) (simp add: ws Accept 0)
      next
        case (Suc k')
        let ?m = "min (length bs) k" and ?s = "s\<lparr>sent := sent s @ take (min (length bs) k) bs, wscript := r\<rparr>"
        have m: "0 < ?m" using False Suc by simp
        have lt: "length (drop ?m bs) < length bs" using m False by simp
        then have le: "length (drop ?m bs) \<le> accepts (wscript ?s)"
          using less.prems(2) ws Accept Suc by (simp del: length_drop)
        obtain s' where s': "writen_loop (drop ?m bs) count ?s = Inr (int count, s')"
          "sent s' = sent ?s @ drop ?m bs" "w_spends (length (drop ?m bs)) ?s s'"
          using less.hyps [OF _ _ le] less.prems(1) ws by auto
        have "w_spends (length bs) s s'"
          using s'(3) lt by (auto simp: w_spends_def ws Accept Suc simp del: length_drop)
        moreover have "writen_loop bs count s = writen_loop (drop ?m bs) count ?s"
          using False m ws Accept by (subst writen_loop.simps) (simp add: sys_write_def Let_def)
        moreover have "sent ?s @ drop ?m bs = sent s @ bs" by (simp add: min_def)
        ultimately show ?thesis using s'(1,2) by (intro exI [of _ s']) simp
      qed
    next
      case W_interrupt
      then have "writen_loop bs count s = writen_loop bs count (s\<lparr>wscript := r\<rparr>)"
        using ws False by (subst writen_loop.simps) (simp add: sys_write_def)
      then show ?thesis by (rule retry) (simp add: ws W_interrupt)
    qed (use less.prems(1) ws in simp)
  qed
qed

lemma writen_ok:
  assumes "W_failure \<notin> set (wscript s)" "length bs \<le> accepts (wscript s)"
  shows "\<exists>s'. writen bs s = Inr (int (length bs), s') \<and> sent s' = sent s @ bs \<and> w_spends (length bs) s s'"
  using writen_loop_ok [OF assms] by (simp add: writen_def)

subsection \<open>The terminal\<close>

text \<open>\<open>fgets(buf, n, stdin)\<close>: up to \<open>n - 1\<close> bytes, not beyond a newline; \<open>NULL\<close> at the end.\<close>

definition fgets :: "nat \<Rightarrow> byte list \<Rightarrow> (byte list \<times> byte list) option" where
  "fgets n inp =
     (if inp = [] then None
      else let l = takeWhile (\<lambda>c. c \<noteq> 10) inp;
               k = min (n - 1) (if length l < length inp then Suc (length l) else length l)
           in Some (take k inp, drop k inp))"

text \<open>The bytes up to the terminating NUL: what \<open>strlen\<close> counts and \<open>fputs\<close> prints.\<close>

definition c_str :: "byte list \<Rightarrow> byte list" where
  "c_str bs = takeWhile (\<lambda>c. c \<noteq> 0) bs"

text \<open>\<open>fputs(buf, stdout)\<close>: without a NUL in the array it reads on behind it.\<close>

definition fputs :: "byte list \<Rightarrow> (byte list) run" where
  "fputs buf = (if 0 \<in> set buf then Inr (c_str buf) else Inl (Fault OutOfBounds))"

lemma fgets_progress:
  "fgets n inp = Some (piece, rest) \<Longrightarrow> 1 < n \<Longrightarrow>
   inp = piece @ rest \<and> piece \<noteq> [] \<and> length piece < n \<and> length rest < length inp"
proof -
  assume f: "fgets n inp = Some (piece, rest)" and n: "1 < n"
  let ?l = "takeWhile (\<lambda>c. c \<noteq> 10) inp"
  define k where "k = min (n - 1) (if length ?l < length inp then Suc (length ?l) else length ?l)"
  have ne: "inp \<noteq> []" and p: "piece = take k inp" "rest = drop k inp"
    using f by (auto simp: fgets_def Let_def k_def split: if_splits)
  have "length ?l \<le> length inp" by (rule length_takeWhile_le)
  then have "0 < k" "k \<le> length inp" "k < n" using ne n by (auto simp: min_def k_def)
  then show ?thesis unfolding p by auto
qed

lemma c_str_no_nul: "0 \<notin> set bs \<Longrightarrow> c_str bs = bs"
  unfolding c_str_def takeWhile_eq_all_conv by blast

lemma fputs_terminated: "0 \<notin> set bs \<Longrightarrow> 0 < n \<Longrightarrow> fputs (bs @ replicate n 0) = Inr bs"
proof -
  assume bs: "0 \<notin> set bs" and n: "0 < n"
  then obtain m where m: "n = Suc m" by (cases n) auto
  have "takeWhile (\<lambda>c. c \<noteq> 0) (bs @ 0 # replicate m 0) = bs"
    by (subst takeWhile_append2) (use bs in auto)
  then show ?thesis by (simp add: fputs_def c_str_def m)
qed

end
