(* ===== verification/LineServer.thy ===== *)
theory LineServer
  imports SockModel
begin

text \<open>
  \<open>network/socket/codes/readline/server.c\<close> (\<open>client.c\<close> has the same routines): lines over a stream.

  \<^item> \<open>recv_peek\<close>, \<open>readline\<close>, \<open>recv_socket\<close> (the child process: receive and print) and \<open>recv_keyboard\<close>
    (the parent: read the terminal and send) are the routines of these names; \<open>server_main\<close> is \<open>main\<close>
    from the set-up calls to the two processes. A buffer is a list of \<open>BUFFER_LENGTH\<close> bytes.
  \<^item> a \<open>while (1)\<close> loop ends here because every turn takes an answer from the kernel's script.
  \<^item> the lemmas show that \<open>readline\<close> takes exactly one line off the stream, whatever the division of the
    stream into segments, and what happens to a line that does not fit. The properties at the end
    include a defect: \<open>readline\<close> leaves the bytes it has peeked behind the line in the buffer, and
    \<open>recv_socket\<close> prints them.
\<close>

abbreviation BUFFER_LENGTH :: nat where
  "BUFFER_LENGTH \<equiv> 1024"

abbreviation NL :: byte where
  "NL \<equiv> 10"

subsection \<open>The routines\<close>

function recv_peek :: "byte list \<Rightarrow> nat \<Rightarrow> nat \<Rightarrow> sock \<Rightarrow> (int \<times> byte list \<times> sock) run" where
  "recv_peek buf off len s =
     bnd (sys_recv True len s) (\<lambda>(r, s). case r of
       EINTR \<Rightarrow> recv_peek buf off len s
     | EFAIL \<Rightarrow> Inr (-1, buf, s)
     | Data bs \<Rightarrow> bnd (store buf off bs) (\<lambda>buf. Inr (int (length bs), buf, s)))"
  by pat_completeness auto
termination
  by (relation "measure (\<lambda>(buf, off, len, s). length (script s))") (auto dest: sys_recv_script)

declare recv_peek.simps [simp del]

lemma readn_loop_script:
  "readn_loop buf off nleft count s = Inr (r, b, s') \<Longrightarrow> length (script s') \<le> length (script s)"
proof (induction buf off nleft count s rule: readn_loop.induct)
  case (1 buf off nleft count s)
  show ?case
  proof (cases "nleft = 0")
    case True
    then show ?thesis using "1.prems" by (simp add: readn_loop.simps)
  next
    case False
    then obtain a t where t: "sys_recv False nleft s = Inr (a, t)"
      using "1.prems" by (subst (asm) readn_loop.simps) (auto simp: bnd_eq_Inr)
    note lt = sys_recv_script [OF t]
    show ?thesis
    proof (cases a)
      case (Data bs)
      show ?thesis
      proof (cases "bs = []")
        case True
        then show ?thesis using "1.prems" False t Data lt by (subst (asm) readn_loop.simps) simp
      next
        case bs: False
        then obtain b' where b': "store buf off bs = Inr b'"
          "readn_loop b' (off + length bs) (nleft - length bs) count t = Inr (r, b, s')"
          using "1.prems" False t Data by (subst (asm) readn_loop.simps) (auto simp: bnd_eq_Inr)
        then show ?thesis using "1.IH"(1) [OF False t _ Data bs b'(1,2)] lt by simp
      qed
    next
      case EINTR
      then have "readn_loop buf off nleft count t = Inr (r, b, s')"
        using "1.prems" False t by (subst (asm) readn_loop.simps) simp
      then show ?thesis using "1.IH"(2) [OF False t _ EINTR] lt by simp
    next
      case EFAIL
      then show ?thesis using "1.prems" False t lt by (subst (asm) readn_loop.simps) simp
    qed
  qed
qed

lemma recv_peek_script:
  "recv_peek buf off len s = Inr (r, b, s') \<Longrightarrow> length (script s') < length (script s)"
proof (induction buf off len s rule: recv_peek.induct)
  case (1 buf off len s)
  note eq = recv_peek.simps [of buf off len s]
  obtain a t where t: "sys_recv True len s = Inr (a, t)" using "1.prems" by (auto simp: eq bnd_eq_Inr)
  note lt = sys_recv_script [OF t]
  show ?case
  proof (cases a)
    case EINTR
    then have "recv_peek buf off len t = Inr (r, b, s')" using "1.prems" t by (simp add: eq)
    then show ?thesis using "1.IH" [OF t _ EINTR] lt by simp
  qed (use "1.prems" t lt in \<open>auto simp: eq bnd_eq_Inr\<close>)
qed

lemma readn_script: "readn buf off n s = Inr (r, b, s') \<Longrightarrow> length (script s') \<le> length (script s)"
  unfolding readn_def by (rule readn_loop_script)

text \<open>\<open>for (i = 0; i < ret; i++) if (bufp[i] == '\n')\<close>: the index of the first newline, or \<open>ret\<close>.\<close>

definition find_nl :: "byte list \<Rightarrow> nat \<Rightarrow> nat \<Rightarrow> nat" where
  "find_nl buf off ret = length (takeWhile (\<lambda>c. c \<noteq> NL) (take ret (drop off buf)))"

function readline_loop :: "byte list \<Rightarrow> nat \<Rightarrow> nat \<Rightarrow> nat \<Rightarrow> sock \<Rightarrow> (int \<times> byte list \<times> sock) run" where
  "readline_loop buf off nleft maxlen s =
     bnd (recv_peek buf off nleft s) (\<lambda>(ret, buf, s).
     if ret < 0 then Inl Exit_failure
     else if ret = 0 then Inr (0, buf, s)
     else
       let i = find_nl buf off (nat ret) in
       if i < nat ret then
         bnd (readn buf off (i + 1) s) (\<lambda>(ret, buf, s).
         if ret < int (i + 1) then Inl Exit_failure
         else Inr (int maxlen - int nleft + ret, buf, s))
       else if nleft < nat ret then Inl Exit_failure
       else
         bnd (readn buf off (nat ret) s) (\<lambda>(_, buf, s).
         readline_loop buf (off + nat ret) (nleft - nat ret) maxlen s))"
  by pat_completeness auto
termination
  by (relation "measure (\<lambda>(buf, off, nleft, maxlen, s). length (script s))")
    (auto dest!: recv_peek_script readn_script)

declare readline_loop.simps [simp del]

definition readline :: "byte list \<Rightarrow> nat \<Rightarrow> sock \<Rightarrow> (int \<times> byte list \<times> sock) run" where
  "readline buf maxlen s = readline_loop buf 0 maxlen maxlen s"

lemma readline_loop_script:
  "readline_loop buf off nleft maxlen s = Inr (r, b, s') \<Longrightarrow> length (script s') < length (script s)"
proof (induction buf off nleft maxlen s rule: readline_loop.induct)
  case (1 buf off nleft maxlen s)
  note eq = readline_loop.simps [of buf off nleft maxlen s]
  obtain ret b1 t where t: "recv_peek buf off nleft s = Inr (ret, b1, t)"
    using "1.prems" by (auto simp: eq bnd_eq_Inr)
  note lt = recv_peek_script [OF t]
  let ?i = "find_nl b1 off (nat ret)"
  consider "ret = 0" | "0 < ret" "?i < nat ret" | "0 < ret" "\<not> ?i < nat ret" "\<not> nleft < nat ret"
    using "1.prems" t by (auto simp: eq Let_def split: if_splits)
  then show ?case
  proof cases
    case 1
    then show ?thesis using "1.prems" t lt by (simp add: eq)
  next
    case 2
    then obtain r2 b2 where "readn b1 off (?i + 1) t = Inr (r2, b2, s')"
      using "1.prems" t by (auto simp: eq Let_def bnd_eq_Inr split: if_splits)
    then show ?thesis using readn_script lt by fastforce
  next
    case 3
    then obtain r2 b2 t2 where r: "readn b1 off (nat ret) t = Inr (r2, b2, t2)"
      "readline_loop b2 (off + nat ret) (nleft - nat ret) maxlen t2 = Inr (r, b, s')"
      using "1.prems" t by (auto simp: eq Let_def bnd_eq_Inr split: if_splits)
    have "length (script s') < length (script t2)"
      using "1.IH" [OF t refl refl _ _ refl 3(2,3) r(1) refl refl r(2)] 3(1) by simp
    then show ?thesis using readn_script [OF r(1)] lt by simp
  qed
qed

text \<open>\<open>recv_socket\<close>: the result is what the child process has printed when it signals its parent, closes
  the socket and exits. \<open>recv_keyboard\<close> is the parent process until the end of its input.\<close>

function recv_socket_loop :: "byte list \<Rightarrow> byte list \<Rightarrow> sock \<Rightarrow> (byte list \<times> sock) run" where
  "recv_socket_loop recv_buf out s =
     bnd (readline recv_buf BUFFER_LENGTH s) (\<lambda>(ret, recv_buf, s).
     if ret = -1 then Inl Exit_failure
     else if ret = 0 then Inr (out, s)
     else bnd (fputs recv_buf) (\<lambda>text.
       recv_socket_loop (replicate BUFFER_LENGTH 0) (out @ text) s))"
  by pat_completeness auto
termination
  by (relation "measure (\<lambda>(recv_buf, out, s). length (script s))")
    (auto simp: readline_def dest: readline_loop_script)

declare recv_socket_loop.simps [simp del]

definition recv_socket :: "sock \<Rightarrow> (byte list \<times> sock) run" where
  "recv_socket s = recv_socket_loop (replicate BUFFER_LENGTH 0) [] s"

function recv_keyboard :: "byte list \<Rightarrow> sock \<Rightarrow> sock run" where
  "recv_keyboard stdin s =
     (case fgets BUFFER_LENGTH stdin of
        None \<Rightarrow> Inr s
      | Some (send_buf, stdin') \<Rightarrow> bnd (writen (c_str send_buf) s) (\<lambda>(_, s). recv_keyboard stdin' s))"
  by pat_completeness auto
termination
  by (relation "measure (\<lambda>(stdin, s). length stdin)") (auto dest: fgets_progress)

declare recv_keyboard.simps [simp del]

text \<open>\<open>main\<close>: the outcomes of the set-up calls and of \<open>fork\<close> are given; a failing call ends the process. The
  result is that of the child (if there is one) and that of the parent; they use the two directions of
  the connection. (A failure of \<open>fork\<close> is not noticed: the process goes on as the parent.)\<close>

record sys_calls =
  socket_ok :: bool
  setsockopt_ok :: bool
  bind_ok :: bool
  listen_ok :: bool
  accept_ok :: bool
  fork_ok :: bool

definition server_main :: "sys_calls \<Rightarrow> byte list \<Rightarrow> sock \<Rightarrow> ((byte list \<times> sock) run option \<times> sock run) run" where
  "server_main os stdin s =
     (if \<not> socket_ok os then Inl Exit_failure
      else if \<not> setsockopt_ok os then Inl Exit_failure
      else if \<not> bind_ok os then Inl Exit_failure
      else if \<not> listen_ok os then Inl Exit_failure
      else if \<not> accept_ok os then Inl Exit_failure
      else Inr (if fork_ok os then Some (recv_socket s) else None, recv_keyboard stdin s))"

subsection \<open>One line off the stream\<close>

lemma recv_peek_ok:
  assumes "Failure \<notin> set (script s)" "0 < chunks (script s)" "inq s \<noteq> [] \<or> fin s \<or> len = 0"
    and "off + len \<le> length buf"
  shows "\<exists>m s'. recv_peek buf off len s
      = Inr (int m, take off buf @ take m (inq s) @ drop (off + m) buf, s')
    \<and> m \<le> len \<and> m \<le> length (inq s) \<and> (m = 0 \<longrightarrow> len = 0 \<or> inq s = [])
    \<and> inq s' = inq s \<and> spends 1 s s' \<and> length (script s') < length (script s)"
  using assms
proof (induction buf off len s rule: recv_peek.induct)
  case (1 buf off len s)
  note eq = recv_peek.simps [of buf off len s]
  from "1.prems"(1,2) show ?case
  proof (cases rule: sys_recv_cases [of s True len])
    case (intr s')
    have "Failure \<notin> set (script s')" "0 < chunks (script s')" "fin s' = fin s"
      using intr(3) "1.prems"(1,2) by (auto simp: spends_def)
    then obtain m t where "recv_peek buf off len s'
        = Inr (int m, take off buf @ take m (inq s') @ drop (off + m) buf, t)"
      "m \<le> len" "m \<le> length (inq s')" "m = 0 \<longrightarrow> len = 0 \<or> inq s' = []"
      "inq t = inq s'" "spends 1 s' t" "length (script t) < length (script s')"
      using "1.IH" [OF intr(1) refl refl] "1.prems"(3,4) intr(2) by auto
    moreover have "recv_peek buf off len s = recv_peek buf off len s'" unfolding eq intr(1) by simp
    moreover have "spends 1 s t" using spends_trans [OF intr(3)] calculation(6) by fastforce
    ultimately show ?thesis using intr(2,4) by (intro exI [of _ m] exI [of _ t]) simp
  next
    case (data k r)
    let ?m = "min (min len (Suc k)) (length (inq s))" and ?s = "s\<lparr>script := r\<rparr>"
    have "take (min len (Suc k)) (inq s) = take ?m (inq s)"
      by (metis min.commute take_all take_take linear min.absorb1)
    then have rc: "sys_recv True len s = Inr (Data (take ?m (inq s)), ?s)"
      using data "1.prems"(3) by (auto simp: sys_recv_def Let_def)
    have "store buf off (take ?m (inq s)) = Inr (take off buf @ take ?m (inq s) @ drop (off + ?m) buf)"
      using "1.prems"(4) store_ok [of off "take ?m (inq s)" buf] by simp
    then have "recv_peek buf off len s = Inr (int ?m, take off buf @ take ?m (inq s) @ drop (off + ?m) buf, ?s)"
      unfolding eq rc by simp
    moreover have "spends 1 s ?s" using data by (simp add: spends_def)
    moreover have "length (script ?s) < length (script s)" using data by simp
    moreover have "?m = 0 \<longrightarrow> len = 0 \<or> inq s = []" by (auto simp: min_def split: if_splits)
    ultimately show ?thesis by (intro exI [of _ ?m] exI [of _ ?s] conjI) simp_all
  qed
qed

lemma find_nl_stored:
  "off \<le> length buf \<Longrightarrow> find_nl (take off buf @ bs @ c) off (length bs) = length (takeWhile (\<lambda>x. x \<noteq> NL) bs)"
  by (simp add: find_nl_def)

lemma takeWhile_line:
  "NL \<notin> set l \<Longrightarrow> m \<le> Suc (length l + length r) \<Longrightarrow>
   length (takeWhile (\<lambda>x. x \<noteq> NL) (take m (l @ NL # r))) = min m (length l)"
proof -
  assume l: "NL \<notin> set l" and m: "m \<le> Suc (length l + length r)"
  show ?thesis
  proof (cases "m \<le> length l")
    case True
    have "\<forall>x\<in>set (take m l). x \<noteq> NL" using l by (auto dest: in_set_takeD)
    then have tw: "takeWhile (\<lambda>x. x \<noteq> NL) (take m l) = take m l" unfolding takeWhile_eq_all_conv .
    have "length (takeWhile (\<lambda>x. x \<noteq> NL) (take m l)) = length (take m l)" unfolding tw ..
    then show ?thesis using True by simp
  next
    case False
    then have "take m (l @ NL # r) = l @ NL # take (m - Suc (length l)) r" 
      using take_append [of m l "NL # r"] by (cases "m - length l") (auto simp: Suc_diff_Suc intro!: arg_cong2 [where f = take])
    moreover have "takeWhile (\<lambda>x. x \<noteq> NL) (l @ NL # xs) = l" for xs
      by (subst takeWhile_append2) (use l in auto)
    ultimately show ?thesis using False by simp
  qed
qed

text \<open>Prefixes and rests of a buffer that was stored into.\<close>

lemma stored_take: "off \<le> length buf \<Longrightarrow> take off (take off buf @ xs) = take off buf"
  by simp

lemma stored_length: "off + length bs \<le> length buf \<Longrightarrow> length (take off buf @ bs @ drop (off + length bs) buf) = length buf"
  by simp

text \<open>A turn of the loop whose peek shows no newline: the bytes are read and the loop goes on.\<close>

lemma turn_none:
  assumes pk: "recv_peek buf off nleft s = Inr (int m, take off buf @ take m (inq s) @ drop (off + m) buf, t)"
    and m: "m \<le> nleft" "m \<le> length (inq s)" "m \<noteq> 0" and t: "inq t = inq s"
    and nl: "NL \<notin> set (take m (inq s))" and room: "off + nleft \<le> length buf"
    and ft: "Failure \<notin> set (script t)" "m \<le> chunks (script t)"
  shows "\<exists>t'. readline_loop buf off nleft maxlen s = readline_loop (take off buf @ take m (inq s) @ drop (off + m) buf)
      (off + m) (nleft - m) maxlen t' \<and> inq t' = drop m (inq s) \<and> spends m t t'
    \<and> length (script t') \<le> length (script t)"
proof -
  let ?bs = "take m (inq s)"
  let ?b = "take off buf @ ?bs @ drop (off + m) buf"
  note eq = readline_loop.simps [of buf off nleft maxlen s]
  have lbs: "length ?bs = m" and offb: "off \<le> length buf" using m(2) room by simp_all
  have lb: "length ?b = length buf" using m(1) lbs room by simp
  have tw: "takeWhile (\<lambda>x. x \<noteq> NL) ?bs = ?bs" unfolding takeWhile_eq_all_conv using nl by blast
  have nl: "find_nl ?b off (nat (int m)) = m"
    using find_nl_stored [OF offb, of ?bs "drop (off + m) buf"] unfolding tw lbs nat_int .
  have len: "m \<le> length (inq t)" using m(2) t by simp
  obtain t' where rn: "readn ?b off m t = Inr (int m, take off ?b @ take m (inq t) @ drop (off + m) ?b, t')"
    "inq t' = drop m (inq t)" "spends m t t'"
    using readn_ok [OF len ft, of off ?b] lb m room by auto
  have tk: "take off ?b = take off buf" using offb by (rule stored_take)
  have dr: "drop (off + m) ?b = drop (off + m) buf" using offb lbs by simp
  have b2: "take off ?b @ take m (inq t) @ drop (off + m) ?b = ?b" unfolding tk dr t ..
  have "readline_loop buf off nleft maxlen s = readline_loop ?b (off + m) (nleft - m) maxlen t'"
    unfolding eq pk bnd_Inr prod.case nl using rn(1) m unfolding b2 by (simp add: Let_def nl)
  then show ?thesis using rn t readn_script [OF rn(1)] by auto
qed

lemma readline_loop_line:
  assumes "inq s = l @ NL # rest" "NL \<notin> set l" "length l < nleft" "off + nleft \<le> length buf"
    and "Failure \<notin> set (script s)" "2 * Suc (length l) \<le> chunks (script s)"
  shows "\<exists>b s'. readline_loop buf off nleft maxlen s
      = Inr (int maxlen - int nleft + int (Suc (length l)), take off buf @ l @ NL # b, s')
    \<and> length (take off buf @ l @ NL # b) = length buf \<and> inq s' = rest \<and> spends (2 * Suc (length l)) s s'"
  using assms
proof (induction "length (script s)" arbitrary: s l buf off nleft rule: less_induct)
  case less
  note eq = readline_loop.simps [of buf off nleft maxlen s]
  have "0 < chunks (script s)" "inq s \<noteq> [] \<or> fin s \<or> nleft = 0" using less.prems(1,6) by auto
  then obtain m t where pk: "recv_peek buf off nleft s
      = Inr (int m, take off buf @ take m (inq s) @ drop (off + m) buf, t)"
    and m: "m \<le> nleft" "m \<le> length (inq s)" "m \<noteq> 0"
    and t: "inq t = inq s" "spends 1 s t" "length (script t) < length (script s)"
    using recv_peek_ok [OF less.prems(5) _ _ less.prems(4)] less.prems(1,3) by (auto 4 3)
  let ?bs = "take m (inq s)"
  let ?b = "take off buf @ ?bs @ drop (off + m) buf"
  have lbs: "length ?bs = m" using m(2) by simp
  have offb: "off \<le> length buf" using less.prems(4) by simp
  have lb: "length ?b = length buf" using m(1) lbs less.prems(4) by simp
  have nl: "find_nl ?b off (nat (int m)) = min m (length l)"
    using find_nl_stored [OF offb, of ?bs "drop (off + m) buf"] lbs
      takeWhile_line [OF less.prems(2), of m rest] m(2) less.prems(1) by simp
  have ft: "Failure \<notin> set (script t)" "2 * Suc (length l) \<le> Suc (chunks (script t))"
    using t(2) less.prems(5,6) by (auto simp: spends_def)
  show ?case
  proof (cases "length l < m")
    case True
    have len: "Suc (length l) \<le> length (inq t)" using less.prems(1) t(1) by simp
    obtain t' where rn: "readn ?b off (Suc (length l)) t
        = Inr (int (Suc (length l)), take off ?b @ take (Suc (length l)) (inq t) @ drop (off + Suc (length l)) ?b, t')"
      "inq t' = drop (Suc (length l)) (inq t)" "spends (Suc (length l)) t t'"
      using readn_ok [OF len ft(1), of off ?b] ft(2) lb less.prems(3,4) by auto
    have tk: "take off ?b = take off buf" using offb by (rule stored_take)
    have ln: "take (Suc (length l)) (inq t) = l @ [NL]" "drop (Suc (length l)) (inq t) = rest"
      using less.prems(1) t(1) by simp_all
    let ?d = "drop (off + Suc (length l)) ?b"
    have "readline_loop buf off nleft maxlen s
        = Inr (int maxlen - int nleft + int (Suc (length l)), take off buf @ l @ NL # ?d, t')"
      unfolding eq pk bnd_Inr prod.case nl using True rn(1) m(3) unfolding tk ln by (simp add: Let_def nl)
    moreover have "length (take off buf @ l @ NL # ?d) = length buf"
      using lb offb less.prems(3,4) by simp
    moreover have "spends (2 * Suc (length l)) s t'"
      using spends_trans [OF t(2) rn(3)] by (rule spends_mono) simp
    ultimately show ?thesis using rn(2) ln(2) by blast
  next
    case False
    then have ml: "m \<le> length l" by simp
    have "NL \<notin> set ?bs" using less.prems(1,2) ml by (auto dest: in_set_takeD)
    then obtain t' where rn: "readline_loop buf off nleft maxlen s = readline_loop ?b (off + m) (nleft - m) maxlen t'"
      "inq t' = drop m (inq s)" "spends m t t'" "length (script t') \<le> length (script t)"
      using turn_none [OF pk m t(1) _ less.prems(4) ft(1)] ft(2) ml by auto
    have lt: "length (script t') < length (script s)" using rn(4) t(3) by simp
    have IH: "\<exists>b s'. readline_loop ?b (off + m) (nleft - m) maxlen t'
        = Inr (int maxlen - int (nleft - m) + int (Suc (length (drop m l))), take (off + m) ?b @ drop m l @ NL # b, s')
      \<and> length (take (off + m) ?b @ drop m l @ NL # b) = length ?b \<and> inq s' = rest
      \<and> spends (2 * Suc (length (drop m l))) t' s'"
    proof (rule less.hyps [OF lt])
      show "inq t' = drop m l @ NL # rest" using rn(2) less.prems(1) ml by simp
      show "NL \<notin> set (drop m l)" using less.prems(2) by (auto dest: in_set_dropD)
      show "length (drop m l) < nleft - m" using less.prems(3) ml by simp
      show "off + m + (nleft - m) \<le> length ?b" using lb less.prems(4) m(1) by simp
      show "Failure \<notin> set (script t')" using rn(3) ft(1) by (simp add: spends_def)
      have "chunks (script t) \<le> chunks (script t') + m" using rn(3) by (simp add: spends_def)
      then show "2 * Suc (length (drop m l)) \<le> chunks (script t')" using ft(2) ml m(3) by simp
    qed
    have bl: "take (off + m) ?b @ drop m l = take off buf @ l"
    proof -
      have "?bs = take m l" using less.prems(1) ml by simp
      then show ?thesis using offb lbs by simp
    qed
    have "int maxlen - int (nleft - m) + int (Suc (length (drop m l)))
        = int maxlen - int nleft + int (Suc (length l))" using m(1) ml by simp
    moreover have "spends (2 * Suc (length l)) s s'" if "spends (2 * Suc (length (drop m l))) t' s'" for s'
      using spends_trans [OF t(2) spends_trans [OF rn(3) that]]
      by (rule spends_mono) (use ml m(3) in simp)
    ultimately show ?thesis using IH lb bl unfolding rn(1) by (metis append_assoc)
  qed
qed

text \<open>No newline within the space that is left: what fits is read off the stream, and \<open>readline\<close> returns
  0, at the end of the stream as well as when the buffer is full (a \<open>recv\<close> of no bytes returns 0).\<close>

lemma readline_loop_unterminated:
  assumes "NL \<notin> set (take nleft (inq s))" "fin s \<or> nleft \<le> length (inq s)" "off + nleft \<le> length buf"
    and "Failure \<notin> set (script s)" "2 * nleft + 1 \<le> chunks (script s)"
  shows "\<exists>b s'. readline_loop buf off nleft maxlen s = Inr (0, b, s') \<and> inq s' = drop nleft (inq s)"
  using assms
proof (induction "length (script s)" arbitrary: s buf off nleft rule: less_induct)
  case less
  note eq = readline_loop.simps [of buf off nleft maxlen s]
  have "0 < chunks (script s)" "inq s \<noteq> [] \<or> fin s \<or> nleft = 0" using less.prems(2,5) by auto
  then obtain m t where pk: "recv_peek buf off nleft s
      = Inr (int m, take off buf @ take m (inq s) @ drop (off + m) buf, t)"
    and m: "m \<le> nleft" "m \<le> length (inq s)" "m = 0 \<longrightarrow> nleft = 0 \<or> inq s = []"
    and t: "inq t = inq s" "spends 1 s t" "length (script t) < length (script s)"
    using recv_peek_ok [OF less.prems(4) _ _ less.prems(3)] by blast
  show ?case
  proof (cases "m = 0")
    case True
    then show ?thesis using pk m(3) t(1) unfolding eq by auto
  next
    case False
    have ft: "Failure \<notin> set (script t)" "2 * nleft \<le> chunks (script t)"
      using t(2) less.prems(4,5) by (auto simp: spends_def)
    have "set (take m (inq s)) \<subseteq> set (take nleft (inq s))" using m(1) by (rule set_take_subset_set_take)
    then have "NL \<notin> set (take m (inq s))" using less.prems(1) by blast
    then obtain t' where rn: "readline_loop buf off nleft maxlen s
        = readline_loop (take off buf @ take m (inq s) @ drop (off + m) buf) (off + m) (nleft - m) maxlen t'"
      "inq t' = drop m (inq s)" "spends m t t'" "length (script t') \<le> length (script t)"
      using turn_none [OF pk m(1,2) False t(1) _ less.prems(3) ft(1)] ft(2) m(1) by auto
    have "\<exists>b s'. readline_loop (take off buf @ take m (inq s) @ drop (off + m) buf) (off + m) (nleft - m) maxlen t'
        = Inr (0, b, s') \<and> inq s' = drop (nleft - m) (inq t')"
    proof (rule less.hyps)
      show "length (script t') < length (script s)" using rn(4) t(3) by simp
      have "take (nleft - m) (drop m (inq s)) = drop m (take nleft (inq s))" by (simp add: drop_take)
      then show "NL \<notin> set (take (nleft - m) (inq t'))"
        using less.prems(1) rn(2) by (metis in_set_dropD)
      show "fin t' \<or> nleft - m \<le> length (inq t')"
        using less.prems(2) rn(2,3) t(2) by (auto simp: spends_def)
      show "off + m + (nleft - m) \<le> length (take off buf @ take m (inq s) @ drop (off + m) buf)"
        using less.prems(3) m by simp
      show "Failure \<notin> set (script t')" using rn(3) ft(1) by (simp add: spends_def)
      have "chunks (script t) \<le> chunks (script t') + m" "chunks (script s) \<le> chunks (script t) + 1"
        using rn(3) t(2) by (simp_all add: spends_def)
      then show "2 * (nleft - m) + 1 \<le> chunks (script t')" using less.prems(5) m(1) False by simp
    qed
    then show ?thesis using rn(1,2) m(1) by simp
  qed
qed

text \<open>When one segment brings more than the line, the whole of it is left in the buffer.\<close>

lemma readline_peeks_all:
  assumes "inq s = l @ NL # rest" "NL \<notin> set l" "script s = Chunk k # Chunk k' # r"
    and "length (inq s) \<le> Suc k" "length l \<le> k'" "length (inq s) \<le> maxlen" "maxlen \<le> length buf"
  shows "readline buf maxlen s = Inr (int (Suc (length l)), inq s @ drop (length (inq s)) buf, s\<lparr>inq := rest, script := r\<rparr>)"
proof -
  let ?n = "length (inq s)" and ?i = "Suc (length l)"
  let ?b = "inq s @ drop ?n buf"
  have n: "0 < ?n" "?i \<le> ?n" using assms(1) by simp_all
  have "sys_recv True maxlen s = Inr (Data (inq s), s\<lparr>script := Chunk k' # r\<rparr>)"
    using assms(3,4,6) n(1) by (simp add: sys_recv_def Let_def)
  moreover have "store buf 0 (inq s) = Inr ?b" using store_ok [of 0 "inq s" buf] assms(6,7) by simp
  ultimately have pk: "recv_peek buf 0 maxlen s = Inr (int ?n, ?b, s\<lparr>script := Chunk k' # r\<rparr>)"
    by (simp add: recv_peek.simps [of buf 0 maxlen s])
  have nl: "find_nl ?b 0 (nat (int ?n)) = length l"
  proof -
    have "find_nl ?b 0 (nat (int ?n)) = length (takeWhile (\<lambda>x. x \<noteq> NL) (inq s))"
      using find_nl_stored [of 0 buf "inq s" "drop ?n buf"] by (simp only: nat_int take_0 append_Nil le0)
    then show ?thesis using takeWhile_line [OF assms(2), of ?n rest] assms(1) by simp
  qed
  have ti: "take ?i (inq s) = l @ [NL]" "drop ?i (inq s) = rest" using assms(1) by simp_all
  have "sys_recv False ?i (s\<lparr>script := Chunk k' # r\<rparr>) = Inr (Data (l @ [NL]), s\<lparr>inq := rest, script := r\<rparr>)"
    using assms(3,5) n ti by (auto simp: sys_recv_def Let_def min_def)
  moreover have "store ?b 0 (l @ [NL]) = Inr ?b"
    using store_ok [of 0 "l @ [NL]" ?b] assms(1) by simp
  ultimately have rn: "readn ?b 0 ?i (s\<lparr>script := Chunk k' # r\<rparr>) = Inr (int ?i, ?b, s\<lparr>inq := rest, script := r\<rparr>)"
    by (simp add: readn_def readn_loop.simps)
  show ?thesis
    unfolding readline_def readline_loop.simps [of buf 0 maxlen maxlen s] pk bnd_Inr prod.case nl
    using rn n by (simp add: Let_def nl)
qed

subsection \<open>The sender\<close>

lemma recv_keyboard_ok:
  assumes "0 \<notin> set inp" "W_failure \<notin> set (wscript s)" "length inp \<le> accepts (wscript s)"
  shows "\<exists>s'. recv_keyboard inp s = Inr s' \<and> sent s' = sent s @ inp \<and> inq s' = inq s"
  using assms
proof (induction "length inp" arbitrary: inp s rule: less_induct)
  case less
  show ?case
  proof (cases "fgets BUFFER_LENGTH inp")
    case None
    then have "inp = []" by (auto simp: fgets_def Let_def split: if_splits)
    then show ?thesis using None by (simp add: recv_keyboard.simps)
  next
    case (Some p)
    obtain piece rest where p: "p = (piece, rest)" by (cases p)
    have f: "inp = piece @ rest" "length rest < length inp" using fgets_progress Some p by fastforce+
    have nul: "0 \<notin> set piece" "0 \<notin> set rest" using less.prems(1) f(1) by auto
    have "length piece \<le> accepts (wscript s)" using less.prems(3) f(1) by simp
    then obtain t where t: "writen piece s = Inr (int (length piece), t)" "sent t = sent s @ piece"
      "w_spends (length piece) s t" using writen_ok [OF less.prems(2)] by blast
    have "W_failure \<notin> set (wscript t)" "length rest \<le> accepts (wscript t)"
      using t(3) less.prems(2,3) f(1) by (auto simp: w_spends_def)
    then obtain s' where "recv_keyboard rest t = Inr s'" "sent s' = sent t @ rest" "inq s' = inq t"
      using less.hyps [OF f(2) nul(2)] by blast
    then show ?thesis
      using Some p t f(1) c_str_no_nul [OF nul(1)]
      by (subst recv_keyboard.simps) (simp add: w_spends_def)
  qed
qed

subsection \<open>What the line protocol promises\<close>

text \<open>\<open>readline\<close> on a stream that starts with a line that fits returns the length of the line, puts the
  line at the front of the buffer, and takes the line and nothing behind it off the stream. This holds for
  every division of the stream into segments and with any number of interruptions.\<close>

theorem readline_one_line:
  assumes "inq s = l @ NL # rest" "NL \<notin> set l" "length l < maxlen" "maxlen \<le> length buf"
    and "Failure \<notin> set (script s)" "2 * Suc (length l) \<le> chunks (script s)"
  shows "\<exists>b s'. readline buf maxlen s = Inr (int (Suc (length l)), l @ NL # b, s') \<and>
    length (l @ NL # b) = length buf \<and> inq s' = rest"
  using readline_loop_line [of s l rest maxlen 0 buf maxlen] assms by (auto simp: readline_def)

theorem readline_one_line_witness:
  "\<exists>b s'. readline [0, 0, 0, 0] 4 \<lparr>inq = [97, 98, 10, 99], fin = True,
      script = [Chunk 0, Interrupt, Chunk 0, Chunk 7, Interrupt, Chunk 0, Chunk 0, Chunk 1], sent = [], wscript = []\<rparr>
    = Inr (3, [97, 98] @ NL # b, s') \<and> length ([97, 98] @ NL # b) = 4 \<and> inq s' = [99]"
  using readline_one_line [of "\<lparr>inq = [97, 98, 10, 99], fin = True,
      script = [Chunk 0, Interrupt, Chunk 0, Chunk 7, Interrupt, Chunk 0, Chunk 0, Chunk 1], sent = [], wscript = []\<rparr>"
      "[97, 98]" "[99]" 4 "[0, 0, 0, 0]"] by simp

text \<open>A line that does not fit, or a last line without newline, is lost: \<open>readline\<close> takes its bytes off
  the stream and returns 0, which is its answer for a peer that has closed. (With the buffer full it calls
  \<open>recv\<close> for no bytes, and reads the 0 it gets as the end of the stream.)\<close>

theorem readline_loses_unterminated:
  assumes "NL \<notin> set (take maxlen (inq s))" "fin s \<or> maxlen \<le> length (inq s)" "maxlen \<le> length buf"
    and "Failure \<notin> set (script s)" "2 * maxlen + 1 \<le> chunks (script s)"
  shows "\<exists>b s'. readline buf maxlen s = Inr (0, b, s') \<and> inq s' = drop maxlen (inq s)"
  using readline_loop_unterminated [of maxlen s 0 buf maxlen] assms by (simp add: readline_def)

theorem readline_loses_unterminated_witness:
  "\<exists>b s'. readline [0, 0] 2 \<lparr>inq = [97, 98, 99, 10], fin = False, script = [Chunk 1, Chunk 1, Chunk 1, Chunk 1, Chunk 1], sent = [], wscript = []\<rparr>
    = Inr (0, b, s') \<and> inq s' = [99, 10]"
  using readline_loses_unterminated [of 2 "\<lparr>inq = [97, 98, 99, 10], fin = False, script = [Chunk 1, Chunk 1, Chunk 1, Chunk 1, Chunk 1],
      sent = [], wscript = []\<rparr>" "[0, 0]"] by simp

text \<open>\<open>recv_socket\<close> prints what it has peeked behind a line as well, and prints it again when its turn
  comes: of two lines that arrive together the second is printed twice.\<close>

theorem recv_socket_prints_twice:
  assumes "inq s = l1 @ NL # l2 @ [NL]" "NL \<notin> set l1" "NL \<notin> set l2" "0 \<notin> set (inq s)" "fin s"
    and "length (inq s) < BUFFER_LENGTH" "script s = replicate 5 (Chunk BUFFER_LENGTH)"
  shows "\<exists>s'. recv_socket s = Inr (l1 @ NL # l2 @ NL # l2 @ [NL], s')"
proof -
  let ?z = "replicate BUFFER_LENGTH (0::byte)" and ?c = "Chunk BUFFER_LENGTH"
  have sc: "script s = ?c # ?c # ?c # ?c # ?c # []" using assms(7) by (simp add: numeral_eq_Suc)
  let ?t = "s\<lparr>inq := l2 @ [NL], script := [?c, ?c, ?c]\<rparr>"
  let ?u = "s\<lparr>inq := [], script := [?c]\<rparr>"
  have r1: "readline ?z BUFFER_LENGTH s
      = Inr (int (Suc (length l1)), inq s @ replicate (BUFFER_LENGTH - length (inq s)) 0, ?t)"
    using readline_peeks_all [OF assms(1,2) sc, of BUFFER_LENGTH ?z] assms(1,6) by simp
  have r2: "readline ?z BUFFER_LENGTH ?t
      = Inr (int (Suc (length l2)), (l2 @ [NL]) @ replicate (BUFFER_LENGTH - length (l2 @ [NL])) 0, ?u)"
    using readline_peeks_all [of ?t l2 "[]" BUFFER_LENGTH BUFFER_LENGTH "[?c]" BUFFER_LENGTH ?z] assms(1,3,6) by simp
  have r3: "\<exists>b s'. readline ?z BUFFER_LENGTH ?u = Inr (0, b, s')"
    using assms(5) by (simp add: readline_def readline_loop.simps recv_peek.simps sys_recv_def store_def)
  have p: "fputs (inq s @ replicate (BUFFER_LENGTH - length (inq s)) 0) = Inr (inq s)"
    "fputs ((l2 @ [NL]) @ replicate (BUFFER_LENGTH - length (l2 @ [NL])) 0) = Inr (l2 @ [NL])"
    using assms(1,4,6) by (intro fputs_terminated; simp)+
  obtain b s' where r3': "readline ?z BUFFER_LENGTH ?u = Inr (0, b, s')" using r3 by blast
  have "recv_socket s = recv_socket_loop ?z (inq s) ?t"
    unfolding recv_socket_def recv_socket_loop.simps [of ?z "[]" s] r1 bnd_Inr prod.case p(1) by simp
  also have "\<dots> = recv_socket_loop ?z (inq s @ l2 @ [NL]) ?u"
    unfolding recv_socket_loop.simps [of ?z "inq s" ?t] r2 bnd_Inr prod.case p(2) by simp
  also have "\<dots> = Inr (inq s @ l2 @ [NL], s')"
    unfolding recv_socket_loop.simps [of ?z "inq s @ l2 @ [NL]" ?u] r3' bnd_Inr prod.case by simp
  finally show ?thesis using assms(1) by simp
qed

theorem recv_socket_prints_twice_witness:
  "\<exists>s'. recv_socket \<lparr>inq = [97, 10, 98, 10], fin = True, script = replicate 5 (Chunk BUFFER_LENGTH),
    sent = [], wscript = []\<rparr> = Inr ([97, 10, 98, 10, 98, 10], s')"
  using recv_socket_prints_twice [of "\<lparr>inq = [97, 10, 98, 10], fin = True, script = replicate 5 (Chunk BUFFER_LENGTH),
    sent = [], wscript = []\<rparr>" "[97]" "[98]"] by simp

text \<open>C17: from terminal to terminal: \<open>recv_keyboard\<close> sends all of its input, through short writes and
  interruptions; a peer that finds this on its stream reads the first line from it with \<open>readline\<close>.\<close>

theorem line_roundtrip:
  assumes "stdin = l @ NL # rest" "NL \<notin> set l" "0 \<notin> set stdin" "length l < BUFFER_LENGTH"
    and "sent k = []" "W_failure \<notin> set (wscript k)" "length stdin \<le> accepts (wscript k)"
    and "Failure \<notin> set (script s)" "2 * Suc (length l) \<le> chunks (script s)" "length buf = BUFFER_LENGTH"
  shows "\<exists>k' b s'. recv_keyboard stdin k = Inr k' \<and>
    readline buf BUFFER_LENGTH (s\<lparr>inq := sent k'\<rparr>) = Inr (int (Suc (length l)), l @ NL # b, s') \<and> inq s' = rest"
proof -
  obtain k' where k': "recv_keyboard stdin k = Inr k'" "sent k' = stdin"
    using recv_keyboard_ok [OF assms(3,6,7)] assms(5) by auto
  have "\<exists>b s'. readline buf BUFFER_LENGTH (s\<lparr>inq := stdin\<rparr>) = Inr (int (Suc (length l)), l @ NL # b, s')
      \<and> inq s' = rest"
    using readline_loop_line [of "s\<lparr>inq := stdin\<rparr>" l rest BUFFER_LENGTH 0 buf BUFFER_LENGTH] assms
    by (auto simp: readline_def)
  with k' show ?thesis by auto
qed

theorem line_roundtrip_witness:
  "\<exists>k' b s'. recv_keyboard [104, 105, 10, 98] \<lparr>inq = [], fin = False, script = [], sent = [],
      wscript = [Accept 1, W_interrupt, Accept 0, Accept 5, Accept 5, Accept 1]\<rparr> = Inr k' \<and>
    readline (replicate BUFFER_LENGTH 0) BUFFER_LENGTH \<lparr>inq = sent k', fin = True, script = [Chunk 0, Chunk 0, Chunk 0, Chunk 0, Chunk 0, Chunk 0], sent = [],
      wscript = []\<rparr> = Inr (3, [104, 105] @ NL # b, s') \<and> inq s' = [98]"
  using line_roundtrip [of "[104, 105, 10, 98]" "[104, 105]" "[98]" "\<lparr>inq = [], fin = False, script = [], sent = [],
      wscript = [Accept 1, W_interrupt, Accept 0, Accept 5, Accept 5, Accept 1]\<rparr>"
      "\<lparr>inq = [], fin = True, script = [Chunk 0, Chunk 0, Chunk 0, Chunk 0, Chunk 0, Chunk 0], sent = [], wscript = []\<rparr>" "replicate BUFFER_LENGTH 0"]
  by simp

end
