(* ===== verification/PacketServer.thy ===== *)
theory PacketServer
  imports LineServer
begin

text \<open>
  \<open>network/socket/codes/fixed-length/server.c\<close> (\<open>client.c\<close> has the same routines): packets of a four-byte
  length, in network byte order, and that many bytes.

  \<^item> \<open>Packet\<close> is the structure; its \<open>len\<close> field is kept as the four bytes it has in memory, on a machine
    with the least significant byte first. \<open>packet_recv\<close> and \<open>packet_keyboard\<close> are \<open>recv_socket\<close> and
    \<open>recv_keyboard\<close> of this program, \<open>packet_main\<close> its \<open>main\<close>.
  \<^item> \<open>packet d\<close> is the encoding of \<open>d\<close>; \<open>recv_packets\<close> shows that the receiver takes a sequence of
    packets apart, whatever the segments, and \<open>keyboard_packets\<close> that the sender produces one.
  \<^item> The receiver does not compare the length with the size of the buffer (\<open>readn_overflow\<close>).
\<close>

subsection \<open>Byte order\<close>

unbundle bit_operations_syntax

definition word_bytes :: "32 word \<Rightarrow> byte list" where
  "word_bytes w = [ucast w, ucast (drop_bit 8 w), ucast (drop_bit 16 w), ucast (drop_bit 24 w)]"

fun bytes_word :: "byte list \<Rightarrow> 32 word" where
  "bytes_word [a, b, c, d] =
     ucast a OR push_bit 8 (ucast b) OR push_bit 16 (ucast c) OR push_bit 24 (ucast d)"
| "bytes_word _ = 0"

definition htonl :: "32 word \<Rightarrow> 32 word" where
  "htonl w = bytes_word (rev (word_bytes w))"

definition ntohl :: "32 word \<Rightarrow> 32 word" where
  "ntohl w = bytes_word (rev (word_bytes w))"

lemma length_word_bytes [simp]: "length (word_bytes w) = 4"
  by (simp add: word_bytes_def)

lemma bytes_word_bytes: "bytes_word (word_bytes w) = w"
proof (rule bit_word_eqI)
  fix n assume "n < LENGTH(32)"
  then consider "n < 8" | "8 \<le> n" "n < 16" | "16 \<le> n" "n < 24" | "24 \<le> n" "n < 32" by fastforce
  then show "bit (bytes_word (word_bytes w)) n = bit w n"
    by cases (auto simp: word_bytes_def bit_simps)
qed

lemma word_bytes_word_4: "word_bytes (bytes_word [a, b, c, d]) = [a, b, c, d]"
proof -
  have "ucast (bytes_word [a, b, c, d]) = a" "ucast (drop_bit 8 (bytes_word [a, b, c, d])) = b"
    "ucast (drop_bit 16 (bytes_word [a, b, c, d])) = c" "ucast (drop_bit 24 (bytes_word [a, b, c, d])) = d"
    by (rule bit_word_eqI; auto simp: bit_simps dest: bit_imp_le_length)+
  then show ?thesis unfolding word_bytes_def by simp
qed

lemma word_bytes_word: "length bs = 4 \<Longrightarrow> word_bytes (bytes_word bs) = bs"
  using word_bytes_word_4 by (auto simp: numeral_eq_Suc length_Suc_conv simp del: bytes_word.simps)

lemma ntohl_htonl: "ntohl (htonl w) = w"
  unfolding ntohl_def htonl_def by (simp add: word_bytes_word bytes_word_bytes)

subsection \<open>The routines\<close>

record Packet =
  len_bytes :: "byte list"
  packet_buf :: "byte list"

definition zero_packet :: Packet where
  "zero_packet = \<lparr>len_bytes = replicate 4 0, packet_buf = replicate BUFFER_LENGTH 0\<rparr>"

lemma sys_recv_lt: "readn buf off n s = Inr (r, b, s') \<Longrightarrow> 0 < n \<Longrightarrow> length (script s') < length (script s)"
proof -
  assume r: "readn buf off n s = Inr (r, b, s')" and n: "0 < n"
  then obtain a t where t: "sys_recv False n s = Inr (a, t)"
    by (auto simp: readn_def readn_loop.simps [of buf off n n s] bnd_eq_Inr)
  note lt = sys_recv_script [OF t]
  have "length (script s') \<le> length (script t)"
    using r n t by (auto simp: readn_def readn_loop.simps [of buf off n n s] bnd_eq_Inr
        split: reply.splits if_splits dest: readn_loop_script)
  then show ?thesis using lt by simp
qed

text \<open>\<open>readn\<close> takes a \<open>size_t\<close>: a negative length becomes a huge one.\<close>

definition size_of_int :: "32 word \<Rightarrow> nat" where
  "size_of_int w = unat (scast w :: 64 word)"

function packet_recv_loop :: "Packet \<Rightarrow> byte list \<Rightarrow> sock \<Rightarrow> (byte list \<times> sock) run" where
  "packet_recv_loop recv_buf out s =
     bnd (readn (len_bytes recv_buf) 0 4 s) (\<lambda>(ret, lb, s).
     if ret = -1 then Inl Exit_failure
     else if ret = 0 then Inr (out, s)
     else if ret < 4 then Inl Exit_failure
     else
       let len = ntohl (bytes_word lb) in
       bnd (readn (packet_buf recv_buf) 0 (size_of_int len) s) (\<lambda>(ret, buf, s).
       if ret = -1 then Inl Exit_failure
       else if ret \<noteq> sint len then Inl Exit_failure
       else bnd (fputs buf) (\<lambda>text. packet_recv_loop zero_packet (out @ text) s)))"
  by pat_completeness auto
termination
  by (relation "measure (\<lambda>(recv_buf, out, s). length (script s))")
    (auto, metis readn_script sys_recv_lt le_less_trans zero_less_numeral)

declare packet_recv_loop.simps [simp del]

definition packet_recv :: "sock \<Rightarrow> (byte list \<times> sock) run" where
  "packet_recv s = packet_recv_loop zero_packet [] s"

function packet_keyboard :: "byte list \<Rightarrow> sock \<Rightarrow> sock run" where
  "packet_keyboard stdin s =
     (case fgets BUFFER_LENGTH stdin of
        None \<Rightarrow> Inr s
      | Some (buf, stdin') \<Rightarrow>
          let text = c_str buf
          in bnd (writen (word_bytes (htonl (of_nat (length text))) @ text) s) (\<lambda>(_, s).
             packet_keyboard stdin' s))"
  by pat_completeness auto
termination
  by (relation "measure (\<lambda>(stdin, s). length stdin)") (auto dest: fgets_progress)

declare packet_keyboard.simps [simp del]

definition packet_main :: "sys_calls \<Rightarrow> byte list \<Rightarrow> sock \<Rightarrow> ((byte list \<times> sock) run option \<times> sock run) run" where
  "packet_main os stdin s =
     (if \<not> socket_ok os then Inl Exit_failure
      else if \<not> setsockopt_ok os then Inl Exit_failure
      else if \<not> bind_ok os then Inl Exit_failure
      else if \<not> listen_ok os then Inl Exit_failure
      else if \<not> accept_ok os then Inl Exit_failure
      else Inr (if fork_ok os then Some (packet_recv s) else None, packet_keyboard stdin s))"

subsection \<open>One packet\<close>

definition packet :: "byte list \<Rightarrow> byte list" where
  "packet d = word_bytes (htonl (of_nat (length d))) @ d"

lemma length_packet [simp]: "length (packet d) = 4 + length d"
  by (simp add: packet_def)

lemma small_len:
  assumes "n < BUFFER_LENGTH"
  shows "size_of_int (of_nat n) = n" "sint (of_nat n :: 32 word) = int n"
proof -
  show s: "sint (of_nat n :: 32 word) = int n"
    using assms by (simp add: signed_of_nat signed_take_bit_int_eq_self)
  have "(scast (of_nat n :: 32 word) :: 64 word) = of_nat n"
    unfolding scast_eq s by simp
  then show "size_of_int (of_nat n) = n"
    using assms by (simp add: size_of_int_def unsigned_of_nat take_bit_nat_eq_self)
qed

lemma recv_packet:
  assumes inq: "inq s = packet d @ rest" and d: "length d < BUFFER_LENGTH" "0 \<notin> set d"
    and f: "Failure \<notin> set (script s)" "length (packet d) \<le> chunks (script s)"
  shows "\<exists>s'. packet_recv_loop zero_packet out s = packet_recv_loop zero_packet (out @ d) s'
    \<and> inq s' = rest \<and> spends (length (packet d)) s s'"
proof -
  let ?lb = "word_bytes (htonl (of_nat (length d)))"
  have z: "len_bytes zero_packet = replicate 4 0" "packet_buf zero_packet = replicate BUFFER_LENGTH 0"
    by (simp_all add: zero_packet_def)
  obtain t where t: "readn (replicate 4 0) 0 4 s = Inr (4, ?lb, t)" "inq t = d @ rest" "spends 4 s t"
    using readn_ok [of 4 s 0 "replicate 4 0"] inq f by (auto simp: packet_def)
  have n: "ntohl (bytes_word ?lb) = of_nat (length d)" by (simp add: bytes_word_bytes ntohl_htonl)
  have ft: "Failure \<notin> set (script t)" "length d \<le> chunks (script t)"
    using t(3) f by (auto simp: spends_def)
  obtain t' where t': "readn (replicate BUFFER_LENGTH 0) 0 (length d) t
      = Inr (int (length d), d @ replicate (BUFFER_LENGTH - length d) 0, t')" "inq t' = rest" "spends (length d) t t'"
    using readn_ok [of "length d" t 0 "replicate BUFFER_LENGTH 0"] t(2) ft d(1) by auto
  have "fputs (d @ replicate (BUFFER_LENGTH - length d) 0) = Inr d"
    using fputs_terminated [OF d(2)] d(1) by simp
  then have "packet_recv_loop zero_packet out s = packet_recv_loop zero_packet (out @ d) t'"
    unfolding packet_recv_loop.simps [of zero_packet out s] z t(1) bnd_Inr prod.case n Let_def small_len [OF d(1)] t'(1)
    by simp
  moreover have "spends (length (packet d)) s t'" using spends_trans [OF t(3) t'(3)] by simp
  ultimately show ?thesis using t'(2) by blast
qed

lemma recv_packets:
  assumes "inq s = concat (map packet ds)" "fin s" "\<forall>d\<in>set ds. length d < BUFFER_LENGTH \<and> 0 \<notin> set d"
    and "Failure \<notin> set (script s)" "length (inq s) < chunks (script s)"
  shows "\<exists>s'. packet_recv_loop zero_packet out s = Inr (out @ concat ds, s')"
  using assms
proof (induction ds arbitrary: s out)
  case Nil
  have "\<exists>s'. readn (replicate 4 0) 0 4 s = Inr (0, replicate 4 0, s')"
    using Nil.prems
  proof (induction "length (script s)" arbitrary: s rule: less_induct)
    case less
    have e: "inq s = []" "0 < chunks (script s)" using less.prems by simp_all
    show ?case
      using less.prems(4) e(2)
    proof (cases rule: sys_recv_cases [of s False 4])
      case (intr t)
      have "\<exists>s'. readn (replicate 4 0) 0 4 t = Inr (0, replicate 4 0, s')"
        using less.hyps [OF intr(4)] less.prems intr(2,3) by (auto simp: spends_def)
      then show ?thesis using intr(1) by (simp add: readn_def readn_loop.simps [of _ _ _ _ s])
    next
      case (data k r)
      then show ?thesis using e(1) less.prems(2)
        by (simp add: readn_def readn_loop.simps [of _ _ _ _ s] sys_recv_def)
    qed
  qed
  then obtain s' where "readn (len_bytes zero_packet) 0 4 s = Inr (0, replicate 4 0, s')"
    by (auto simp: zero_packet_def)
  then show ?case by (simp add: packet_recv_loop.simps [of zero_packet out s])
next
  case (Cons d ds)
  have "inq s = packet d @ concat (map packet ds)" "length (packet d) \<le> chunks (script s)"
    using Cons.prems(1,5) by simp_all
  then obtain t where t: "packet_recv_loop zero_packet out s = packet_recv_loop zero_packet (out @ d) t"
    "inq t = concat (map packet ds)" "spends (length (packet d)) s t"
    using recv_packet [of s d _ out] Cons.prems(3,4) by auto
  have "Failure \<notin> set (script t)" "length (inq t) < chunks (script t)" "fin t"
    using t(2,3) Cons.prems(1,2,4,5) by (auto simp: spends_def)
  then show ?case using Cons.IH [OF t(2), of "out @ d"] Cons.prems(3) t(1) by simp
qed

subsection \<open>The sender\<close>

lemma keyboard_packets:
  assumes "0 \<notin> set inp" "W_failure \<notin> set (wscript s)" "5 * length inp \<le> accepts (wscript s)"
  shows "\<exists>s' ds. packet_keyboard inp s = Inr s' \<and> sent s' = sent s @ concat (map packet ds) \<and>
    concat ds = inp \<and> (\<forall>d\<in>set ds. length d < BUFFER_LENGTH \<and> 0 \<notin> set d) \<and>
    length (concat (map packet ds)) \<le> 5 * length inp"
  using assms
proof (induction "length inp" arbitrary: inp s rule: less_induct)
  case less
  show ?case
  proof (cases "fgets BUFFER_LENGTH inp")
    case None
    then have "inp = []" by (auto simp: fgets_def Let_def split: if_splits)
    then show ?thesis using None by (intro exI [of _ s] exI [of _ "[]"]) (simp add: packet_keyboard.simps)
  next
    case (Some p)
    obtain d rest where p: "p = (d, rest)" by (cases p)
    have f: "inp = d @ rest" "d \<noteq> []" "length d < BUFFER_LENGTH" "length rest < length inp"
      using fgets_progress [of BUFFER_LENGTH inp d rest] Some p by auto
    have nul: "0 \<notin> set d" "0 \<notin> set rest" using less.prems(1) f(1) by auto
    obtain n where ld: "length d = Suc n" using f(2) by (cases d) auto
    have "length (packet d) \<le> accepts (wscript s)"
      using less.prems(3) f(1) ld by simp
    then obtain t where t: "writen (packet d) s = Inr (int (length (packet d)), t)" "sent t = sent s @ packet d"
      "w_spends (length (packet d)) s t" using writen_ok [OF less.prems(2)] by blast
    have "W_failure \<notin> set (wscript t)" "5 * length rest \<le> accepts (wscript t)"
      using t(3) less.prems(2,3) f(1) ld by (auto simp: w_spends_def)
    then obtain s' ds where s': "packet_keyboard rest t = Inr s'" "sent s' = sent t @ concat (map packet ds)"
      "concat ds = rest" "\<forall>d\<in>set ds. length d < BUFFER_LENGTH \<and> 0 \<notin> set d"
      "length (concat (map packet ds)) \<le> 5 * length rest"
      using less.hyps [OF f(4) nul(2)] by blast
    have "packet_keyboard inp s = Inr s'"
      using Some p s'(1) t(1) unfolding packet_def
      by (subst packet_keyboard.simps) (simp add: c_str_no_nul [OF nul(1)] Let_def)
    then show ?thesis
      using s' t(2) f nul ld by (intro exI [of _ s'] exI [of _ "d # ds"]) simp
  qed
qed

subsection \<open>A length beyond the buffer\<close>

lemma readn_loop_overflow:
  assumes "length buf < off + nleft" "off \<le> length buf" "length buf < off + length (inq s)"
    and "Failure \<notin> set (script s)" "length buf < off + chunks (script s)"
  shows "readn_loop buf off nleft count s = Inl (Fault OutOfBounds)"
  using assms
proof (induction "length (script s)" arbitrary: s buf off nleft rule: less_induct)
  case less
  have pos: "0 < nleft" "0 < chunks (script s)" "inq s \<noteq> []" using less.prems by auto
  note eq = readn_loop.simps [of buf off nleft count s]
  from less.prems(4) pos(2) show ?case
  proof (cases rule: sys_recv_cases [of s False nleft])
    case (intr t)
    have "readn_loop buf off nleft count t = Inl (Fault OutOfBounds)"
      using less.prems intr(2,3) by (intro less.hyps [OF intr(4)]) (auto simp: spends_def)
    then show ?thesis using pos(1) intr(1) by (simp add: eq)
  next
    case (data k r)
    define bs where "bs = take (min nleft (Suc k)) (inq s)"
    have rc: "sys_recv False nleft s = Inr (Data bs, s\<lparr>inq := drop (min nleft (Suc k)) (inq s), script := r\<rparr>)"
      using data pos by (simp add: sys_recv_def Let_def bs_def)
    let ?t = "s\<lparr>inq := drop (min nleft (Suc k)) (inq s), script := r\<rparr>"
    have bs: "bs \<noteq> []" "length bs = min (length (inq s)) (min nleft (Suc k))" using pos by (simp_all add: bs_def)
    show ?thesis
    proof (cases "off + length bs \<le> length buf")
      case False
      then have "store buf off bs = Inl (Fault OutOfBounds)" using bs(1) by (simp add: store_def)
      then show ?thesis using pos(1) rc bs(1) by (simp add: eq)
    next
      case True
      define b where "b = take off buf @ bs @ drop (off + length bs) buf"
      have st: "store buf off bs = Inr b" using store_ok [OF True] by (simp add: b_def)
      have lb: "length b = length buf" using True by (simp add: b_def)
      have "min (length (inq s)) (min nleft (Suc k)) = min nleft (Suc k)"
        using True bs(2) less.prems(1,3) by linarith
      then have l: "length bs = min nleft (Suc k)" "length (inq ?t) = length (inq s) - length bs"
        using bs(2) by simp_all
      have "0 < length bs" using bs(1) by simp
      then have "readn_loop b (off + length bs) (nleft - length bs) count ?t = Inl (Fault OutOfBounds)"
        using less.prems True lb l data
        by (intro less.hyps) (auto simp: data)
      then show ?thesis using pos(1) rc bs(1) st by (simp add: eq)
    qed
  qed
qed

subsection \<open>What the packet protocol promises\<close>

text \<open>C18: a whole session from terminal to terminal. Everything typed at one end (any text without NUL
  bytes, of any length, lines longer than the buffer included) is printed at the other end, unchanged and
  completely, and the receiver then sees the end of the stream. The kernels may split and delay the stream
  and interrupt the calls as they like.\<close>

theorem session_roundtrip:
  assumes "0 \<notin> set stdin" "sent k = []" "W_failure \<notin> set (wscript k)" "5 * length stdin \<le> accepts (wscript k)"
    and "Failure \<notin> set (script s)" "5 * length stdin < chunks (script s)"
  shows "\<exists>k' s'. packet_keyboard stdin k = Inr k' \<and>
    packet_recv (s\<lparr>inq := sent k', fin := True\<rparr>) = Inr (stdin, s')"
proof -
  obtain k' ds where k': "packet_keyboard stdin k = Inr k'" "sent k' = concat (map packet ds)" "concat ds = stdin"
    "\<forall>d\<in>set ds. length d < BUFFER_LENGTH \<and> 0 \<notin> set d" "length (concat (map packet ds)) \<le> 5 * length stdin"
    using keyboard_packets [OF assms(1,3,4)] assms(2) by auto
  let ?s = "s\<lparr>inq := sent k', fin := True\<rparr>"
  have "\<exists>s'. packet_recv_loop zero_packet [] ?s = Inr ([] @ concat ds, s')"
    by (rule recv_packets) (use k' assms(5,6) in simp_all)
  with k' show ?thesis by (auto simp: packet_recv_def)
qed

theorem session_roundtrip_witness:
  "\<exists>k' s'. packet_keyboard [104, 105] \<lparr>inq = [], fin = False, script = [], sent = [],
      wscript = W_interrupt # Accept 0 # replicate 12 (Accept (Suc 0))\<rparr> = Inr k' \<and>
    packet_recv \<lparr>inq = sent k', fin = True, script = Interrupt # replicate 12 (Chunk 2), sent = [], wscript = []\<rparr>
      = Inr ([104, 105], s')"
  using session_roundtrip [of "[104, 105]" "\<lparr>inq = [], fin = False, script = [], sent = [],
      wscript = W_interrupt # Accept 0 # replicate 12 (Accept (Suc 0))\<rparr>"
      "\<lparr>inq = [], fin = False, script = Interrupt # replicate 12 (Chunk 2), sent = [], wscript = []\<rparr>"]
  by simp

text \<open>The receiver trusts the length it is sent: a packet whose length exceeds \<open>BUFFER_LENGTH\<close>,
  followed by more than \<open>BUFFER_LENGTH\<close> bytes, makes \<open>readn\<close> write behind the end of the structure.\<close>

theorem packet_length_unchecked:
  assumes "inq s = word_bytes (htonl w) @ d" "BUFFER_LENGTH < size_of_int w" "BUFFER_LENGTH < length d"
    and "Failure \<notin> set (script s)" "4 + BUFFER_LENGTH < chunks (script s)"
  shows "packet_recv s = Inl (Fault OutOfBounds)"
proof -
  have z: "len_bytes zero_packet = replicate 4 0" "packet_buf zero_packet = replicate BUFFER_LENGTH 0"
    by (simp_all add: zero_packet_def)
  obtain t where t: "readn (replicate 4 0) 0 4 s = Inr (4, word_bytes (htonl w), t)" "inq t = d" "spends 4 s t"
    using readn_ok [of 4 s 0 "replicate 4 0"] assms(1,4,5) by auto
  have "readn (replicate BUFFER_LENGTH 0) 0 (size_of_int w) t = Inl (Fault OutOfBounds)"
    unfolding readn_def
    by (rule readn_loop_overflow) (use t(2,3) assms in \<open>auto simp: spends_def\<close>)
  then show ?thesis
    unfolding packet_recv_def packet_recv_loop.simps [of zero_packet "[]" s] z t(1) bnd_Inr prod.case
    by (simp add: bytes_word_bytes ntohl_htonl Let_def)
qed

theorem packet_length_unchecked_witness:
  "packet_recv \<lparr>inq = word_bytes (htonl 2000) @ replicate 1025 65, fin = False,
     script = replicate 1029 (Chunk 99), sent = [], wscript = []\<rparr> = Inl (Fault OutOfBounds)"
  using packet_length_unchecked [of "\<lparr>inq = word_bytes (htonl 2000) @ replicate 1025 65, fin = False,
     script = replicate 1029 (Chunk 99), sent = [], wscript = []\<rparr>" 2000 "replicate 1025 65"]
  by (simp add: size_of_int_def)

end
