(* ===== verification/SemModel.thy ===== *)
theory SemModel
  imports Prelude "HOL-Library.Word"
begin

text \<open>
  System V semaphores as the programs of \<open>process/ipc/codes\<close> use them, their wrappers \<open>sem_create\<close>,
  \<open>sem_open\<close>, \<open>sem_setval\<close>, \<open>sem_getval\<close>, \<open>sem_delete\<close>, \<open>sem_p\<close> and \<open>sem_v\<close> (\<open>produce-consume/sem.c\<close>,
  \<open>semtool/sem.c\<close>), and the command line tool \<open>semtool/sem.c\<close>.

  \<^item> The kernel's part is \<open>sem_kernel\<close>: keys to identifiers, identifiers to the values of the semaphores of
    the set. \<open>sys_semget\<close>, \<open>sys_semctl_\<close>... and \<open>sys_semop\<close> are the system calls as documented: a call
    returns \<open>-1\<close> on an error; a \<open>semop\<close> is performed as a whole or, when one of its operations would make
    a value negative, blocks (\<open>Inl Blocked\<close>, nothing changed).
  \<^item> The wrappers turn \<open>-1\<close> into \<open>ERR_EXIT\<close>: \<open>Inl Exit_failure\<close>.
  \<^item> \<open>semtool_main\<close> is \<open>main\<close> of \<open>semtool/sem.c\<close>, with the first call of \<open>getopt\<close> and with \<open>atoi\<close> of the C
    library written out.
\<close>

subsection \<open>The kernel\<close>

definition SEMVMX :: int where
  "SEMVMX = 32767"

definition IPC_PRIVATE :: int where
  "IPC_PRIVATE = 0"

record sem_kernel =
  sem_ids :: "int \<rightharpoonup> nat"
  sem_sets :: "nat \<rightharpoonup> int list"
  next_semid :: nat

definition sem_boot :: sem_kernel where
  "sem_boot = \<lparr>sem_ids = Map.empty, sem_sets = Map.empty, next_semid = 0\<rparr>"

text \<open>\<open>semget(key, nsems, flags)\<close>; Linux gives the semaphores of a new set the value 0.\<close>

definition sys_semget :: "int \<Rightarrow> nat \<Rightarrow> bool \<Rightarrow> bool \<Rightarrow> sem_kernel \<Rightarrow> int \<times> sem_kernel" where
  "sys_semget key nsems creat excl k =
     (case if key = IPC_PRIVATE then None else sem_ids k key of
        Some i \<Rightarrow>
          if creat \<and> excl \<or> length (the (sem_sets k i)) < nsems then (-1, k) else (int i, k)
      | None \<Rightarrow>
          if \<not> (creat \<or> key = IPC_PRIVATE) \<or> nsems = 0 then (-1, k)
          else (int (next_semid k),
                k\<lparr>sem_ids := (if key = IPC_PRIVATE then sem_ids k else (sem_ids k)(key \<mapsto> next_semid k)),
                  sem_sets := (sem_sets k)(next_semid k \<mapsto> replicate nsems 0),
                  next_semid := Suc (next_semid k)\<rparr>))"

definition sys_semctl_setval :: "nat \<Rightarrow> nat \<Rightarrow> int \<Rightarrow> sem_kernel \<Rightarrow> int \<times> sem_kernel" where
  "sys_semctl_setval semid num val k =
     (case sem_sets k semid of
        None \<Rightarrow> (-1, k)
      | Some vs \<Rightarrow>
          if num < length vs \<and> 0 \<le> val \<and> val \<le> SEMVMX
          then (0, k\<lparr>sem_sets := (sem_sets k)(semid \<mapsto> vs[num := val])\<rparr>)
          else (-1, k))"

definition sys_semctl_getval :: "nat \<Rightarrow> nat \<Rightarrow> sem_kernel \<Rightarrow> int" where
  "sys_semctl_getval semid num k =
     (case sem_sets k semid of
        None \<Rightarrow> -1
      | Some vs \<Rightarrow> if num < length vs then vs ! num else -1)"

definition sys_semctl_rmid :: "nat \<Rightarrow> sem_kernel \<Rightarrow> int \<times> sem_kernel" where
  "sys_semctl_rmid semid k =
     (case sem_sets k semid of
        None \<Rightarrow> (-1, k)
      | Some vs \<Rightarrow>
          (0, k\<lparr>sem_ids := (\<lambda>key. if sem_ids k key = Some semid then None else sem_ids k key),
                sem_sets := (sem_sets k)(semid := None)\<rparr>))"

text \<open>The operations of one \<open>semop\<close>, in order, on the values of the set. \<open>Inr None\<close> is the error \<open>ERANGE\<close>.\<close>

fun semop_apply :: "(nat \<times> int) list \<Rightarrow> int list \<Rightarrow> int list option run" where
  "semop_apply [] vs = Inr (Some vs)"
| "semop_apply ((n, d) # ops) vs =
     (if d = 0 \<and> vs ! n \<noteq> 0 \<or> vs ! n + d < 0 then Inl Blocked
      else if SEMVMX < vs ! n + d then Inr None
      else semop_apply ops (vs[n := vs ! n + d]))"

definition sys_semop :: "nat \<Rightarrow> (nat \<times> int) list \<Rightarrow> sem_kernel \<Rightarrow> (int \<times> sem_kernel) run" where
  "sys_semop semid sops k =
     (case sem_sets k semid of
        None \<Rightarrow> Inr (-1, k)
      | Some vs \<Rightarrow>
          if sops = [] \<or> (\<exists>(n, d)\<in>set sops. length vs \<le> n) then Inr (-1, k)
          else bnd (semop_apply sops vs) (\<lambda>r. case r of
                 None \<Rightarrow> Inr (-1, k)
               | Some vs' \<Rightarrow> Inr (0, k\<lparr>sem_sets := (sem_sets k)(semid \<mapsto> vs')\<rparr>)))"

subsection \<open>The wrappers\<close>

definition sem_create :: "int \<Rightarrow> sem_kernel \<Rightarrow> (nat \<times> sem_kernel) run" where
  "sem_create key k =
     (let (semid, k) = sys_semget key 1 True True k in
      if semid = -1 then Inl Exit_failure else Inr (nat semid, k))"

definition sem_open :: "int \<Rightarrow> sem_kernel \<Rightarrow> (nat \<times> sem_kernel) run" where
  "sem_open key k =
     (let (semid, k) = sys_semget key 0 False False k in
      if semid = -1 then Inl Exit_failure else Inr (nat semid, k))"

definition sem_setval :: "nat \<Rightarrow> int \<Rightarrow> sem_kernel \<Rightarrow> sem_kernel run" where
  "sem_setval semid val k =
     (let (r, k) = sys_semctl_setval semid 0 val k in
      if r = -1 then Inl Exit_failure else Inr k)"

definition sem_getval :: "nat \<Rightarrow> sem_kernel \<Rightarrow> int run" where
  "sem_getval semid k =
     (let r = sys_semctl_getval semid 0 k in
      if r = -1 then Inl Exit_failure else Inr r)"

definition sem_delete :: "nat \<Rightarrow> sem_kernel \<Rightarrow> sem_kernel run" where
  "sem_delete semid k =
     (let (r, k) = sys_semctl_rmid semid k in
      if r = -1 then Inl Exit_failure else Inr k)"

definition semop_or_exit :: "nat \<Rightarrow> (nat \<times> int) list \<Rightarrow> sem_kernel \<Rightarrow> sem_kernel run" where
  "semop_or_exit semid sops k =
     bnd (sys_semop semid sops k) (\<lambda>(r, k). if r = -1 then Inl Exit_failure else Inr k)"

definition sem_p :: "nat \<Rightarrow> sem_kernel \<Rightarrow> sem_kernel run" where
  "sem_p semid k = semop_or_exit semid [(0, -1)] k"

definition sem_v :: "nat \<Rightarrow> sem_kernel \<Rightarrow> sem_kernel run" where
  "sem_v semid k = semop_or_exit semid [(0, 1)] k"

subsection \<open>The command line tool\<close>

datatype opt_result = Opt char string | Unknown_opt | No_more_opts

text \<open>\<open>lookup_opt c os\<close>: is \<open>c\<close> an option of \<open>os\<close>, and does a colon behind it say that it has a value?\<close>

fun lookup_opt :: "char \<Rightarrow> string \<Rightarrow> bool option" where
  "lookup_opt c [] = None"
| "lookup_opt c (x # xs) =
     (if x = c \<and> c \<noteq> CHR '':'' then Some (xs \<noteq> [] \<and> hd xs = CHR '':'') else lookup_opt c xs)"

fun getopt_first :: "string \<Rightarrow> string list \<Rightarrow> opt_result" where
  "getopt_first os [] = No_more_opts"
| "getopt_first os (a # as) =
     (case a of
        [] \<Rightarrow> getopt_first os as
      | [x] \<Rightarrow> getopt_first os as
      | x # c # r \<Rightarrow>
          if x \<noteq> CHR ''-'' then getopt_first os as
          else if c = CHR ''-'' \<and> r = [] then No_more_opts
          else (case lookup_opt c os of
                  None \<Rightarrow> Unknown_opt
                | Some False \<Rightarrow> Opt c []
                | Some True \<Rightarrow>
                    if r \<noteq> [] then Opt c r
                    else (case as of [] \<Rightarrow> Unknown_opt | b # _ \<Rightarrow> Opt c b)))"

definition isspace :: "char \<Rightarrow> bool" where
  "isspace c = (c = CHR '' '' \<or> 9 \<le> (of_char c :: nat) \<and> (of_char c :: nat) \<le> 13)"

definition digit_of :: "char \<Rightarrow> nat option" where
  "digit_of c = (let n = (of_char c :: nat) in if 48 \<le> n \<and> n \<le> 57 then Some (n - 48) else None)"

fun digits_value :: "string \<Rightarrow> nat \<Rightarrow> nat" where
  "digits_value [] acc = acc"
| "digits_value (c # cs) acc =
     (case digit_of c of None \<Rightarrow> acc | Some d \<Rightarrow> digits_value cs (10 * acc + d))"

text \<open>\<open>atoi\<close> is \<open>(int) strtol(s, NULL, 10)\<close>: the value is clamped to 64 bits and cut to 32.\<close>

definition atoi :: "string \<Rightarrow> int" where
  "atoi s =
     (let s = dropWhile isspace s;
          v = (case s of
                 [] \<Rightarrow> 0
               | c # r \<Rightarrow> if c = CHR ''-'' then - int (digits_value r 0)
                           else if c = CHR ''+'' then int (digits_value r 0)
                           else int (digits_value s 0))
      in sint (word_of_int (max (- (2 ^ 63)) (min (2 ^ 63 - 1) v)) :: 32 word))"

datatype semtool_out = Usage | Current_value int

definition print_usage :: "semtool_out list" where
  "print_usage = [Usage]"

text \<open>\<open>argv\<close> is the program name and the arguments; \<open>key\<close> is what \<open>ftok(".", 's')\<close> returned.\<close>

definition semtool_main :: "string list \<Rightarrow> int \<Rightarrow> sem_kernel \<Rightarrow> (semtool_out list \<times> sem_kernel) run" where
  "semtool_main argv key k =
     (let out = (if length argv \<noteq> 2 \<and> length argv \<noteq> 3 then print_usage else []) in
      case getopt_first ''hcds:pv'' (tl argv) of
        Unknown_opt \<Rightarrow> Inr (out, k)
      | No_more_opts \<Rightarrow> Inr (out, k)
      | Opt c optarg \<Rightarrow>
          if c = CHR ''h'' then Inr (out @ print_usage, k)
          else if c = CHR ''c'' then bnd (sem_create key k) (\<lambda>(semid, k). Inr (out, k))
          else if c = CHR ''d'' then
            bnd (sem_open key k) (\<lambda>(semid, k). bnd (sem_delete semid k) (\<lambda>k. Inr (out, k)))
          else if c = CHR ''s'' then
            bnd (sem_open key k) (\<lambda>(semid, k).
            bnd (sem_setval semid (atoi optarg) k) (\<lambda>k. Inr (out, k)))
          else if c = CHR ''p'' then
            bnd (sem_open key k) (\<lambda>(semid, k). bnd (sem_p semid k) (\<lambda>k.
            bnd (sem_getval semid k) (\<lambda>v. Inr (out @ [Current_value v], k))))
          else if c = CHR ''v'' then
            bnd (sem_open key k) (\<lambda>(semid, k). bnd (sem_v semid k) (\<lambda>k.
            bnd (sem_getval semid k) (\<lambda>v. Inr (out @ [Current_value v], k))))
          else Inr (out, k))"

text \<open>Several runs of the tool, one after the other, on one kernel; the outputs in order.\<close>

fun semtool_runs :: "string list list \<Rightarrow> int \<Rightarrow> sem_kernel \<Rightarrow> (semtool_out list \<times> sem_kernel) run" where
  "semtool_runs [] key k = Inr ([], k)"
| "semtool_runs (argv # rest) key k =
     bnd (semtool_main argv key k) (\<lambda>(out, k).
     bnd (semtool_runs rest key k) (\<lambda>(out', k). Inr (out @ out', k)))"

end
