(* ===== verification/SemtoolProps.thy ===== *)
theory SemtoolProps
  imports SemModel
begin

text \<open>
  What the semaphore wrappers and \<open>semtool\<close> promise: the kernel's tables stay well formed whatever the
  command line, and a set that \<open>semtool\<close> has created and initialised behaves as a bounded counter.

  \<^item> \<open>sem_values\<close>: the effect of the wrappers on one set, used by every program below that has a single
    semaphore per set.
  \<^item> \<open>semtool_spec\<close>: the tool on a table of counters, which \<open>semtool_main\<close> implements.
  \<^item> \<open>counter\<close>: the abstract specification of a sequence of \<open>-p\<close> and \<open>-v\<close> runs.
\<close>

named_theorems sem_values "the wrappers on a set with one semaphore"

subsection \<open>The wrappers on a set of one semaphore\<close>

lemma SEMVMX_bounds [simp]: "0 \<le> SEMVMX" "0 < SEMVMX"
  by (simp_all add: SEMVMX_def)

text \<open>\<open>k\<close> with the value of the one semaphore of set \<open>i\<close> replaced.\<close>

definition put_value :: "nat \<Rightarrow> int \<Rightarrow> sem_kernel \<Rightarrow> sem_kernel" where
  "put_value i v k = k\<lparr>sem_sets := (sem_sets k)(i \<mapsto> [v])\<rparr>"

lemma put_value_simps [simp]:
  "sem_sets (put_value i v k) = (sem_sets k)(i \<mapsto> [v])"
  "sem_ids (put_value i v k) = sem_ids k"
  "next_semid (put_value i v k) = next_semid k"
  "put_value i w (put_value i v k) = put_value i w k"
  by (simp_all add: put_value_def)

lemma put_value_same: "sem_sets k i = Some [v] \<Longrightarrow> put_value i v k = k"
  by (cases k) (simp add: put_value_def map_upd_triv)

lemma semop_or_exit_one [sem_values]:
  "sem_sets k i = Some [v] \<Longrightarrow> d \<noteq> 0 \<Longrightarrow> semop_or_exit i [(0, d)] k =
     (if v + d < 0 then Inl Blocked else if SEMVMX < v + d then Inl Exit_failure
      else Inr (put_value i (v + d) k))"
  by (simp add: semop_or_exit_def sys_semop_def put_value_def)

lemma sem_p_one [sem_values]:
  "sem_sets k i = Some [v] \<Longrightarrow> 0 \<le> v \<Longrightarrow> v \<le> SEMVMX \<Longrightarrow> sem_p i k =
     (if v = 0 then Inl Blocked else Inr (put_value i (v - 1) k))"
  by (simp add: sem_p_def semop_or_exit_one)

lemma sem_v_one [sem_values]:
  "sem_sets k i = Some [v] \<Longrightarrow> 0 \<le> v \<Longrightarrow> v \<le> SEMVMX \<Longrightarrow> sem_v i k =
     (if v = SEMVMX then Inl Exit_failure else Inr (put_value i (v + 1) k))"
  by (simp add: sem_v_def semop_or_exit_one)

lemma sem_setval_one [sem_values]:
  "sem_sets k i = Some [v] \<Longrightarrow> sem_setval i w k =
     (if 0 \<le> w \<and> w \<le> SEMVMX then Inr (put_value i w k) else Inl Exit_failure)"
  by (simp add: sem_setval_def sys_semctl_setval_def put_value_def)

lemma sem_getval_one [sem_values]:
  "sem_sets k i = Some [v] \<Longrightarrow> 0 \<le> v \<Longrightarrow> sem_getval i k = Inr v"
  by (simp add: sem_getval_def sys_semctl_getval_def Let_def)

lemma sem_open_key [sem_values]:
  "key \<noteq> IPC_PRIVATE \<Longrightarrow> sem_open key k =
     (case sem_ids k key of None \<Rightarrow> Inl Exit_failure | Some i \<Rightarrow> Inr (i, k))"
  by (simp add: sem_open_def sys_semget_def split: option.split)

lemma sem_create_key [sem_values]:
  "key \<noteq> IPC_PRIVATE \<Longrightarrow> sem_create key k =
     (case sem_ids k key of Some i \<Rightarrow> Inl Exit_failure
      | None \<Rightarrow> Inr (next_semid k, k\<lparr>sem_ids := (sem_ids k)(key \<mapsto> next_semid k),
                   sem_sets := (sem_sets k)(next_semid k \<mapsto> [0]), next_semid := Suc (next_semid k)\<rparr>))"
  by (simp add: sem_create_def sys_semget_def split: option.split)

subsection \<open>The tables stay well formed\<close>

definition values_ok :: "int list \<Rightarrow> bool" where
  "values_ok vs = (vs \<noteq> [] \<and> list_all (\<lambda>v. 0 \<le> v \<and> v \<le> SEMVMX) vs)"

definition sem_wf :: "sem_kernel \<Rightarrow> bool" where
  "sem_wf k \<longleftrightarrow>
     IPC_PRIVATE \<notin> dom (sem_ids k) \<and> inj_on (sem_ids k) (dom (sem_ids k)) \<and>
     ran (sem_ids k) \<subseteq> dom (sem_sets k) \<and> dom (sem_sets k) \<subseteq> {..<next_semid k} \<and>
     (\<forall>vs\<in>ran (sem_sets k). values_ok vs)"

lemma values_ok_update: "values_ok vs \<Longrightarrow> 0 \<le> v \<Longrightarrow> v \<le> SEMVMX \<Longrightarrow> values_ok (vs[n := v])"
  by (auto simp: values_ok_def list_all_iff dest!: set_update_subset_insert [THEN subsetD])

lemma sem_wf_values: "sem_wf k \<Longrightarrow> sem_sets k i = Some vs \<Longrightarrow> values_ok vs"
  by (auto simp: sem_wf_def ran_def)

lemma sem_wf_set:
  assumes "sem_wf k" "sem_sets k i = Some vs" "values_ok ws"
  shows "sem_wf (k\<lparr>sem_sets := (sem_sets k)(i \<mapsto> ws)\<rparr>)"
proof -
  have "dom ((sem_sets k)(i \<mapsto> ws)) = dom (sem_sets k)" using assms(2) by auto
  moreover have "ran ((sem_sets k)(i \<mapsto> ws)) \<subseteq> insert ws (ran (sem_sets k))" by (auto simp: ran_def)
  ultimately show ?thesis using assms(1,3) by (auto simp: sem_wf_def)
qed

lemma semop_apply_ok: "semop_apply ops vs = Inr (Some ws) \<Longrightarrow> values_ok vs \<Longrightarrow> values_ok ws"
  by (induction ops vs rule: semop_apply.induct) (auto simp: values_ok_update split: if_splits)

lemma semop_or_exit_wf: "semop_or_exit i ops k = Inr k' \<Longrightarrow> sem_wf k \<Longrightarrow> sem_wf k'"
proof -
  assume step: "semop_or_exit i ops k = Inr k'" and wf: "sem_wf k"
  then obtain vs ws where vs: "sem_sets k i = Some vs" and ws: "semop_apply ops vs = Inr (Some ws)"
    and k': "k' = k\<lparr>sem_sets := (sem_sets k)(i \<mapsto> ws)\<rparr>"
    by (auto simp: semop_or_exit_def sys_semop_def bnd_eq_Inr split: option.splits if_splits)
  show "sem_wf k'"
    unfolding k' by (rule sem_wf_set [OF wf vs semop_apply_ok [OF ws sem_wf_values [OF wf vs]]])
qed

lemma sem_setval_wf: "sem_setval i v k = Inr k' \<Longrightarrow> sem_wf k \<Longrightarrow> sem_wf k'"
proof -
  assume step: "sem_setval i v k = Inr k'" and wf: "sem_wf k"
  then obtain vs where vs: "sem_sets k i = Some vs" and v: "0 \<le> v" "v \<le> SEMVMX"
    and k': "k' = k\<lparr>sem_sets := (sem_sets k)(i \<mapsto> vs[0 := v])\<rparr>"
    by (auto simp: sem_setval_def sys_semctl_setval_def split: option.splits if_splits)
  show "sem_wf k'"
    unfolding k' by (rule sem_wf_set [OF wf vs values_ok_update [OF sem_wf_values [OF wf vs] v]])
qed

lemma sem_create_wf:
  "key \<noteq> IPC_PRIVATE \<Longrightarrow> sem_create key k = Inr (i, k') \<Longrightarrow> sem_wf k \<Longrightarrow> sem_wf k'"
proof -
  assume key: "key \<noteq> IPC_PRIVATE" and step: "sem_create key k = Inr (i, k')" and wf: "sem_wf k"
  then have k': "k' = k\<lparr>sem_ids := (sem_ids k)(key \<mapsto> next_semid k),
      sem_sets := (sem_sets k)(next_semid k \<mapsto> [0]), next_semid := Suc (next_semid k)\<rparr>"
    by (auto simp: sem_create_key split: option.splits)
  have fresh: "sem_sets k (next_semid k) = None" "next_semid k \<notin> ran (sem_ids k)"
    using wf by (auto simp: sem_wf_def dom_def)
  then have "inj_on ((sem_ids k)(key \<mapsto> next_semid k)) (dom ((sem_ids k)(key \<mapsto> next_semid k)))"
    using wf by (auto simp: sem_wf_def inj_on_def ran_def)
  moreover have "ran ((sem_ids k)(key \<mapsto> next_semid k)) \<subseteq> insert (next_semid k) (ran (sem_ids k))"
    "ran ((sem_sets k)(next_semid k \<mapsto> [0])) \<subseteq> insert [0] (ran (sem_sets k))"
    by (auto simp: ran_def)
  moreover have "values_ok [0]" by (simp add: values_ok_def)
  ultimately show "sem_wf k'" using wf key unfolding k' sem_wf_def by (auto simp: less_Suc_eq)
qed

lemma sem_delete_wf: "sem_delete i k = Inr k' \<Longrightarrow> sem_wf k \<Longrightarrow> sem_wf k'"
proof -
  assume step: "sem_delete i k = Inr k'" and wf: "sem_wf k"
  then have k': "k' = k\<lparr>sem_ids := (\<lambda>key. if sem_ids k key = Some i then None else sem_ids k key),
      sem_sets := (sem_sets k)(i := None)\<rparr>"
    by (auto simp: sem_delete_def sys_semctl_rmid_def split: option.splits if_splits)
  let ?ids = "\<lambda>key. if sem_ids k key = Some i then None else sem_ids k key"
  have "dom ?ids \<subseteq> dom (sem_ids k)" "ran ?ids \<subseteq> ran (sem_ids k) - {i}"
    "ran ((sem_sets k)(i := None)) \<subseteq> ran (sem_sets k)"
    by (auto simp: ran_def split: if_splits)
  moreover have "inj_on ?ids (dom ?ids)" using wf by (auto simp: sem_wf_def inj_on_def dom_def split: if_splits)
  ultimately show "sem_wf k'" using wf unfolding k' sem_wf_def by auto
qed

subsection \<open>The commands\<close>

definition argv_p :: "string \<Rightarrow> string list" where
  "argv_p prog = [prog, ''-p'']"

definition argv_v :: "string \<Rightarrow> string list" where
  "argv_v prog = [prog, ''-v'']"

lemma semtool_p:
  "key \<noteq> IPC_PRIVATE \<Longrightarrow> sem_ids k key = Some i \<Longrightarrow> sem_sets k i = Some [v] \<Longrightarrow> 0 \<le> v \<Longrightarrow> v \<le> SEMVMX \<Longrightarrow>
   semtool_main (argv_p prog) key k =
     (if v = 0 then Inl Blocked
      else Inr ([Current_value (v - 1)], put_value i (v - 1) k))"
  by (simp add: argv_p_def semtool_main_def sem_values)

lemma semtool_v:
  "key \<noteq> IPC_PRIVATE \<Longrightarrow> sem_ids k key = Some i \<Longrightarrow> sem_sets k i = Some [v] \<Longrightarrow> 0 \<le> v \<Longrightarrow> v \<le> SEMVMX \<Longrightarrow>
   semtool_main (argv_v prog) key k =
     (if v = SEMVMX then Inl Exit_failure
      else Inr ([Current_value (v + 1)], put_value i (v + 1) k))"
  by (simp add: argv_v_def semtool_main_def sem_values)

lemma semtool_create:
  "key \<noteq> IPC_PRIVATE \<Longrightarrow> sem_ids k key = None \<Longrightarrow>
   semtool_main [prog, ''-c''] key k = Inr ([], k\<lparr>sem_ids := (sem_ids k)(key \<mapsto> next_semid k),
     sem_sets := (sem_sets k)(next_semid k \<mapsto> [0]), next_semid := Suc (next_semid k)\<rparr>)"
  by (simp add: semtool_main_def sem_values)

lemma semtool_set:
  "key \<noteq> IPC_PRIVATE \<Longrightarrow> sem_ids k key = Some i \<Longrightarrow> sem_sets k i = Some [v] \<Longrightarrow>
   semtool_main [prog, ''-s'', num] key k =
     (if 0 \<le> atoi num \<and> atoi num \<le> SEMVMX
      then Inr ([], put_value i (atoi num) k) else Inl Exit_failure)"
  by (simp add: semtool_main_def sem_values)

text \<open>The specification: \<open>True\<close> stands for a \<open>-p\<close>, \<open>False\<close> for a \<open>-v\<close>.\<close>

fun counter :: "bool list \<Rightarrow> int \<Rightarrow> (semtool_out list \<times> int) run" where
  "counter [] v = Inr ([], v)"
| "counter (True # cs) v =
     (if v = 0 then Inl Blocked
      else bnd (counter cs (v - 1)) (\<lambda>(out, w). Inr (Current_value (v - 1) # out, w)))"
| "counter (False # cs) v =
     (if v = SEMVMX then Inl Exit_failure
      else bnd (counter cs (v + 1)) (\<lambda>(out, w). Inr (Current_value (v + 1) # out, w)))"

definition argv_of :: "string \<Rightarrow> bool \<Rightarrow> string list" where
  "argv_of prog p = (if p then argv_p prog else argv_v prog)"

lemma semtool_counter:
  assumes "key \<noteq> IPC_PRIVATE" "sem_ids k key = Some i" "sem_sets k i = Some [v]" "0 \<le> v" "v \<le> SEMVMX"
  shows "semtool_runs (map (argv_of prog) cs) key k =
    bnd (counter cs v) (\<lambda>(out, w). Inr (out, put_value i w k))"
  using assms
proof (induction cs v arbitrary: k rule: counter.induct)
  case (1 v)
  then show ?case by (simp add: put_value_same)
next
  case (2 cs v)
  let ?k = "put_value i (v - 1) k"
  show ?case
  proof (cases "v = 0")
    case True
    then show ?thesis using 2 by (simp add: argv_of_def semtool_p)
  next
    case False
    then have "semtool_runs (map (argv_of prog) cs) key ?k =
        bnd (counter cs (v - 1)) (\<lambda>(out, w). Inr (out, put_value i w ?k))"
      using 2 by (intro "2.IH") auto
    then show ?thesis
      using 2 False by (cases "counter cs (v - 1)") (auto simp: argv_of_def semtool_p split: prod.split)
  qed
next
  case (3 cs v)
  let ?k = "put_value i (v + 1) k"
  show ?case
  proof (cases "v = SEMVMX")
    case True
    then show ?thesis using 3 by (simp add: argv_of_def semtool_v)
  next
    case False
    then have "semtool_runs (map (argv_of prog) cs) key ?k =
        bnd (counter cs (v + 1)) (\<lambda>(out, w). Inr (out, put_value i w ?k))"
      using 3 by (intro "3.IH") auto
    then show ?thesis
      using 3 False by (cases "counter cs (v + 1)") (auto simp: argv_of_def semtool_v split: prod.split)
  qed
qed

subsection \<open>What the tool promises\<close>

text \<open>Every command leaves well-formed tables behind: every key names an existing set, no two keys the same one, and every
  value lies between 0 and \<open>SEMVMX\<close>.\<close>

lemma semtool_wf:
  assumes "semtool_main argv key k = Inr (out, k')" "key \<noteq> IPC_PRIVATE" "sem_wf k"
  shows "sem_wf k'"
  using assms
  by (auto simp: semtool_main_def sem_open_key sem_p_def sem_v_def bnd_eq_Inr Let_def
      split: opt_result.splits if_splits option.splits
      intro: semop_or_exit_wf sem_setval_wf sem_create_wf sem_delete_wf)

text \<open>The abstract kernel: a table of counters by key. \<open>single k\<close>: the sets have one semaphore each, as \<open>sem_create\<close> makes them.\<close>

definition counters :: "sem_kernel \<Rightarrow> int \<rightharpoonup> int" where
  "counters k key = (case sem_ids k key of None \<Rightarrow> None | Some i \<Rightarrow> map_option hd (sem_sets k i))"

definition single :: "sem_kernel \<Rightarrow> bool" where
  "single k \<longleftrightarrow> (\<forall>vs\<in>ran (sem_sets k). length vs = 1)"

definition semtool_spec :: "opt_result \<Rightarrow> int \<Rightarrow> (int \<rightharpoonup> int) \<Rightarrow> (semtool_out list \<times> (int \<rightharpoonup> int)) run" where
  "semtool_spec opt key m =
     (case opt of
        Unknown_opt \<Rightarrow> Inr ([], m)
      | No_more_opts \<Rightarrow> Inr ([], m)
      | Opt c num \<Rightarrow>
          if c = CHR ''h'' then Inr ([Usage], m)
          else if c = CHR ''c'' then (if m key = None then Inr ([], m(key \<mapsto> 0)) else Inl Exit_failure)
          else if c \<in> {CHR ''d'', CHR ''s'', CHR ''p'', CHR ''v''} then
            (case m key of
               None \<Rightarrow> Inl Exit_failure
             | Some v \<Rightarrow>
                 if c = CHR ''d'' then Inr ([], m(key := None))
                 else if c = CHR ''s'' then
                   (if 0 \<le> atoi num \<and> atoi num \<le> SEMVMX then Inr ([], m(key \<mapsto> atoi num)) else Inl Exit_failure)
                 else if c = CHR ''p'' then
                   (if v = 0 then Inl Blocked else Inr ([Current_value (v - 1)], m(key \<mapsto> v - 1)))
                 else (if v = SEMVMX then Inl Exit_failure else Inr ([Current_value (v + 1)], m(key \<mapsto> v + 1))))
          else Inr ([], m))"

lemma counters_Some:
  assumes "sem_wf k" "single k" "counters k key = Some v"
  obtains i where "sem_ids k key = Some i" "sem_sets k i = Some [v]" "0 \<le> v" "v \<le> SEMVMX"
proof -
  obtain i vs where i: "sem_ids k key = Some i" "sem_sets k i = Some vs" "v = hd vs"
    using assms(3) by (auto simp: counters_def split: option.splits)
  have "length vs = 1" "values_ok vs"
    using assms(1,2) i(2) sem_wf_values by (auto simp: single_def ran_def)
  then show ?thesis
    using that i by (auto simp: length_Suc_conv values_ok_def)
qed

lemma counters_None:
  assumes "sem_wf k" "counters k key = None"
  shows "sem_ids k key = None"
proof (rule ccontr)
  assume "sem_ids k key \<noteq> None"
  then obtain i where i: "sem_ids k key = Some i"
    by auto
  then have "i \<in> ran (sem_ids k)"
    by (rule ranI)
  then have "i \<in> dom (sem_sets k)"
    using assms(1) unfolding sem_wf_def by blast
  then show False
    using assms(2) i by (auto simp: counters_def)
qed

text \<open>Another key has another set.\<close>

lemma other_key: "sem_wf k \<Longrightarrow> sem_ids k key = Some i \<Longrightarrow> sem_ids k key' = Some i \<Longrightarrow> key' = key"
  by (auto simp: sem_wf_def inj_on_def dom_def)

lemma counters_put:
  assumes "sem_wf k" "sem_ids k key = Some i"
  shows "counters (put_value i w k) = (counters k)(key \<mapsto> w)"
proof
  fix key'
  show "counters (put_value i w k) key' = ((counters k)(key \<mapsto> w)) key'"
  proof (cases "key' = key")
    case True
    then show ?thesis
      using assms(2) by (simp add: counters_def)
  next
    case False
    then have "sem_ids k key' \<noteq> Some i"
      using other_key [OF assms] by blast
    then show ?thesis
      using False by (simp add: counters_def split: option.split)
  qed
qed

lemma counters_create:
  assumes "sem_wf k"
  shows "counters (k\<lparr>sem_ids := (sem_ids k)(key \<mapsto> next_semid k), sem_sets := (sem_sets k)(next_semid k \<mapsto> [0]),
    next_semid := Suc (next_semid k)\<rparr>) = (counters k)(key \<mapsto> 0)"
proof -
  have "sem_ids k key' \<noteq> Some (next_semid k)" for key'
  proof
    assume "sem_ids k key' = Some (next_semid k)"
    then have "next_semid k \<in> dom (sem_sets k)"
      using assms unfolding sem_wf_def by (blast intro: ranI)
    then show False
      using assms unfolding sem_wf_def by blast
  qed
  then show ?thesis
    by (auto simp: counters_def split: option.split)
qed

lemma sem_delete_key:
  "sem_sets k i = Some vs \<Longrightarrow> sem_delete i k = Inr (k\<lparr>sem_ids := (\<lambda>key. if sem_ids k key = Some i then None else sem_ids k key),
     sem_sets := (sem_sets k)(i := None)\<rparr>)"
  by (simp add: sem_delete_def sys_semctl_rmid_def)

lemma counters_delete:
  assumes "sem_wf k" "sem_ids k key = Some i"
  shows "counters (k\<lparr>sem_ids := (\<lambda>key. if sem_ids k key = Some i then None else sem_ids k key),
     sem_sets := (sem_sets k)(i := None)\<rparr>) = (counters k)(key := None)"
proof
  fix key'
  show "counters (k\<lparr>sem_ids := (\<lambda>key. if sem_ids k key = Some i then None else sem_ids k key),
     sem_sets := (sem_sets k)(i := None)\<rparr>) key' = ((counters k)(key := None)) key'"
  proof (cases "key' = key")
    case True
    then show ?thesis
      using assms(2) by (simp add: counters_def)
  next
    case False
    then have "sem_ids k key' \<noteq> Some i"
      using other_key [OF assms] by blast
    then show ?thesis
      using False by (simp add: counters_def split: option.split)
  qed
qed

lemma single_put: "single k \<Longrightarrow> single (put_value i w k)"
  by (auto simp: single_def ran_def)

lemma single_create: "single k \<Longrightarrow> single (k\<lparr>sem_ids := m, sem_sets := (sem_sets k)(i \<mapsto> [0]), next_semid := n\<rparr>)"
  by (auto simp: single_def ran_def)

lemma single_delete: "single k \<Longrightarrow> single (k\<lparr>sem_ids := m, sem_sets := (sem_sets k)(i := None)\<rparr>)"
  by (auto simp: single_def ran_def)

text \<open>The outcome of a command on an absent and on a present key.\<close>

definition refines_to :: "semtool_out list \<Rightarrow> (semtool_out list \<times> sem_kernel) run \<Rightarrow> (semtool_out list \<times> (int \<rightharpoonup> int)) run \<Rightarrow> bool" where
  "refines_to pre r a \<longleftrightarrow>
     (case r of Inl e \<Rightarrow> a = Inl e | Inr (out, k) \<Rightarrow> single k \<and> (\<exists>out'. a = Inr (out', counters k) \<and> out = pre @ out'))"

lemma refines_to_simps [simp]:
  "refines_to pre (Inl e) (Inl e') \<longleftrightarrow> e = e'" "refines_to pre (Inl e) (Inr x) \<longleftrightarrow> False"
  "refines_to pre (Inr (pre @ out, k)) (Inr (out', m)) \<longleftrightarrow> single k \<and> out' = out \<and> m = counters k"
  "refines_to pre (Inr (pre, k)) (Inr (out', m)) \<longleftrightarrow> single k \<and> out' = [] \<and> m = counters k"
  by (auto simp: refines_to_def)

text \<open>The options one by one, for a key without a set and for one with a set.\<close>

lemma refines_absent:
  assumes "key \<noteq> IPC_PRIVATE" "sem_wf k" "single k" "counters k key = None" "argv_opt = Opt c num"
  shows "refines_to pre
     (if c = CHR ''h'' then Inr (pre @ [Usage], k)
      else if c = CHR ''c'' then bnd (sem_create key k) (\<lambda>(semid, k). Inr (pre, k))
      else if c = CHR ''d'' then bnd (sem_open key k) f
      else if c = CHR ''s'' then bnd (sem_open key k) g
      else if c = CHR ''p'' then bnd (sem_open key k) h
      else if c = CHR ''v'' then bnd (sem_open key k) h'
      else Inr (pre, k)) (semtool_spec argv_opt key (counters k))"
proof -
  have id: "sem_ids k key = None"
    using counters_None [OF assms(2,4)] .
  then have o: "sem_open key k = Inl Exit_failure"
    using sem_open_key [OF assms(1)] by simp
  have cr: "bnd (sem_create key k) (\<lambda>(semid, k). Inr (pre, k)) = Inr (pre, k\<lparr>sem_ids := (sem_ids k)(key \<mapsto> next_semid k),
      sem_sets := (sem_sets k)(next_semid k \<mapsto> [0]), next_semid := Suc (next_semid k)\<rparr>)"
    using sem_create_key [OF assms(1), of k] id by simp
  show ?thesis
    unfolding cr o bnd_Inl semtool_spec_def assms(5) opt_result.case
    using counters_create [OF assms(2), of key] single_create [OF assms(3)] assms(3,4) by simp
qed

lemma refines_present:
  assumes "key \<noteq> IPC_PRIVATE" "sem_wf k" "single k" "counters k key = Some v" "argv_opt = Opt c num"
  shows "refines_to pre
     (if c = CHR ''h'' then Inr (pre @ [Usage], k)
      else if c = CHR ''c'' then bnd (sem_create key k) (\<lambda>(semid, k). Inr (pre, k))
      else if c = CHR ''d'' then bnd (sem_open key k) (\<lambda>(semid, k). bnd (sem_delete semid k) (\<lambda>k. Inr (pre, k)))
      else if c = CHR ''s'' then bnd (sem_open key k) (\<lambda>(semid, k). bnd (sem_setval semid (atoi num) k) (\<lambda>k. Inr (pre, k)))
      else if c = CHR ''p'' then bnd (sem_open key k) (\<lambda>(semid, k). bnd (sem_p semid k) (\<lambda>k.
        bnd (sem_getval semid k) (\<lambda>v. Inr (pre @ [Current_value v], k))))
      else if c = CHR ''v'' then bnd (sem_open key k) (\<lambda>(semid, k). bnd (sem_v semid k) (\<lambda>k.
        bnd (sem_getval semid k) (\<lambda>v. Inr (pre @ [Current_value v], k))))
      else Inr (pre, k)) (semtool_spec argv_opt key (counters k))"
proof -
  obtain i where i: "sem_ids k key = Some i" "sem_sets k i = Some [v]" "0 \<le> v" "v \<le> SEMVMX"
    using counters_Some [OF assms(2,3,4)] .
  have o: "sem_open key k = Inr (i, k)" and cr: "sem_create key k = Inl Exit_failure"
    using sem_open_key [OF assms(1)] sem_create_key [OF assms(1)] i(1) by simp_all
  note eqs = sem_setval_one [OF i(2)] sem_p_one [OF i(2-4)] sem_v_one [OF i(2-4)] sem_delete_key [OF i(2)]
  have get: "sem_getval i (put_value i w k) = Inr w" if "0 \<le> w" for w
    using that by (simp add: sem_getval_one)
  have "0 \<le> v - 1" if "v \<noteq> 0"
    using that i(3) by simp
  then show ?thesis
    unfolding cr o bnd_Inl bnd_Inr prod.case eqs semtool_spec_def assms(5) opt_result.case
    using counters_put [OF assms(2) i(1)] counters_delete [OF assms(2) i(1)] single_put [OF assms(3)] single_delete [OF assms(3)]
      assms(3,4) get i(3) by simp
qed

lemma semtool_refines_spec:
  assumes "key \<noteq> IPC_PRIVATE" "sem_wf k" "single k"
  shows "refines_to (if length argv \<noteq> 2 \<and> length argv \<noteq> 3 then [Usage] else []) (semtool_main argv key k)
    (semtool_spec (getopt_first ''hcds:pv'' (tl argv)) key (counters k))"
proof (cases "getopt_first ''hcds:pv'' (tl argv)")
  case (Opt c num)
  note eq = semtool_main_def Let_def Opt opt_result.case print_usage_def
  show ?thesis
  proof (cases "counters k key")
    case None
    show ?thesis
      unfolding eq by (rule refines_absent [OF assms None refl])
  next
    case (Some v)
    show ?thesis
      unfolding eq by (rule refines_present [OF assms Some refl])
  qed
qed (simp_all only: semtool_main_def Let_def opt_result.case semtool_spec_def print_usage_def refines_to_simps assms simp_thms)

text \<open>C20: \<open>semtool\<close> implements a table of counters. On well-formed tables, whatever the command line, a run of it does what
  the specification \<open>semtool_spec\<close> says: it creates, removes, sets, lowers or raises the counter of its key, touches no
  other, prints the new value, fails or blocks in the same cases, and leaves well-formed tables behind; with a wrong number of
  arguments it prints its usage first.\<close>

theorem semtool_refines_table:
  assumes "key \<noteq> IPC_PRIVATE" "sem_wf k" "single k"
  shows "case semtool_main argv key k of
      Inl e \<Rightarrow> semtool_spec (getopt_first ''hcds:pv'' (tl argv)) key (counters k) = Inl e
    | Inr (out, k') \<Rightarrow> sem_wf k' \<and> single k' \<and>
        (\<exists>out'. semtool_spec (getopt_first ''hcds:pv'' (tl argv)) key (counters k) = Inr (out', counters k') \<and>
          out = (if length argv \<noteq> 2 \<and> length argv \<noteq> 3 then [Usage] else []) @ out')"
  using semtool_refines_spec [OF assms, of argv] semtool_wf [OF _ assms(1,2)]
  by (auto simp: refines_to_def split: sum.splits)

lemma sem_boot_wf: "sem_wf sem_boot"
  by (simp add: sem_wf_def sem_boot_def)

text \<open>Raising a counter that is 3.\<close>

definition one_counter :: sem_kernel where
  "one_counter = \<lparr>sem_ids = [7 \<mapsto> 0], sem_sets = [0 \<mapsto> [3]], next_semid = 1\<rparr>"

theorem semtool_refines_table_witness:
  "\<exists>k'. semtool_main [''semtool'', ''-v''] 7 one_counter = Inr ([Current_value 4], k') \<and> counters k' 7 = Some 4 \<and> sem_wf k'"
proof -
  have k: "sem_wf one_counter" "single one_counter" "counters one_counter 7 = Some 3"
    by (simp_all add: sem_wf_def single_def counters_def one_counter_def values_ok_def SEMVMX_def IPC_PRIVATE_def)
  have "getopt_first ''hcds:pv'' [''-v''] = Opt CHR ''v'' []"
    by simp
  then have "semtool_spec (getopt_first ''hcds:pv'' (tl [''semtool'', ''-v''])) 7 (counters one_counter) =
      Inr ([Current_value 4], (counters one_counter)(7 \<mapsto> 4))"
    using k(3) by (simp add: semtool_spec_def SEMVMX_def)
  then show ?thesis
    using semtool_refines_table [of 7 one_counter "[''semtool'', ''-v'']", OF _ k(1,2)]
    by (auto simp: IPC_PRIVATE_def split: sum.splits) (metis fun_upd_same)
qed

text \<open>C21: a semaphore created with \<open>-c\<close> and set with \<open>-s\<close> is a bounded counter for every sequence of
  \<open>-p\<close> and \<open>-v\<close> behind it: a \<open>-p\<close> at 0 blocks, a \<open>-v\<close> at \<open>SEMVMX\<close> exits with a failure, and otherwise each
  run prints the new value and the last one is what the kernel holds.\<close>

theorem semtool_is_counter:
  assumes "key \<noteq> IPC_PRIVATE" "sem_ids k key = None" "0 \<le> atoi num" "atoi num \<le> SEMVMX"
  shows "semtool_runs ([prog, ''-c''] # [prog, ''-s'', num] # map (argv_of prog) cs) key k =
    bnd (counter cs (atoi num)) (\<lambda>(out, w). Inr (out, \<lparr>sem_ids = (sem_ids k)(key \<mapsto> next_semid k),
      sem_sets = (sem_sets k)(next_semid k \<mapsto> [w]), next_semid = Suc (next_semid k)\<rparr>))"
proof -
  let ?k0 = "k\<lparr>sem_ids := (sem_ids k)(key \<mapsto> next_semid k),
    sem_sets := (sem_sets k)(next_semid k \<mapsto> [0]), next_semid := Suc (next_semid k)\<rparr>"
  let ?k = "put_value (next_semid k) (atoi num) ?k0"
  have "semtool_runs ([prog, ''-c''] # [prog, ''-s'', num] # map (argv_of prog) cs) key k =
      semtool_runs (map (argv_of prog) cs) key ?k"
    using assms
    by (cases "semtool_runs (map (argv_of prog) cs) key ?k") (auto simp: semtool_create semtool_set)
  also have "\<dots> = bnd (counter cs (atoi num)) (\<lambda>(out, w). Inr (out, put_value (next_semid k) w ?k))"
    using assms by (intro semtool_counter) auto
  finally show ?thesis by (cases k) (simp add: put_value_def)
qed

theorem semtool_is_counter_witness:
  "map_sum id fst (semtool_runs ([''semtool'', ''-c''] # [''semtool'', ''-s'', ''1''] #
      map (argv_of ''semtool'') [False, True]) 7 sem_boot) = Inr [Current_value 2, Current_value 1] \<and>
   map_sum id fst (semtool_runs ([''semtool'', ''-c''] # [''semtool'', ''-s'', ''1''] #
      map (argv_of ''semtool'') [True, True]) 7 sem_boot) = Inl Blocked"
proof -
  have "atoi ''1'' = 1" by (simp add: atoi_def isspace_def digit_of_def Let_def)
  then have "semtool_runs ([''semtool'', ''-c''] # [''semtool'', ''-s'', ''1''] #
      map (argv_of ''semtool'') cs) 7 sem_boot = bnd (counter cs 1) (\<lambda>(out, w). Inr (out,
      \<lparr>sem_ids = (sem_ids sem_boot)(7 \<mapsto> next_semid sem_boot),
       sem_sets = (sem_sets sem_boot)(next_semid sem_boot \<mapsto> [w]), next_semid = Suc (next_semid sem_boot)\<rparr>))" for cs
    using semtool_is_counter [of 7 sem_boot "''1''" "''semtool''" cs]
    by (simp add: IPC_PRIVATE_def sem_boot_def SEMVMX_def del: semtool_runs.simps)
  then show ?thesis by (simp only:) (simp add: SEMVMX_def)
qed

end
