(* ===== verification/Interleave.thy ===== *)
theory Interleave
  imports Prelude
begin

text \<open>
  Processes (or threads) that share memory and synchronise by semaphores or locks: the interleaving model
  of the programs of \<open>process/ipc/codes\<close>.

  \<^item> A process is a program counter in a list of calls, \<open>Calls\<close>, or in the body of a \<open>while(1)\<close>,
    \<open>Forever\<close>; a call is the list of its atomic actions. Each program has its own type of actions and says
    with \<open>exec i a w\<close> what process \<open>i\<close> does to the shared world \<open>w\<close> with action \<open>a\<close>: \<open>Inl Blocked\<close> when it
    has to wait, \<open>Inl Exit_failure\<close> when it calls \<open>exit(EXIT_FAILURE)\<close>.
  \<^item> \<open>pstep exec i c\<close> lets process \<open>i\<close> perform its next action; \<open>interleave\<close> is any process doing so;
    \<open>run_sched\<close> runs a given schedule.
  \<^item> The locale \<open>account\<close> is the way semaphores are reasoned about: a level of the shared world (the
    value of a semaphore, say) and what each process holds of it add up to a constant.
\<close>

text \<open>Two positions less than a round apart fall on different places of a ring.\<close>

lemma mod_neq_below: "k < m \<Longrightarrow> m - k < n \<Longrightarrow> k mod n \<noteq> m mod (n::nat)"
  by (metis less_imp_le_nat mod_eq_dvd_iff_nat nat_dvd_not_less zero_less_diff)

subsection \<open>Processes\<close>

datatype 'a code = Calls "'a list list" | Forever "'a list"

type_synonym 'a proc = "nat \<times> 'a code"

fun cur :: "'a proc \<Rightarrow> 'a option" where
  "cur (pc, Calls []) = None"
| "cur (pc, Calls (c # cs)) = (if pc < length c then Some (c ! pc) else None)"
| "cur (pc, Forever b) = (if pc < length b then Some (b ! pc) else None)"

fun advance :: "'a proc \<Rightarrow> 'a proc" where
  "advance (pc, Calls []) = (pc, Calls [])"
| "advance (pc, Calls (c # cs)) = (if Suc pc < length c then (Suc pc, Calls (c # cs)) else (0, Calls cs))"
| "advance (pc, Forever b) = (if Suc pc < length b then (Suc pc, Forever b) else (0, Forever b))"

definition ended :: "'a proc" where
  "ended = (0, Calls [])"

text \<open>\<open>one_group\<close>: the processes are the threads of one program, which \<open>exit\<close> ends as a whole.\<close>

record ('w, 'a) conf =
  shared :: 'w
  procs :: "'a proc list"
  one_group :: bool

definition pstep :: "(nat \<Rightarrow> 'a \<Rightarrow> 'w \<Rightarrow> 'w run) \<Rightarrow> nat \<Rightarrow> ('w, 'a) conf \<Rightarrow> ('w, 'a) conf run" where
  "pstep exec i c =
     (if i < length (procs c) then
        (case cur (procs c ! i) of
           None \<Rightarrow> Inl Blocked
         | Some a \<Rightarrow>
             (case exec i a (shared c) of
                Inr w \<Rightarrow> Inr (c\<lparr>shared := w, procs := (procs c)[i := advance (procs c ! i)]\<rparr>)
              | Inl Exit_failure \<Rightarrow>
                  Inr (c\<lparr>procs := (if one_group c then map (\<lambda>_. ended) (procs c) else (procs c)[i := ended])\<rparr>)
              | Inl e \<Rightarrow> Inl e))
      else Inl Blocked)"

inductive interleave :: "(nat \<Rightarrow> 'a \<Rightarrow> 'w \<Rightarrow> 'w run) \<Rightarrow> ('w, 'a) conf \<Rightarrow> ('w, 'a) conf \<Rightarrow> bool"
  for exec where
  interleave_step: "pstep exec i c = Inr c' \<Longrightarrow> interleave exec c c'"

inductive_cases interleaveE: "interleave exec c c'"

fun run_sched :: "(nat \<Rightarrow> 'a \<Rightarrow> 'w \<Rightarrow> 'w run) \<Rightarrow> nat list \<Rightarrow> ('w, 'a) conf \<Rightarrow> ('w, 'a) conf run" where
  "run_sched exec [] c = Inr c"
| "run_sched exec (i # is) c = bnd (pstep exec i c) (run_sched exec is)"

lemma run_sched_reach: "run_sched exec is c = Inr c' \<Longrightarrow> (interleave exec)\<^sup>*\<^sup>* c c'"
  by (induction "is" arbitrary: c)
    (auto simp: bnd_eq_Inr intro: converse_rtranclp_into_rtranclp interleave_step)

text \<open>\<open>quiet\<close>: no action exits, so that every step is the next action of some process.\<close>

definition quiet :: "(nat \<Rightarrow> 'a \<Rightarrow> 'w \<Rightarrow> 'w run) \<Rightarrow> ('w, 'a) conf \<Rightarrow> bool" where
  "quiet exec c \<longleftrightarrow> (\<forall>i<length (procs c). \<forall>a. cur (procs c ! i) = Some a \<longrightarrow>
     exec i a (shared c) \<noteq> Inl Exit_failure)"

lemma pstep_action:
  assumes "pstep exec i c = Inr c'" "quiet exec c"
  obtains a w where "i < length (procs c)" "cur (procs c ! i) = Some a" "exec i a (shared c) = Inr w"
    and "c' = c\<lparr>shared := w, procs := (procs c)[i := advance (procs c ! i)]\<rparr>"
  using assms by (auto simp: pstep_def quiet_def split: if_splits option.splits sum.splits stop.splits)

text \<open>An invariant that implies \<open>quiet\<close> and that every action preserves holds in every reachable
  configuration.\<close>

lemma interleave_invariant:
  assumes "(interleave exec)\<^sup>*\<^sup>* c0 c" "I c0"
    and "\<And>c. I c \<Longrightarrow> quiet exec c"
    and "\<And>c i a w. I c \<Longrightarrow> i < length (procs c) \<Longrightarrow> cur (procs c ! i) = Some a \<Longrightarrow>
      exec i a (shared c) = Inr w \<Longrightarrow> I (c\<lparr>shared := w, procs := (procs c)[i := advance (procs c ! i)]\<rparr>)"
  shows "I c"
  using assms(1,2)
proof (induction rule: rtranclp_induct)
  case (step c c')
  then have "I c" by simp
  from step(2) obtain i where "pstep exec i c = Inr c'" by (rule interleaveE)
  then show ?case using assms(3) [OF \<open>I c\<close>] assms(4) [OF \<open>I c\<close>] by (metis pstep_action)
qed simp

text \<open>A configuration is stuck when every process has ended or waits.\<close>

definition stuck :: "(nat \<Rightarrow> 'a \<Rightarrow> 'w \<Rightarrow> 'w run) \<Rightarrow> ('w, 'a) conf \<Rightarrow> bool" where
  "stuck exec c \<longleftrightarrow> (\<forall>i<length (procs c). pstep exec i c = Inl Blocked)"

lemma stuckD:
  "stuck exec c \<Longrightarrow> i < length (procs c) \<Longrightarrow> cur (procs c ! i) = Some a \<Longrightarrow> exec i a (shared c) = Inl Blocked"
  by (auto simp: stuck_def pstep_def split: sum.splits stop.splits)

lemma stuck_ended: "(\<And>p. p \<in> set (procs c) \<Longrightarrow> cur p = None) \<Longrightarrow> stuck exec c"
  by (simp add: stuck_def pstep_def)

text \<open>Processes that only have calls left perform a bounded number of actions.\<close>

fun actions_left :: "'a proc \<Rightarrow> nat" where
  "actions_left (pc, Calls cs) = length (concat cs) - pc"
| "actions_left (pc, Forever b) = 0"

fun finite_proc :: "'a proc \<Rightarrow> bool" where
  "finite_proc (pc, Calls cs) = (cs = [] \<or> pc < length (hd cs))"
| "finite_proc (pc, Forever b) = False"

lemma actions_left_advance:
  "finite_proc p \<Longrightarrow> cur p = Some a \<Longrightarrow> Suc (actions_left (advance p)) = actions_left p"
  by (cases p rule: cur.cases) (auto split: if_splits)

lemma sum_list_update_Suc:
  "i < length ps \<Longrightarrow> Suc (h q) = h (ps ! i) \<Longrightarrow> Suc (sum_list (map h (ps[i := q]))) = sum_list (map h ps)"
proof (induction ps arbitrary: i)
  case (Cons p ps)
  then show ?case by (cases i) auto
qed simp

lemma run_sched_bound:
  assumes "run_sched exec is c = Inr c'" "I c"
    and quiet: "\<And>c. I c \<Longrightarrow> quiet exec c"
    and step: "\<And>c i a w. I c \<Longrightarrow> i < length (procs c) \<Longrightarrow> cur (procs c ! i) = Some a \<Longrightarrow>
      exec i a (shared c) = Inr w \<Longrightarrow> I (c\<lparr>shared := w, procs := (procs c)[i := advance (procs c ! i)]\<rparr>)"
    and fin: "\<And>c. I c \<Longrightarrow> (\<forall>p\<in>set (procs c). finite_proc p)"
  shows "length is + sum_list (map actions_left (procs c')) = sum_list (map actions_left (procs c))"
  using assms(1,2)
proof (induction "is" arbitrary: c)
  case (Cons i "is")
  from Cons.prems(1) obtain c1 where c1: "pstep exec i c = Inr c1" "run_sched exec is c1 = Inr c'"
    by (auto simp: bnd_eq_Inr)
  obtain a w where a: "i < length (procs c)" "cur (procs c ! i) = Some a" "exec i a (shared c) = Inr w"
    "c1 = c\<lparr>shared := w, procs := (procs c)[i := advance (procs c ! i)]\<rparr>"
    using pstep_action [OF c1(1) quiet [OF Cons.prems(2)]] by metis
  have "Suc (sum_list (map actions_left (procs c1))) = sum_list (map actions_left (procs c))"
    using a fin [OF Cons.prems(2)] by (auto intro!: sum_list_update_Suc actions_left_advance)
  moreover have "length is + sum_list (map actions_left (procs c')) = sum_list (map actions_left (procs c1))"
    using c1(2) step [OF Cons.prems(2) a(1,2,3)] a(4) by (intro Cons.IH) auto
  ultimately show ?case by simp
qed simp

subsection \<open>Accounts\<close>

definition total_held :: "('a proc \<Rightarrow> int) \<Rightarrow> 'a proc list \<Rightarrow> int" where
  "total_held held ps = sum_list (map held ps)"

lemma total_held_Nil [simp]: "total_held held [] = 0"
  by (simp add: total_held_def)

lemma total_held_Cons [simp]: "total_held held (p # ps) = held p + total_held held ps"
  by (simp add: total_held_def)

lemma total_held_update:
  "i < length ps \<Longrightarrow> total_held held (ps[i := p]) = total_held held ps - held (ps ! i) + held p"
proof (induction ps arbitrary: i)
  case (Cons q ps)
  then show ?case by (cases i) simp_all
qed simp

lemma total_held_nonneg: "(\<And>p. 0 \<le> held p) \<Longrightarrow> 0 \<le> total_held held ps"
  by (induction ps) simp_all

lemma total_held_ge:
  assumes "\<And>p. 0 \<le> held p" "i < length ps"
  shows "held (ps ! i) \<le> total_held held ps"
  using assms(2)
proof (induction ps arbitrary: i)
  case (Cons q ps)
  have "0 \<le> total_held held ps" "0 \<le> held q" using assms(1) by (simp_all add: total_held_nonneg)
  then show ?case using Cons by (cases i) fastforce+
qed simp

text \<open>Two holders hold at least the sum of their shares.\<close>

lemma total_held_ge_two:
  assumes nn: "\<And>p. 0 \<le> held p" and ij: "i < length ps" "j < length ps" "i \<noteq> j"
  shows "held (ps ! i) + held (ps ! j) \<le> total_held held ps"
proof -
  from ij show ?thesis
  proof (induction ps arbitrary: i j)
    case (Cons q ps)
    have ge: "k < length ps \<Longrightarrow> held (ps ! k) \<le> total_held held ps" for k by (rule total_held_ge [OF nn])
    consider "i = 0" "j = Suc (j - 1)" | "j = 0" "i = Suc (i - 1)" | "i = Suc (i - 1)" "j = Suc (j - 1)"
      using Cons.prems(3) by linarith
    then show ?case
    proof cases
      case 1
      then show ?thesis using ge [of "j - 1"] Cons.prems by (metis Suc_less_eq add_left_mono length_Cons nth_Cons_0 nth_Cons_Suc total_held_Cons)
    next
      case 2
      then show ?thesis using ge [of "i - 1"] Cons.prems by (metis Suc_less_eq add.commute add_left_mono length_Cons nth_Cons_0 nth_Cons_Suc total_held_Cons)
    next
      case 3
      have "held (ps ! (i - 1)) + held (ps ! (j - 1)) \<le> total_held held ps"
        using 3 Cons.prems by (intro Cons.IH) auto
      moreover have "(q # ps) ! i = ps ! (i - 1)" "(q # ps) ! j = ps ! (j - 1)" using 3 by (metis nth_Cons_Suc)+
      ultimately show ?thesis using nn [of q] by simp
    qed
  qed simp
qed

lemma total_held_all_zero: "(\<And>j. j < length ps \<Longrightarrow> h (ps ! j) = 0) \<Longrightarrow> total_held h ps = 0"
proof (induction ps)
  case (Cons p ps)
  then have "h p = 0" "total_held h ps = 0" by force+
  then show ?case by simp
qed simp

lemma total_held_single:
  "i < length ps \<Longrightarrow> (\<And>j. j < length ps \<Longrightarrow> j \<noteq> i \<Longrightarrow> h (ps ! j) = 0) \<Longrightarrow> total_held h ps = h (ps ! i)"
proof (induction ps arbitrary: i)
  case (Cons p ps)
  show ?case
  proof (cases i)
    case 0
    have "h (ps ! j) = 0" if "j < length ps" for j using Cons.prems(2) [of "Suc j"] that 0 by simp
    then have "total_held h ps = 0" by (rule total_held_all_zero)
    then show ?thesis using 0 by simp
  next
    case (Suc k)
    have "h p = 0" using Cons.prems(2) [of 0] Suc by simp
    moreover have "total_held h ps = h (ps ! k)"
      using Cons.prems(1) Cons.prems(2) [of "Suc _"] Suc by (intro Cons.IH) auto
    ultimately show ?thesis using Suc by simp
  qed
qed simp

locale account =
  fixes exec :: "nat \<Rightarrow> 'a \<Rightarrow> 'w \<Rightarrow> 'w run"
    and ok :: "'w \<Rightarrow> bool"
    and good :: "'a proc \<Rightarrow> bool"
    and level :: "'w \<Rightarrow> int"
    and held :: "'a proc \<Rightarrow> int"
  assumes conserve: "good p \<Longrightarrow> cur p = Some a \<Longrightarrow> ok w \<Longrightarrow> exec i a w = Inr w' \<Longrightarrow>
      level w' + held (advance p) = level w + held p"
    and held_nonneg: "0 \<le> held p"
begin

definition balance :: "('w, 'a) conf \<Rightarrow> int" where
  "balance c = level (shared c) + total_held held (procs c)"

lemma balance_step:
  assumes "i < length (procs c)" "good (procs c ! i)" "ok (shared c)"
    and "cur (procs c ! i) = Some a" "exec i a (shared c) = Inr w"
  shows "balance (c\<lparr>shared := w, procs := (procs c)[i := advance (procs c ! i)]\<rparr>) = balance c"
  using conserve [OF assms(2,4,3,5)] assms(1) by (simp add: balance_def total_held_update)

lemma held_le: "balance c = n \<Longrightarrow> i < length (procs c) \<Longrightarrow> level (shared c) + held (procs c ! i) \<le> n"
  using total_held_ge [of held i "procs c"] held_nonneg by (auto simp: balance_def)

lemma level_le: "balance c = n \<Longrightarrow> level (shared c) \<le> n"
  using total_held_nonneg [of held "procs c"] held_nonneg by (auto simp: balance_def)

text \<open>What is fully handed out to one process, nobody else holds: mutual exclusion for a lock, whose
  balance is 1.\<close>

lemma exclusive:
  assumes "balance c = n" "0 \<le> level (shared c)" "i < length (procs c)" "j < length (procs c)" "i \<noteq> j"
    and "held (procs c ! i) = n"
  shows "held (procs c ! j) = 0"
proof -
  have "held (procs c ! i) + held (procs c ! j) \<le> total_held held (procs c)"
    by (rule total_held_ge_two [OF held_nonneg assms(3-5)])
  then show ?thesis using assms(1,2,6) held_nonneg [of "procs c ! j"] by (simp add: balance_def)
qed

end

end
