(* ===== verification/RingFifo.thy ===== *)
theory RingFifo
  imports SemtoolProps Interleave
begin

text \<open>
  The producers and consumers of \<open>process/ipc/codes/produce-consume\<close>: \<open>fifo.c\<close>, a ring of blocks in
  shared memory guarded by three semaphores, and the programs \<open>produce.c\<close> and \<open>consume.c\<close>.

  \<^item> \<open>Shmhead\<close> and \<open>Shmfifo\<close> are the structures of \<open>fifo.h\<close>, the indices 32-bit words. The two pointers of
    \<open>Shmfifo\<close> are the start of the segment \<open>shmid\<close> and of its payload, whose bytes are \<open>payload\<close>.
  \<^item> \<open>fifo_init\<close> is in three parts: the segment is created (\<open>fifo_init_shm\<close>), then the semaphores and the
    header are set up (\<open>fifo_init_fill\<close>); or the segment exists (\<open>fifo_init_open\<close>).
  \<^item> \<open>fifo_produce\<close> and \<open>fifo_consume\<close> are lists of the atomic actions of these functions, \<open>ring_exec\<close> says
    what an action does. \<open>produced\<close>, \<open>consumed\<close> and \<open>printed\<close> are a history, which the code does not have.
\<close>

type_synonym block = "8 word list"

record Shmhead =
  block_size :: "32 word"
  block_total :: "32 word"
  rd_index :: "32 word"
  wr_index :: "32 word"

record shm_seg =
  p_head :: Shmhead
  p_payload :: block

record Shmfifo =
  shmid :: nat
  sem_mutex :: nat
  sem_produce :: nat
  sem_consume :: nat

record ipc =
  sems :: sem_kernel
  shm_ids :: "int \<rightharpoonup> nat"
  shm_segs :: "nat \<rightharpoonup> shm_seg"
  next_shmid :: nat
  shm_max :: nat

subsection \<open>\<open>fifo_init\<close>\<close>

definition on_sems :: "(sem_kernel \<Rightarrow> sem_kernel run) \<Rightarrow> ipc \<Rightarrow> ipc run" where
  "on_sems f k = bnd (f (sems k)) (\<lambda>s. Inr (k\<lparr>sems := s\<rparr>))"

definition sizeof_Shmhead :: nat where
  "sizeof_Shmhead = 16"

text \<open>\<open>shmget(key, sizeof(Shmhead) + block_size * block_total, 0666|IPC_CREAT)\<close>; new memory is zero, and the
  product is one of unsigned integers.\<close>

definition fifo_init_shm :: "int \<Rightarrow> 32 word \<Rightarrow> 32 word \<Rightarrow> ipc \<Rightarrow> (nat \<times> ipc) run" where
  "fifo_init_shm key bs bt k =
     (let n = unat (bs * bt); i = next_shmid k in
      if shm_max k < sizeof_Shmhead + n then Inl Exit_failure
      else Inr (i, k\<lparr>
        shm_ids := (if key = IPC_PRIVATE then shm_ids k else (shm_ids k)(key \<mapsto> i)),
        shm_segs := (shm_segs k)(i \<mapsto>
          \<lparr>p_head = \<lparr>block_size = 0, block_total = 0, rd_index = 0, wr_index = 0\<rparr>,
           p_payload = replicate n 0\<rparr>),
        next_shmid := Suc i\<rparr>))"

definition create_sem :: "int \<Rightarrow> int \<Rightarrow> ipc \<Rightarrow> (nat \<times> ipc) run" where
  "create_sem key val k =
     bnd (sem_create key (sems k)) (\<lambda>(semid, s).
     bnd (sem_setval semid val s) (\<lambda>s. Inr (semid, k\<lparr>sems := s\<rparr>)))"

definition fifo_init_fill :: "int \<Rightarrow> 32 word \<Rightarrow> 32 word \<Rightarrow> nat \<Rightarrow> ipc \<Rightarrow> (Shmfifo \<times> ipc) run" where
  "fifo_init_fill key bs bt i k =
     bnd (create_sem key 1 k) (\<lambda>(mutex, k).
     bnd (create_sem (key + 1) (sint bt) k) (\<lambda>(produce, k).
     bnd (create_sem (key + 2) 0 k) (\<lambda>(consume, k).
       Inr (\<lparr>shmid = i, sem_mutex = mutex, sem_produce = produce, sem_consume = consume\<rparr>,
            k\<lparr>shm_segs := (shm_segs k)(i \<mapsto> (the (shm_segs k i))\<lparr>p_head :=
              \<lparr>block_size = bs, block_total = bt, rd_index = 0, wr_index = 0\<rparr>\<rparr>)\<rparr>))))"

definition fifo_init_open :: "int \<Rightarrow> nat \<Rightarrow> ipc \<Rightarrow> (Shmfifo \<times> ipc) run" where
  "fifo_init_open key i k =
     bnd (sem_open key (sems k)) (\<lambda>(mutex, s).
     bnd (sem_open (key + 1) s) (\<lambda>(produce, s).
     bnd (sem_open (key + 2) s) (\<lambda>(consume, s).
       Inr (\<lparr>shmid = i, sem_mutex = mutex, sem_produce = produce, sem_consume = consume\<rparr>, k\<lparr>sems := s\<rparr>))))"

definition fifo_init :: "int \<Rightarrow> 32 word \<Rightarrow> 32 word \<Rightarrow> ipc \<Rightarrow> (Shmfifo \<times> ipc) run" where
  "fifo_init key bs bt k =
     (case if key = IPC_PRIVATE then None else shm_ids k key of
        None \<Rightarrow> bnd (fifo_init_shm key bs bt k) (\<lambda>(i, k). fifo_init_fill key bs bt i k)
      | Some i \<Rightarrow> fifo_init_open key i k)"

subsection \<open>The critical sections\<close>

text \<open>\<open>memcpy(pos, buf, block_size)\<close> into the payload, \<open>memcpy(buf, pos, block_size)\<close> out of it, with
  \<open>pos = p_payload + index * block_size\<close>.\<close>

definition copy_in :: "block \<Rightarrow> shm_seg \<Rightarrow> shm_seg run" where
  "copy_in buf s =
     (let n = unat (block_size (p_head s)); pos = unat (wr_index (p_head s) * block_size (p_head s)) in
      if n \<le> length buf \<and> pos + n \<le> length (p_payload s)
      then Inr (s\<lparr>p_payload := take pos (p_payload s) @ take n buf @ drop (pos + n) (p_payload s)\<rparr>)
      else Inl (Fault OutOfBounds))"

definition copy_out :: "shm_seg \<Rightarrow> block run" where
  "copy_out s =
     (let n = unat (block_size (p_head s)); pos = unat (rd_index (p_head s) * block_size (p_head s)) in
      if pos + n \<le> length (p_payload s) then Inr (take n (drop pos (p_payload s)))
      else Inl (Fault OutOfBounds))"

definition step_wr :: "shm_seg \<Rightarrow> shm_seg run" where
  "step_wr s =
     (let h = p_head s in
      if block_total h = 0 then Inl (Fault DivByZero)
      else Inr (s\<lparr>p_head := h\<lparr>wr_index := (wr_index h + 1) mod block_total h\<rparr>\<rparr>))"

definition step_rd :: "shm_seg \<Rightarrow> shm_seg run" where
  "step_rd s =
     (let h = p_head s in
      if block_total h = 0 then Inl (Fault DivByZero)
      else Inr (s\<lparr>p_head := h\<lparr>rd_index := (rd_index h + 1) mod block_total h\<rparr>\<rparr>))"

subsection \<open>The processes\<close>

datatype ring_act =
    P "Shmfifo \<Rightarrow> nat"
  | V "Shmfifo \<Rightarrow> nat"
  | Copy_in block
  | Step_wr
  | Copy_out
  | Step_rd
  | Print_put block
  | Print_got

definition fifo_produce :: "block \<Rightarrow> ring_act list" where
  "fifo_produce buf =
     [P sem_produce, P sem_mutex, Copy_in buf, Step_wr, V sem_mutex, V sem_consume]"

definition fifo_consume :: "ring_act list" where
  "fifo_consume =
     [P sem_consume, P sem_mutex, Copy_out, Step_rd, V sem_mutex, V sem_produce]"

text \<open>A process has its own buffer, \<open>stu\<close> in \<open>main\<close>.\<close>

record ring_world =
  kern :: ipc
  bufs :: "nat \<Rightarrow> block"
  produced :: "block list"
  consumed :: "(nat \<times> block) list"
  printed :: "(nat \<times> block) list"

definition put_seg :: "nat \<Rightarrow> shm_seg \<Rightarrow> ring_world \<Rightarrow> ring_world" where
  "put_seg i s w = w\<lparr>kern := (kern w)\<lparr>shm_segs := (shm_segs (kern w))(i \<mapsto> s)\<rparr>\<rparr>"

fun ring_exec :: "Shmfifo \<Rightarrow> nat \<Rightarrow> ring_act \<Rightarrow> ring_world \<Rightarrow> ring_world run" where
  "ring_exec f i (P sel) w = bnd (on_sems (sem_p (sel f)) (kern w)) (\<lambda>k. Inr (w\<lparr>kern := k\<rparr>))"
| "ring_exec f i (V sel) w = bnd (on_sems (sem_v (sel f)) (kern w)) (\<lambda>k. Inr (w\<lparr>kern := k\<rparr>))"
| "ring_exec f i (Copy_in buf) w =
     bnd (copy_in buf (the (shm_segs (kern w) (shmid f)))) (\<lambda>s.
       Inr ((put_seg (shmid f) s w)\<lparr>produced := produced w @ [buf]\<rparr>))"
| "ring_exec f i Step_wr w =
     bnd (step_wr (the (shm_segs (kern w) (shmid f)))) (\<lambda>s. Inr (put_seg (shmid f) s w))"
| "ring_exec f i Copy_out w =
     bnd (copy_out (the (shm_segs (kern w) (shmid f)))) (\<lambda>buf.
       Inr (w\<lparr>bufs := (bufs w)(i := buf), consumed := consumed w @ [(i, buf)]\<rparr>))"
| "ring_exec f i Step_rd w =
     bnd (step_rd (the (shm_segs (kern w) (shmid f)))) (\<lambda>s. Inr (put_seg (shmid f) s w))"
| "ring_exec f i (Print_put buf) w = Inr w"
| "ring_exec f i Print_got w = Inr (w\<lparr>printed := printed w @ [(i, bufs w i)]\<rparr>)"

subsection \<open>The programs\<close>

text \<open>\<open>Student\<close>: a name of 32 bytes and an \<open>int\<close>, lowest byte first.\<close>

definition int_bytes :: "32 word \<Rightarrow> block" where
  "int_bytes v = map (\<lambda>j. ucast (drop_bit (8 * j) v)) [0, 1, 2, 3]"

definition student :: "string \<Rightarrow> 32 word \<Rightarrow> block" where
  "student name age =
     map (\<lambda>c. of_nat (of_char c)) name @ replicate (32 - length name) 0 @ int_bytes age"

definition produce_main :: "ring_act list list" where
  "produce_main =
     map (\<lambda>i. let stu = student ''orris'' (20 + of_nat i) in fifo_produce stu @ [Print_put stu]) [0..<5]"

definition consume_main :: "ring_act list list" where
  "consume_main = map (\<lambda>i. fifo_consume @ [Print_got]) [0..<5]"

text \<open>What any number of such processes start from, behind \<open>fifo_init\<close>; the buffers are clear.\<close>

definition ring_start :: "ipc \<Rightarrow> ring_act list list list \<Rightarrow> (ring_world, ring_act) conf" where
  "ring_start k mains =
     \<lparr>shared = \<lparr>kern = k, bufs = (\<lambda>i. replicate 36 0), produced = [], consumed = [], printed = []\<rparr>,
      procs = map (\<lambda>m. (0, Calls m)) mains, one_group = False\<rparr>"

end
