(* ===== verification/RingInv.thy ===== *)
theory RingInv
  imports RingFifo
begin

text \<open>
  The invariant of the shared-memory ring under every interleaving of producers and consumers.

  \<^item> \<open>ring_ok\<close>: the three semaphores and the segment exist and the header holds the sizes.
  \<^item> \<open>ring_mutex\<close>, \<open>ring_space\<close>, \<open>ring_items\<close>: the three semaphores as accounts: of the right to be in the
    critical section, of the free blocks, of the filled ones.
  \<^item> \<open>ring_data\<close>: the indices and the blocks against the history of what was produced and consumed.
\<close>

subsection \<open>The shape of the shared world\<close>

definition sval :: "Shmfifo \<Rightarrow> (Shmfifo \<Rightarrow> nat) \<Rightarrow> ring_world \<Rightarrow> int" where
  "sval f sel w = hd (the (sem_sets (sems (kern w)) (sel f)))"

definition seg :: "Shmfifo \<Rightarrow> ring_world \<Rightarrow> shm_seg" where
  "seg f w = the (shm_segs (kern w) (shmid f))"

definition has_sem :: "nat \<Rightarrow> ring_world \<Rightarrow> bool" where
  "has_sem s w \<longleftrightarrow> (\<exists>v. sem_sets (sems (kern w)) s = Some [v] \<and> 0 \<le> v \<and> v \<le> SEMVMX)"

definition ring_ok :: "Shmfifo \<Rightarrow> 32 word \<Rightarrow> 32 word \<Rightarrow> ring_world \<Rightarrow> bool" where
  "ring_ok f bs bt w \<longleftrightarrow>
     distinct [sem_mutex f, sem_produce f, sem_consume f] \<and>
     has_sem (sem_mutex f) w \<and> has_sem (sem_produce f) w \<and> has_sem (sem_consume f) w \<and>
     block_size (p_head (seg f w)) = bs \<and> block_total (p_head (seg f w)) = bt \<and> 0 < unat bt \<and>
     length (p_payload (seg f w)) = unat bs * unat bt \<and> unat bs * unat bt < 2 ^ 32 \<and>
     unat (wr_index (p_head (seg f w))) < unat bt \<and> unat (rd_index (p_head (seg f w))) < unat bt"

definition set_sem :: "Shmfifo \<Rightarrow> (Shmfifo \<Rightarrow> nat) \<Rightarrow> int \<Rightarrow> ring_world \<Rightarrow> ring_world" where
  "set_sem f sel v w = w\<lparr>kern := (kern w)\<lparr>sems := put_value (sel f) v (sems (kern w))\<rparr>\<rparr>"

lemma set_sem_simps [simp]:
  "seg f (set_sem f' sel v w) = seg f w"
  "sval f sel (set_sem f sel v w) = v"
  "sel' f \<noteq> sel f \<Longrightarrow> sval f sel' (set_sem f sel v w) = sval f sel' w"
  "produced (set_sem f' sel v w) = produced w" "consumed (set_sem f' sel v w) = consumed w"
  "printed (set_sem f' sel v w) = printed w" "bufs (set_sem f' sel v w) = bufs w"
  by (simp_all add: set_sem_def seg_def sval_def)

lemma put_seg_simps [simp]:
  "seg f (put_seg (shmid f) s w) = s" "sval f sel (put_seg i s w) = sval f sel w"
  "has_sem a (put_seg i s w) = has_sem a w"
  "produced (put_seg i s w) = produced w" "consumed (put_seg i s w) = consumed w"
  "printed (put_seg i s w) = printed w" "bufs (put_seg i s w) = bufs w"
  by (simp_all add: put_seg_def seg_def sval_def has_sem_def)

lemma history_simps [simp]:
  "seg f (w\<lparr>produced := a\<rparr>) = seg f w" "seg f (w\<lparr>consumed := b\<rparr>) = seg f w" "seg f (w\<lparr>bufs := d\<rparr>) = seg f w"
  "seg f (w\<lparr>printed := e\<rparr>) = seg f w"
  "sval f sel (w\<lparr>produced := a\<rparr>) = sval f sel w" "sval f sel (w\<lparr>consumed := b\<rparr>) = sval f sel w"
  "sval f sel (w\<lparr>bufs := d\<rparr>) = sval f sel w" "sval f sel (w\<lparr>printed := e\<rparr>) = sval f sel w"
  "has_sem s (w\<lparr>produced := a\<rparr>) = has_sem s w" "has_sem s (w\<lparr>consumed := b\<rparr>) = has_sem s w"
  "has_sem s (w\<lparr>bufs := d\<rparr>) = has_sem s w" "has_sem s (w\<lparr>printed := e\<rparr>) = has_sem s w"
  by (simp_all add: seg_def sval_def has_sem_def)

lemma has_sem_set:
  "has_sem s w \<Longrightarrow> 0 \<le> v \<Longrightarrow> v \<le> SEMVMX \<Longrightarrow> has_sem s (set_sem f sel v w)"
  by (auto simp: has_sem_def set_sem_def)

lemma ring_ok_history [simp]:
  "ring_ok f bs bt (w\<lparr>produced := a\<rparr>) = ring_ok f bs bt w" "ring_ok f bs bt (w\<lparr>consumed := b\<rparr>) = ring_ok f bs bt w"
  "ring_ok f bs bt (w\<lparr>bufs := d\<rparr>) = ring_ok f bs bt w" "ring_ok f bs bt (w\<lparr>printed := e\<rparr>) = ring_ok f bs bt w"
  by (simp_all add: ring_ok_def)

lemma ring_ok_set_sem: "ring_ok f bs bt w \<Longrightarrow> 0 \<le> v \<Longrightarrow> v \<le> SEMVMX \<Longrightarrow> ring_ok f bs bt (set_sem f sel v w)"
  by (simp add: ring_ok_def has_sem_set)

lemma sval_bounds: "has_sem (sel f) w \<Longrightarrow> 0 \<le> sval f sel w \<and> sval f sel w \<le> SEMVMX"
  by (auto simp: has_sem_def sval_def)

subsection \<open>The actions\<close>

lemma exec_P:
  "has_sem (sel f) w \<Longrightarrow> ring_exec f i (P sel) w =
     (if sval f sel w = 0 then Inl Blocked else Inr (set_sem f sel (sval f sel w - 1) w))"
  by (auto simp: has_sem_def on_sems_def sem_p_one sval_def set_sem_def)

lemma exec_V:
  "has_sem (sel f) w \<Longrightarrow> ring_exec f i (V sel) w =
     (if sval f sel w = SEMVMX then Inl Exit_failure else Inr (set_sem f sel (sval f sel w + 1) w))"
  by (auto simp: has_sem_def on_sems_def sem_v_one sval_def set_sem_def)

text \<open>Block \<open>j\<close> of the payload.\<close>

definition slot :: "shm_seg \<Rightarrow> nat \<Rightarrow> block" where
  "slot s j = (let n = unat (block_size (p_head s)) in take n (drop (j * n) (p_payload s)))"

lemma slot_pos:
  assumes "j < t" "n * t < 2 ^ 32" "unat a = j" "unat b = n"
  shows "unat (a * b :: 32 word) = j * n" "j * n + n \<le> n * t"
proof -
  have "Suc j * n \<le> t * n" using assms(1) by (intro mult_le_mono1) simp
  then show *: "j * n + n \<le> n * t" by (simp add: mult.commute)
  then have "j * n < 2 ^ LENGTH(32)" using assms(2) by simp
  then show "unat (a * b) = j * n" using assms(3,4) by (simp add: unat_word_ariths)
qed

lemma slot_write:
  assumes "length x = n" "j < t" "m < t" "length p = n * t"
  shows "take n (drop (m * n) (take (j * n) p @ x @ drop (j * n + n) p)) =
    (if m = j then x else take n (drop (m * n) p))"
proof -
  have le: "k < t \<Longrightarrow> k * n + n \<le> n * t" for k
    using mult_le_mono1 [of "Suc k" t n] by (simp add: mult.commute)
  consider "m = j" | "m * n + n \<le> j * n" | "j * n + n \<le> m * n" "m \<noteq> j"
  proof (cases m j rule: linorder_cases)
    case less
    then show ?thesis using mult_le_mono1 [of "Suc m" j n] that(2) by simp
  next
    case greater
    then show ?thesis using mult_le_mono1 [of "Suc j" m n] that(3) by simp
  qed (use that(1) in simp)
  then show ?thesis
  proof cases
    case 1
    then show ?thesis using assms le [of j] by simp
  next
    case 2
    then have "m \<noteq> j \<or> n = 0" by auto
    then show ?thesis using 2 assms le [of j] le [of m] by (auto simp: take_drop min_def)
  next
    case 3
    then have "j * n \<le> m * n" by linarith
    then have "j * n - m * n = 0" by (rule diff_is_0_eq')
    then show ?thesis using 3 \<open>j * n \<le> m * n\<close> assms le [of j] le [of m] by (auto simp: add.commute min_def)
  qed
qed

lemma exec_Copy_in:
  assumes "ring_ok f bs bt w" "length x = unat bs"
  shows "ring_exec f i (Copy_in x) w = Inr ((put_seg (shmid f) ((seg f w)\<lparr>p_payload :=
    take (unat (wr_index (p_head (seg f w))) * unat bs) (p_payload (seg f w)) @ x @
    drop (unat (wr_index (p_head (seg f w))) * unat bs + unat bs) (p_payload (seg f w))\<rparr>) w)
    \<lparr>produced := produced w @ [x]\<rparr>)"
  using assms slot_pos [of "unat (wr_index (p_head (seg f w)))" "unat bt" "unat bs"
      "wr_index (p_head (seg f w))" "block_size (p_head (seg f w))"]
  by (simp add: copy_in_def ring_ok_def seg_def Let_def)

lemma exec_Copy_out:
  assumes "ring_ok f bs bt w"
  shows "ring_exec f i Copy_out w = (let b = slot (seg f w) (unat (rd_index (p_head (seg f w)))) in
    Inr (w\<lparr>bufs := (bufs w)(i := b), consumed := consumed w @ [(i, b)]\<rparr>))"
  using assms slot_pos [of "unat (rd_index (p_head (seg f w)))" "unat bt" "unat bs"
      "rd_index (p_head (seg f w))" "block_size (p_head (seg f w))"]
  by (simp add: copy_out_def ring_ok_def seg_def slot_def Let_def)

definition next_index :: "32 word \<Rightarrow> 32 word \<Rightarrow> 32 word" where
  "next_index bt a = (a + 1) mod bt"

lemma unat_next_index: "unat a < unat bt \<Longrightarrow> unat (next_index bt a) = Suc (unat a) mod unat bt"
proof -
  assume "unat a < unat bt"
  moreover have "unat bt < 2 ^ 32" using unsigned_less [of bt] by simp
  ultimately have "unat (a + 1) = Suc (unat a)" by (simp add: unat_word_ariths)
  then show ?thesis by (simp add: next_index_def unat_mod_distrib)
qed

lemma exec_Step_wr:
  "ring_ok f bs bt w \<Longrightarrow> ring_exec f i Step_wr w = Inr (put_seg (shmid f) ((seg f w)\<lparr>p_head :=
     (p_head (seg f w))\<lparr>wr_index := next_index bt (wr_index (p_head (seg f w)))\<rparr>\<rparr>) w)"
  by (auto simp: step_wr_def ring_ok_def seg_def next_index_def Let_def)

lemma exec_Step_rd:
  "ring_ok f bs bt w \<Longrightarrow> ring_exec f i Step_rd w = Inr (put_seg (shmid f) ((seg f w)\<lparr>p_head :=
     (p_head (seg f w))\<lparr>rd_index := next_index bt (rd_index (p_head (seg f w)))\<rparr>\<rparr>) w)"
  by (auto simp: step_rd_def ring_ok_def seg_def next_index_def Let_def)

lemma exec_Print:
  "ring_exec f i (Print_put x) w = Inr w"
  "ring_exec f i Print_got w = Inr (w\<lparr>printed := printed w @ [(i, bufs w i)]\<rparr>)"
  by simp_all

declare ring_exec.simps [simp del]

subsection \<open>The processes and what they hold\<close>

definition produce_call :: "block \<Rightarrow> ring_act list" where
  "produce_call x = fifo_produce x @ [Print_put x]"

definition consume_call :: "ring_act list" where
  "consume_call = fifo_consume @ [Print_got]"

fun consumes :: "ring_act list \<Rightarrow> bool" where
  "consumes (a # b # Copy_out # c) = True"
| "consumes _ = False"

fun ring_proc :: "32 word \<Rightarrow> ring_act proc \<Rightarrow> bool" where
  "ring_proc bs (pc, Calls cs) =
     ((\<forall>c\<in>set cs. c = consume_call \<or> (\<exists>x. length x = unat bs \<and> c = produce_call x)) \<and>
      (if cs = [] then pc = 0 else pc < 7))"
| "ring_proc bs (pc, Forever b) = False"

text \<open>\<open>at lo hi cons p\<close>: process \<open>p\<close> is a consumer (a producer) whose counter is between \<open>lo\<close> and \<open>hi\<close>.\<close>

fun at :: "nat \<Rightarrow> nat \<Rightarrow> bool \<Rightarrow> ring_act proc \<Rightarrow> int" where
  "at lo hi cons (pc, Calls (c # cs)) = of_bool (lo \<le> pc \<and> pc \<le> hi \<and> consumes c = cons)"
| "at lo hi cons _ = 0"

definition held_mutex :: "ring_act proc \<Rightarrow> int" where
  "held_mutex p = at 2 4 False p + at 2 4 True p"

definition held_space :: "ring_act proc \<Rightarrow> int" where
  "held_space p = at 1 2 False p + at 3 5 True p"

definition held_items :: "ring_act proc \<Rightarrow> int" where
  "held_items p = at 3 5 False p + at 1 2 True p"

lemma at_range: "0 \<le> at lo hi cons p" "at lo hi cons p \<le> 1"
  by (cases "(lo, hi, cons, p)" rule: at.cases; simp)+

definition stock :: "ring_world \<Rightarrow> int" where
  "stock w = int (length (produced w)) - int (length (consumed w))"

lemma stock_simps [simp]:
  "stock (set_sem f sel v w) = stock w" "stock (put_seg i s w) = stock w"
  "stock (w\<lparr>bufs := d\<rparr>) = stock w" "stock (w\<lparr>printed := e\<rparr>) = stock w"
  by (simp_all add: stock_def)

text \<open>The fourteen situations of a running process.\<close>

lemma call_simps [simp]:
  "length (produce_call x) = 7" "length consume_call = 7"
  "consumes (produce_call x) = False" "consumes consume_call"
  by (simp_all add: produce_call_def consume_call_def fifo_produce_def fifo_consume_def)

lemma call_nth:
  "produce_call x ! 0 = P sem_produce" "produce_call x ! 1 = P sem_mutex" "produce_call x ! 2 = Copy_in x"
  "produce_call x ! 3 = Step_wr" "produce_call x ! 4 = V sem_mutex" "produce_call x ! 5 = V sem_consume"
  "produce_call x ! 6 = Print_put x"
  "consume_call ! 0 = P sem_consume" "consume_call ! 1 = P sem_mutex" "consume_call ! 2 = Copy_out"
  "consume_call ! 3 = Step_rd" "consume_call ! 4 = V sem_mutex" "consume_call ! 5 = V sem_produce"
  "consume_call ! 6 = Print_got"
  "produce_call x ! Suc 0 = P sem_mutex" "consume_call ! Suc 0 = P sem_mutex"
  by (simp_all add: produce_call_def consume_call_def fifo_produce_def fifo_consume_def)

lemma pc_cases:
  fixes pc :: nat
  assumes "pc < 7"
  obtains "pc = 0" | "pc = 1" | "pc = 2" | "pc = 3" | "pc = 4" | "pc = 5" | "pc = 6"
  using assms by linarith

lemma ring_proc_cases:
  assumes "ring_proc bs p" "cur p = Some a"
  obtains x cs pc where "length x = unat bs" "p = (pc, Calls (produce_call x # cs))" "pc < 7" "a = produce_call x ! pc"
    | cs pc where "p = (pc, Calls (consume_call # cs))" "pc < 7" "a = consume_call ! pc"
proof -
  obtain pc cs where p: "p = (pc, Calls cs)" using assms(1) by (cases p; cases "snd p") auto
  then obtain c cs' where cs: "cs = c # cs'" using assms(2) by (cases cs) auto
  then show ?thesis using that assms p by (auto split: if_splits)
qed

lemma ring_proc_advance: "ring_proc bs p \<Longrightarrow> ring_proc bs (advance p)"
proof -
  assume p: "ring_proc bs p"
  then obtain pc cs where pc: "p = (pc, Calls cs)" by (cases p; cases "snd p") auto
  show ?thesis
  proof (cases cs)
    case (Cons c cs')
    then have "length c = 7" using p pc by auto
    then show ?thesis using p pc Cons by auto
  qed (use p pc in simp)
qed

end
