(* ===== verification/RingCorrect.thy ===== *)
theory RingCorrect
  imports RingInv
begin

text \<open>
  The accounts of the three semaphores, the invariant over all interleavings, and what the ring promises:
  order, mutual exclusion, bounds, no undefined behaviour, no deadlock.
\<close>

lemma ring_okD:
  assumes "ring_ok f bs bt w"
  shows "has_sem (sem_mutex f) w" "has_sem (sem_produce f) w" "has_sem (sem_consume f) w"
    and "sem_mutex f \<noteq> sem_produce f" "sem_mutex f \<noteq> sem_consume f" "sem_produce f \<noteq> sem_consume f"
  using assms by (auto simp: ring_ok_def)

lemmas exec_simps = exec_Copy_in exec_Copy_out exec_Step_wr exec_Step_rd exec_Print

lemma ring_ok_payload:
  "ring_ok f bs bt w \<Longrightarrow> length q = length (p_payload (seg f w)) \<Longrightarrow>
   ring_ok f bs bt (put_seg (shmid f) ((seg f w)\<lparr>p_payload := q\<rparr>) w)"
  by (simp add: ring_ok_def)

lemma ring_ok_Copy_in:
  assumes "ring_ok f bs bt w" "length x = unat bs"
  shows "ring_ok f bs bt (put_seg (shmid f) ((seg f w)\<lparr>p_payload :=
    take (unat (wr_index (p_head (seg f w))) * unat bs) (p_payload (seg f w)) @ x @
    drop (unat (wr_index (p_head (seg f w))) * unat bs + unat bs) (p_payload (seg f w))\<rparr>) w)"
proof (rule ring_ok_payload [OF assms(1)])
  have "unat (wr_index (p_head (seg f w))) < unat bt" "length (p_payload (seg f w)) = unat bs * unat bt"
    "unat bs * unat bt < 2 ^ 32"
    using assms(1) by (simp_all only: ring_ok_def)
  then have "unat (wr_index (p_head (seg f w))) * unat bs + unat bs \<le> length (p_payload (seg f w))"
    using slot_pos(2) by metis
  then show "length (take (unat (wr_index (p_head (seg f w))) * unat bs) (p_payload (seg f w)) @ x @
      drop (unat (wr_index (p_head (seg f w))) * unat bs + unat bs) (p_payload (seg f w))) =
    length (p_payload (seg f w))"
    using assms(2) by simp
qed

lemma ring_ok_Step:
  "ring_ok f bs bt w \<Longrightarrow> ring_ok f bs bt (put_seg (shmid f) ((seg f w)\<lparr>p_head :=
     (p_head (seg f w))\<lparr>wr_index := next_index bt (wr_index (p_head (seg f w)))\<rparr>\<rparr>) w)"
  "ring_ok f bs bt w \<Longrightarrow> ring_ok f bs bt (put_seg (shmid f) ((seg f w)\<lparr>p_head :=
     (p_head (seg f w))\<lparr>rd_index := next_index bt (rd_index (p_head (seg f w)))\<rparr>\<rparr>) w)"
  by (simp_all add: ring_ok_def unat_next_index)

lemma exec_P_Inr:
  assumes "ring_exec f i (P sel) w = Inr w'" "has_sem (sel f) w"
  shows "w' = set_sem f sel (sval f sel w - 1) w \<and> 0 < sval f sel w \<and> sval f sel w \<le> SEMVMX"
  using assms sval_bounds [of sel f w] by (auto simp: exec_P split: if_splits)

lemma exec_V_Inr:
  assumes "ring_exec f i (V sel) w = Inr w'" "has_sem (sel f) w"
  shows "w' = set_sem f sel (sval f sel w + 1) w \<and> 0 \<le> sval f sel w \<and> sval f sel w < SEMVMX"
  using assms sval_bounds [of sel f w] by (auto simp: exec_V split: if_splits)

lemma ring_ok_P: "ring_exec f i (P sel) w = Inr w' \<Longrightarrow> has_sem (sel f) w \<Longrightarrow> ring_ok f bs bt w \<Longrightarrow> ring_ok f bs bt w'"
  using exec_P_Inr [of f i sel w w'] by (auto intro: ring_ok_set_sem)

lemma ring_ok_V: "ring_exec f i (V sel) w = Inr w' \<Longrightarrow> has_sem (sel f) w \<Longrightarrow> ring_ok f bs bt w \<Longrightarrow> ring_ok f bs bt w'"
  using exec_V_Inr [of f i sel w w'] by (auto intro: ring_ok_set_sem)

lemma ring_ok_step:
  assumes "ring_ok f bs bt w" "ring_proc bs p" "cur p = Some a" "ring_exec f i a w = Inr w'"
  shows "ring_ok f bs bt w'"
proof -
  note D = ring_okD [OF assms(1)]
  from assms(2,3) show ?thesis
  proof (cases rule: ring_proc_cases)
    case (1 x cs pc)
    from 1(3) show ?thesis
      using assms(1,4) 1(1,4) D
      by (cases rule: pc_cases)
        (auto simp: call_nth exec_simps ring_ok_Copy_in ring_ok_Step
          intro: ring_ok_P ring_ok_V)
  next
    case (2 cs pc)
    from 2(2) show ?thesis
      using assms(1,4) 2(3) D
      by (cases rule: pc_cases)
        (auto simp: call_nth exec_simps ring_ok_Step Let_def
          intro: ring_ok_P ring_ok_V)
  qed
qed

subsection \<open>The accounts\<close>

lemma sval_step:
  assumes "ring_ok f bs bt w" "ring_proc bs p" "cur p = Some a" "ring_exec f i a w = Inr w'"
  shows "sval f sem_mutex w' + held_mutex (advance p) = sval f sem_mutex w + held_mutex p"
    and "sval f sem_produce w' + stock w' + held_space (advance p) = sval f sem_produce w + stock w + held_space p"
    and "sval f sem_consume w' - stock w' + held_items (advance p) = sval f sem_consume w - stock w + held_items p"
proof -
  note D = ring_okD [OF assms(1)]
  note defs = call_nth held_mutex_def held_space_def held_items_def stock_def exec_simps Let_def
  have "sval f sem_mutex w' + held_mutex (advance p) = sval f sem_mutex w + held_mutex p \<and>
    sval f sem_produce w' + stock w' + held_space (advance p) = sval f sem_produce w + stock w + held_space p \<and>
    sval f sem_consume w' - stock w' + held_items (advance p) = sval f sem_consume w - stock w + held_items p"
    using assms(2,3)
  proof (cases rule: ring_proc_cases)
    case (1 x cs pc)
    from 1(3) show ?thesis
      using assms(1,4) 1(1,2,4) D
      by (cases rule: pc_cases; cases cs)
        (auto simp: defs dest!: exec_P_Inr exec_V_Inr)
  next
    case (2 cs pc)
    from 2(2) show ?thesis
      using assms(1,4) 2(1,3) D
      by (cases rule: pc_cases; cases cs)
        (auto simp: defs dest!: exec_P_Inr exec_V_Inr)
  qed
  then show "sval f sem_mutex w' + held_mutex (advance p) = sval f sem_mutex w + held_mutex p"
    "sval f sem_produce w' + stock w' + held_space (advance p) = sval f sem_produce w + stock w + held_space p"
    "sval f sem_consume w' - stock w' + held_items (advance p) = sval f sem_consume w - stock w + held_items p"
    by simp_all
qed

interpretation ring_mutex: account "ring_exec f" "ring_ok f bs bt" "ring_proc bs" "sval f sem_mutex" held_mutex
  for f bs bt
  by unfold_locales (use sval_step(1) in \<open>auto simp: held_mutex_def at_range\<close>)

interpretation ring_space: account "ring_exec f" "ring_ok f bs bt" "ring_proc bs"
    "\<lambda>w. sval f sem_produce w + stock w" held_space
  for f bs bt
  by unfold_locales (use sval_step(2) in \<open>auto simp: held_space_def at_range\<close>)

interpretation ring_items: account "ring_exec f" "ring_ok f bs bt" "ring_proc bs"
    "\<lambda>w. sval f sem_consume w - stock w" held_items
  for f bs bt
  by unfold_locales (use sval_step(3) in \<open>auto simp: held_items_def at_range\<close>)

subsection \<open>The invariant\<close>

abbreviation at_wr :: "ring_act proc \<Rightarrow> int" where
  "at_wr \<equiv> at 3 3 False"

abbreviation at_rd :: "ring_act proc \<Rightarrow> int" where
  "at_rd \<equiv> at 3 3 True"

text \<open>An index lags behind the history by the process that is about to step it.\<close>

definition ring_index :: "Shmfifo \<Rightarrow> 32 word \<Rightarrow> (ring_world, ring_act) conf \<Rightarrow> bool" where
  "ring_index f bt c \<longleftrightarrow>
     int (unat (wr_index (p_head (seg f (shared c))))) =
       (int (length (produced (shared c))) - total_held at_wr (procs c)) mod int (unat bt) \<and>
     int (unat (rd_index (p_head (seg f (shared c))))) =
       (int (length (consumed (shared c))) - total_held at_rd (procs c)) mod int (unat bt)"

definition ring_blocks :: "Shmfifo \<Rightarrow> 32 word \<Rightarrow> ring_world \<Rightarrow> bool" where
  "ring_blocks f bt w \<longleftrightarrow>
     map snd (consumed w) = take (length (consumed w)) (produced w) \<and>
     (\<forall>k. length (consumed w) \<le> k \<longrightarrow> k < length (produced w) \<longrightarrow>
        slot (seg f w) (k mod unat bt) = produced w ! k)"

definition log_of :: "nat \<Rightarrow> (nat \<times> block) list \<Rightarrow> block list" where
  "log_of j xs = map snd (filter (\<lambda>(i, b). i = j) xs)"

definition ring_logs :: "(ring_world, ring_act) conf \<Rightarrow> bool" where
  "ring_logs c \<longleftrightarrow> (\<forall>j<length (procs c). log_of j (consumed (shared c)) =
     log_of j (printed (shared c)) @ (if at 3 6 True (procs c ! j) = 1 then [bufs (shared c) j] else []))"

definition ring_inv :: "Shmfifo \<Rightarrow> 32 word \<Rightarrow> 32 word \<Rightarrow> (ring_world, ring_act) conf \<Rightarrow> bool" where
  "ring_inv f bs bt c \<longleftrightarrow>
     ring_ok f bs bt (shared c) \<and> (\<forall>p\<in>set (procs c). ring_proc bs p) \<and> int (unat bt) \<le> SEMVMX \<and>
     ring_mutex.balance f c = 1 \<and> ring_space.balance f c = int (unat bt) \<and> ring_items.balance f c = 0 \<and>
     ring_index f bt c \<and> ring_blocks f bt (shared c) \<and> ring_logs c"

lemma ring_blocks_le: "ring_blocks f bt w \<Longrightarrow> length (consumed w) \<le> length (produced w)"
  unfolding ring_blocks_def by (metis length_map length_take min.cobounded1)

lemma stock_nonneg: "ring_blocks f bt w \<Longrightarrow> 0 \<le> stock w"
  using ring_blocks_le [of f bt w] by (simp add: stock_def)

lemma slot_payload [simp]:
  "slot (s\<lparr>p_head := (p_head s)\<lparr>wr_index := a\<rparr>\<rparr>) j = slot s j"
  "slot (s\<lparr>p_head := (p_head s)\<lparr>rd_index := a\<rparr>\<rparr>) j = slot s j"
  by (simp_all add: slot_def)

text \<open>Inside the critical section nobody else is about to step an index.\<close>

lemma at_le_mutex: "at_wr p + at_rd p \<le> held_mutex p"
  by (cases "(0::nat, 0::nat, True, p)" rule: at.cases) (auto simp: held_mutex_def)

lemma alone_in_section:
  assumes inv: "ring_inv f bs bt c" and i: "i < length (procs c)" and p: "procs c ! i = (2, code)"
    and h: "held_mutex (procs c ! i) = 1"
  shows "total_held at_wr (procs c) = 0" "total_held at_rd (procs c) = 0"
proof -
  have b: "ring_mutex.balance f c = 1" and v: "0 \<le> sval f sem_mutex (shared c)"
    using inv sval_bounds [of sem_mutex f "shared c"] ring_okD(1) by (auto simp: ring_inv_def)
  have "at_wr (procs c ! j) = 0 \<and> at_rd (procs c ! j) = 0" if j: "j < length (procs c)" for j
  proof (cases "j = i")
    case True
    then show ?thesis using p by (cases code rule: code.exhaust; cases "(3::nat, 3::nat, True, procs c ! i)" rule: at.cases) auto
  next
    case False
    then have "held_mutex (procs c ! j) = 0"
      using ring_mutex.exclusive [OF b v i j] h by simp
    then show ?thesis
      using at_le_mutex [of "procs c ! j"] at_range(1) [of 3 3 False "procs c ! j"]
        at_range(1) [of 3 3 True "procs c ! j"] by linarith
  qed
  then show "total_held at_wr (procs c) = 0" "total_held at_rd (procs c) = 0"
    by (simp_all add: total_held_all_zero)
qed

subsection \<open>Every action preserves it\<close>

abbreviation after :: "nat \<Rightarrow> 'w \<Rightarrow> ('w, 'a) conf \<Rightarrow> ('w, 'a) conf" where
  "after i w c \<equiv> c\<lparr>shared := w, procs := (procs c)[i := advance (procs c ! i)]\<rparr>"

lemma index_step:
  assumes "unat a < unat bt" "int (unat a) = x mod int (unat bt)"
  shows "uint (next_index bt a) = (x + 1) mod uint bt"
proof -
  have "uint (next_index bt a) = int (Suc (unat a) mod unat bt)"
    using unat_next_index [OF assms(1)] by (metis uint_nat)
  also have "\<dots> = (int (unat a) + 1) mod int (unat bt)" by (simp add: of_nat_mod add.commute)
  also have "\<dots> = (x + 1) mod int (unat bt)" using assms(2) by (simp add: mod_add_left_eq del: int_nat_eq)
  finally show ?thesis by simp
qed

lemma ring_inv_proc: "ring_inv f bs bt c \<Longrightarrow> i < length (procs c) \<Longrightarrow> ring_proc bs (procs c ! i)"
  by (simp add: ring_inv_def)

lemma ring_index_step:
  assumes inv: "ring_inv f bs bt c" and i: "i < length (procs c)"
    and a: "cur (procs c ! i) = Some a" and w: "ring_exec f i a (shared c) = Inr w"
  shows "ring_index f bt (after i w c)"
proof -
  have ok: "ring_ok f bs bt (shared c)" and ix: "ring_index f bt c" using inv by (auto simp: ring_inv_def)
  note D = ring_okD [OF ok] and alone = alone_in_section [OF inv i]
  have lt: "unat (wr_index (p_head (seg f (shared c)))) < unat bt" "unat (rd_index (p_head (seg f (shared c)))) < unat bt"
    using ok by (simp_all only: ring_ok_def)
  note ix_wr = index_step [OF lt(1) conjunct1 [OF ix [unfolded ring_index_def]]]
  note ix_rd = index_step [OF lt(2) conjunct2 [OF ix [unfolded ring_index_def]]]
  note ix' = ix [unfolded ring_index_def]
  from ring_inv_proc [OF inv i] a show ?thesis
  proof (cases rule: ring_proc_cases)
    case (1 x cs pc)
    from 1(3) show ?thesis
      using ok w 1(1,2,4) D i ix' alone [of "Calls (produce_call x # cs)"] ix_wr
      by (cases rule: pc_cases; cases cs)
        (auto simp: ring_index_def call_nth exec_simps total_held_update held_mutex_def
          algebra_simps dest!: exec_P_Inr exec_V_Inr)
  next
    case (2 cs pc)
    from 2(2) show ?thesis
      using ok w 2(1,3) D i ix' alone [of "Calls (consume_call # cs)"] ix_rd
      by (cases rule: pc_cases; cases cs)
        (auto simp: ring_index_def call_nth exec_simps total_held_update held_mutex_def
          algebra_simps Let_def dest!: exec_P_Inr exec_V_Inr)
  qed
qed

lemma slot_Copy_in:
  assumes "ring_ok f bs bt w" "length x = unat bs" "m < unat bt"
  shows "slot ((seg f w)\<lparr>p_payload :=
    take (unat (wr_index (p_head (seg f w))) * unat bs) (p_payload (seg f w)) @ x @
    drop (unat (wr_index (p_head (seg f w))) * unat bs + unat bs) (p_payload (seg f w))\<rparr>) m =
    (if m = unat (wr_index (p_head (seg f w))) then x else slot (seg f w) m)"
proof -
  have "unat (wr_index (p_head (seg f w))) < unat bt" "length (p_payload (seg f w)) = unat bs * unat bt"
    "block_size (p_head (seg f w)) = bs"
    using assms(1) by (simp_all only: ring_ok_def)
  then show ?thesis
    using slot_write [of x "unat bs" "unat (wr_index (p_head (seg f w)))" "unat bt" m "p_payload (seg f w)"] assms(2,3)
    by (simp add: slot_def Let_def del: take_append drop_append)
qed

text \<open>What the accounts say before a copy: there is room, there is something to take.\<close>

lemma room_for_one:
  assumes "ring_inv f bs bt c" "i < length (procs c)" "held_space (procs c ! i) = 1"
  shows "stock (shared c) < int (unat bt)"
  using ring_space.held_le [of f c "int (unat bt)" i] assms sval_bounds [of sem_produce f "shared c"]
    ring_okD(2) [of f bs bt "shared c"] by (auto simp: ring_inv_def)

lemma one_to_take:
  assumes "ring_inv f bs bt c" "i < length (procs c)" "held_items (procs c ! i) = 1"
  shows "0 < stock (shared c)"
  using ring_items.held_le [of f c 0 i] assms sval_bounds [of sem_consume f "shared c"]
    ring_okD(3) [of f bs bt "shared c"] by (auto simp: ring_inv_def)

lemma wr_at_head:
  assumes inv: "ring_inv f bs bt c" and i: "i < length (procs c)" "procs c ! i = (2, Calls (x # cs))"
  shows "unat (wr_index (p_head (seg f (shared c)))) = length (produced (shared c)) mod unat bt"
    and "unat (rd_index (p_head (seg f (shared c)))) = length (consumed (shared c)) mod unat bt"
proof -
  have "held_mutex (procs c ! i) = 1" using i(2) by (simp add: held_mutex_def)
  note z = alone_in_section [OF inv i this]
  have "ring_index f bt c" using inv by (simp add: ring_inv_def)
  then have "int (unat (wr_index (p_head (seg f (shared c))))) = int (length (produced (shared c))) mod int (unat bt)"
    "int (unat (rd_index (p_head (seg f (shared c))))) = int (length (consumed (shared c))) mod int (unat bt)"
    by (simp_all add: ring_index_def z)
  then show "unat (wr_index (p_head (seg f (shared c)))) = length (produced (shared c)) mod unat bt"
    "unat (rd_index (p_head (seg f (shared c)))) = length (consumed (shared c)) mod unat bt"
    by (simp_all only: of_nat_mod [symmetric] of_nat_eq_iff)
qed

lemma ring_blocks_Copy_in:
  assumes inv: "ring_inv f bs bt c" and i: "i < length (procs c)" "procs c ! i = (2, Calls (produce_call x # cs))"
    and x: "length x = unat bs" and w: "ring_exec f i (Copy_in x) (shared c) = Inr w"
  shows "ring_blocks f bt w"
proof -
  let ?w = "shared c" let ?P = "length (produced ?w)" let ?C = "length (consumed ?w)"
  have ok: "ring_ok f bs bt ?w" and b: "ring_blocks f bt ?w" using inv by (auto simp: ring_inv_def)
  have CP: "?C \<le> ?P" by (rule ring_blocks_le [OF b])
  have "stock ?w < int (unat bt)" using room_for_one [OF inv i(1)] i(2) by (simp add: held_space_def)
  then have room: "?P - ?C < unat bt" using CP unfolding stock_def by linarith
  have t: "0 < unat bt" using room by linarith
  note wr = wr_at_head(1) [OF inv i]
  have "slot (seg f w) (k mod unat bt) = (produced ?w @ [x]) ! k" if k: "?C \<le> k" "k < Suc ?P" for k
  proof (cases "k = ?P")
    case True
    have "unat (wr_index (p_head (seg f ?w))) < unat bt" using ok by (simp_all only: ring_ok_def)
    then show ?thesis
      using w True by (auto simp: exec_Copy_in [OF ok x] slot_Copy_in [OF ok x] wr [symmetric])
  next
    case False
    then have "k mod unat bt \<noteq> ?P mod unat bt" using k room by (intro mod_neq_below) auto
    moreover have "slot (seg f ?w) (k mod unat bt) = produced ?w ! k"
      using b k False by (auto simp: ring_blocks_def)
    ultimately show ?thesis
      using w t k False
      by (auto simp: exec_Copy_in [OF ok x] slot_Copy_in [OF ok x, of "k mod unat bt", unfolded wr] wr nth_append)
  qed
  moreover have "produced w = produced ?w @ [x]" "consumed w = consumed ?w"
    using w by (auto simp: exec_Copy_in [OF ok x])
  ultimately show ?thesis using b CP by (auto simp: ring_blocks_def)
qed

lemma ring_blocks_Copy_out:
  assumes inv: "ring_inv f bs bt c" and i: "i < length (procs c)" "procs c ! i = (2, Calls (consume_call # cs))"
    and w: "ring_exec f i Copy_out (shared c) = Inr w"
  shows "ring_blocks f bt w"
proof -
  let ?w = "shared c" let ?P = "length (produced ?w)" let ?C = "length (consumed ?w)"
  have ok: "ring_ok f bs bt ?w" and b: "ring_blocks f bt ?w" using inv by (auto simp: ring_inv_def)
  have "0 < stock ?w" using one_to_take [OF inv i(1)] i(2) by (simp add: held_items_def)
  then have CP: "?C < ?P" by (simp add: stock_def)
  have "slot (seg f ?w) (unat (rd_index (p_head (seg f ?w)))) = produced ?w ! ?C"
    unfolding wr_at_head(2) [OF inv i] using b CP by (simp add: ring_blocks_def)
  then have w': "w = ?w\<lparr>bufs := (bufs ?w)(i := produced ?w ! ?C), consumed := consumed ?w @ [(i, produced ?w ! ?C)]\<rparr>"
    using w by (simp add: exec_Copy_out [OF ok] Let_def)
  show ?thesis using b CP by (auto simp: ring_blocks_def w' take_Suc_conv_app_nth)
qed

lemma ring_blocks_step:
  assumes inv: "ring_inv f bs bt c" and i: "i < length (procs c)"
    and a: "cur (procs c ! i) = Some a" and w: "ring_exec f i a (shared c) = Inr w"
  shows "ring_blocks f bt w"
proof -
  have ok: "ring_ok f bs bt (shared c)" and b: "ring_blocks f bt (shared c)" using inv by (auto simp: ring_inv_def)
  note D = ring_okD [OF ok]
  from ring_inv_proc [OF inv i] a show ?thesis
  proof (cases rule: ring_proc_cases)
    case (1 x cs pc)
    from 1(3) show ?thesis
      using ok w 1(1,2,4) D b ring_blocks_Copy_in [OF inv i _ 1(1), of cs w]
      by (cases rule: pc_cases) (auto simp: ring_blocks_def call_nth exec_simps dest!: exec_P_Inr exec_V_Inr)
  next
    case (2 cs pc)
    from 2(2) show ?thesis
      using ok w 2(1,3) D b ring_blocks_Copy_out [OF inv i, of cs w]
      by (cases rule: pc_cases) (auto simp: ring_blocks_def call_nth exec_simps Let_def dest!: exec_P_Inr exec_V_Inr)
  qed
qed

lemma log_of_simps [simp]:
  "log_of j (xs @ ys) = log_of j xs @ log_of j ys"
  "log_of j [(i, b)] = (if i = j then [b] else [])"
  "log_of j [] = []"
  by (simp_all add: log_of_def)

lemma ring_logs_step:
  assumes inv: "ring_inv f bs bt c" and i: "i < length (procs c)"
    and a: "cur (procs c ! i) = Some a" and w: "ring_exec f i a (shared c) = Inr w"
  shows "ring_logs (after i w c)"
proof -
  have ok: "ring_ok f bs bt (shared c)" and l: "ring_logs c" using inv by (auto simp: ring_inv_def)
  note D = ring_okD [OF ok]
  have li: "log_of i (consumed (shared c)) = log_of i (printed (shared c)) @
      (if at 3 6 True (procs c ! i) = 1 then [bufs (shared c) i] else [])"
    using l i by (simp add: ring_logs_def)
  have other: "log_of j (consumed w) = log_of j (consumed (shared c)) \<and> log_of j (printed w) = log_of j (printed (shared c))
      \<and> bufs w j = bufs (shared c) j" if "j \<noteq> i" for j
    using w D ok that
    by (cases a) (auto simp: exec_simps ring_exec.simps Let_def bnd_eq_Inr)
  have self: "log_of i (consumed w) = log_of i (printed w) @
      (if at 3 6 True (advance (procs c ! i)) = 1 then [bufs w i] else [])"
    using ring_inv_proc [OF inv i] a
  proof (cases rule: ring_proc_cases)
    case (1 x cs pc)
    from 1(3) show ?thesis
      using ok w 1(1,2,4) D li
      by (cases rule: pc_cases; cases cs) (auto simp: call_nth exec_simps dest!: exec_P_Inr exec_V_Inr)
  next
    case (2 cs pc)
    from 2(2) show ?thesis
      using ok w 2(1,3) D li
      by (cases rule: pc_cases; cases cs) (auto simp: call_nth exec_simps Let_def dest!: exec_P_Inr exec_V_Inr)
  qed
  show ?thesis unfolding ring_logs_def
  proof (intro allI impI)
    fix j assume "j < length (procs (after i w c))"
    then show "log_of j (consumed (shared (after i w c))) = log_of j (printed (shared (after i w c))) @
        (if at 3 6 True (procs (after i w c) ! j) = 1 then [bufs (shared (after i w c)) j] else [])"
      using self other [of j] l by (cases "j = i") (simp_all add: ring_logs_def)
  qed
qed

end
