(* ===== verification/RingProps.thy ===== *)
theory RingProps
  imports RingCorrect
begin

text \<open>
  What the shared-memory ring promises to its producers and consumers: initialisation, order, mutual
  exclusion, absence of undefined behaviour and of deadlock, and the complete run of \<open>produce.c\<close> against
  \<open>consume.c\<close>.
\<close>

subsection \<open>No action goes wrong\<close>

lemma ring_space_le:
  "ring_inv f bs bt c \<Longrightarrow> sval f sem_produce (shared c) + stock (shared c) \<le> int (unat bt)"
  using ring_space.level_le [of f c "int (unat bt)"] by (simp add: ring_inv_def)

lemma V_fits:
  assumes inv: "ring_inv f bs bt c" and i: "i < length (procs c)"
  shows "held_mutex (procs c ! i) = 1 \<Longrightarrow> sval f sem_mutex (shared c) < SEMVMX"
    and "held_space (procs c ! i) = 1 \<Longrightarrow> sval f sem_produce (shared c) < SEMVMX"
    and "held_items (procs c ! i) = 1 \<Longrightarrow> sval f sem_consume (shared c) < SEMVMX"
proof -
  have b: "ring_mutex.balance f c = 1" "ring_space.balance f c = int (unat bt)" "ring_items.balance f c = 0"
    and bt: "int (unat bt) \<le> SEMVMX" and st: "0 \<le> stock (shared c)" and ok: "ring_ok f bs bt (shared c)"
    using inv stock_nonneg by (auto simp: ring_inv_def)
  have v: "0 \<le> sval f sem_produce (shared c)" using sval_bounds [of sem_produce f] ring_okD(2) [OF ok] by blast
  show "held_mutex (procs c ! i) = 1 \<Longrightarrow> sval f sem_mutex (shared c) < SEMVMX"
    using ring_mutex.held_le [OF b(1) i] by (simp add: SEMVMX_def)
  show "held_space (procs c ! i) = 1 \<Longrightarrow> sval f sem_produce (shared c) < SEMVMX"
    using ring_space.held_le [OF b(2) i] bt st by linarith
  show "held_items (procs c ! i) = 1 \<Longrightarrow> sval f sem_consume (shared c) < SEMVMX"
    using ring_items.held_le [OF b(3) i] ring_space_le [OF inv] v bt by linarith
qed

text \<open>The only way not to proceed is to wait for a semaphore whose value is 0.\<close>

lemma ring_exec_Inl:
  assumes inv: "ring_inv f bs bt c" and i: "i < length (procs c)"
    and a: "cur (procs c ! i) = Some a" and e: "ring_exec f i a (shared c) = Inl e"
  shows "e = Blocked \<and> (\<exists>sel. a = P sel \<and> sval f sel (shared c) = 0)"
proof -
  have ok: "ring_ok f bs bt (shared c)" using inv by (simp add: ring_inv_def)
  note D = ring_okD [OF ok] and V = V_fits [OF inv i]
  from ring_inv_proc [OF inv i] a show ?thesis
  proof (cases rule: ring_proc_cases)
    case (1 x cs pc)
    from 1(3) show ?thesis
      using ok e 1(1,2,4) D V
      by (cases rule: pc_cases)
        (auto simp: call_nth exec_simps exec_P exec_V held_mutex_def held_items_def split: if_splits)
  next
    case (2 cs pc)
    from 2(2) show ?thesis
      using ok e 2(1,3) D V
      by (cases rule: pc_cases)
        (auto simp: call_nth exec_simps exec_P exec_V held_mutex_def held_space_def Let_def split: if_splits)
  qed
qed

lemma ring_quiet: "ring_inv f bs bt c \<Longrightarrow> quiet (ring_exec f) c"
  unfolding quiet_def using ring_exec_Inl by blast

lemma ring_inv_step:
  assumes inv: "ring_inv f bs bt c" and i: "i < length (procs c)"
    and a: "cur (procs c ! i) = Some a" and w: "ring_exec f i a (shared c) = Inr w"
  shows "ring_inv f bs bt (after i w c)"
proof -
  have ok: "ring_ok f bs bt (shared c)" and p: "ring_proc bs (procs c ! i)"
    using inv ring_inv_proc [OF inv i] by (auto simp: ring_inv_def)
  have "\<forall>q\<in>set ((procs c)[i := advance (procs c ! i)]). ring_proc bs q"
    using inv ring_proc_advance [OF p] by (auto simp: ring_inv_def dest!: set_update_subset_insert [THEN subsetD])
  then show ?thesis
    using inv ring_ok_step [OF ok p a w] ring_mutex.balance_step [OF i p ok a w]
      ring_space.balance_step [OF i p ok a w] ring_items.balance_step [OF i p ok a w]
      ring_index_step [OF assms] ring_blocks_step [OF assms] ring_logs_step [OF assms]
    by (simp add: ring_inv_def)
qed

lemma ring_reach_inv:
  "(interleave (ring_exec f))\<^sup>*\<^sup>* c0 c \<Longrightarrow> ring_inv f bs bt c0 \<Longrightarrow> ring_inv f bs bt c"
  by (rule interleave_invariant [where I = "ring_inv f bs bt"]) (auto intro: ring_quiet ring_inv_step)

subsection \<open>Initialisation\<close>

definition fifo_fresh :: "int \<Rightarrow> 32 word \<Rightarrow> 32 word \<Rightarrow> ipc \<Rightarrow> bool" where
  "fifo_fresh key bs bt k \<longleftrightarrow>
     key \<noteq> IPC_PRIVATE \<and> key + 1 \<noteq> IPC_PRIVATE \<and> key + 2 \<noteq> IPC_PRIVATE \<and> shm_ids k key = None \<and>
     sem_ids (sems k) key = None \<and> sem_ids (sems k) (key + 1) = None \<and> sem_ids (sems k) (key + 2) = None \<and>
     sizeof_Shmhead + unat (bs * bt) \<le> shm_max k"

definition fresh_fifo :: "ipc \<Rightarrow> Shmfifo" where
  "fresh_fifo k = (let n = next_semid (sems k) in
     \<lparr>shmid = next_shmid k, sem_mutex = n, sem_produce = n + 1, sem_consume = n + 2\<rparr>)"

definition fresh_ipc :: "int \<Rightarrow> 32 word \<Rightarrow> 32 word \<Rightarrow> ipc \<Rightarrow> ipc" where
  "fresh_ipc key bs bt k = (let n = next_semid (sems k); i = next_shmid k in
     k\<lparr>sems := \<lparr>sem_ids = (sem_ids (sems k))(key \<mapsto> n, key + 1 \<mapsto> n + 1, key + 2 \<mapsto> n + 2),
               sem_sets = (sem_sets (sems k))(n \<mapsto> [1], n + 1 \<mapsto> [sint bt], n + 2 \<mapsto> [0]), next_semid = n + 3\<rparr>,
       shm_ids := (shm_ids k)(key \<mapsto> i),
       shm_segs := (shm_segs k)(i \<mapsto>
         \<lparr>p_head = \<lparr>block_size = bs, block_total = bt, rd_index = 0, wr_index = 0\<rparr>,
          p_payload = replicate (unat (bs * bt)) 0\<rparr>),
       next_shmid := Suc i\<rparr>)"

lemma create_sem_fresh:
  assumes "key \<noteq> IPC_PRIVATE" "sem_ids (sems k) key = None" "0 \<le> v" "v \<le> SEMVMX"
  shows "create_sem key v k = Inr (next_semid (sems k), k\<lparr>sems :=
    \<lparr>sem_ids = (sem_ids (sems k))(key \<mapsto> next_semid (sems k)),
     sem_sets = (sem_sets (sems k))(next_semid (sems k) \<mapsto> [v]), next_semid = Suc (next_semid (sems k))\<rparr>\<rparr>)"
  using assms by (simp add: create_sem_def sem_create_key sem_setval_one put_value_def)

lemma fifo_init_fresh:
  assumes "fifo_fresh key bs bt k" "0 \<le> sint bt" "sint bt \<le> SEMVMX"
  shows "fifo_init key bs bt k = Inr (fresh_fifo k, fresh_ipc key bs bt k)"
  using assms
  by (simp add: fifo_fresh_def fifo_init_def fifo_init_shm_def fifo_init_fill_def create_sem_fresh
      fresh_fifo_def fresh_ipc_def Let_def SEMVMX_def)

lemma fifo_init_second:
  assumes "fifo_fresh key bs bt k"
  shows "fifo_init key bs' bt' (fresh_ipc key bs bt k) = Inr (fresh_fifo k, fresh_ipc key bs bt k)"
  using assms
  by (simp add: fifo_fresh_def fifo_init_def fifo_init_open_def sem_open_key
      fresh_fifo_def fresh_ipc_def Let_def)

text \<open>A process of the repository's kind: calls of \<open>fifo_produce\<close> with blocks of the right size and of
  \<open>fifo_consume\<close>, each followed by the output.\<close>

definition ring_main :: "32 word \<Rightarrow> ring_act list list \<Rightarrow> bool" where
  "ring_main bs m \<longleftrightarrow> (\<forall>c\<in>set m. c = consume_call \<or> (\<exists>x. length x = unat bs \<and> c = produce_call x))"

definition ring_sizes :: "32 word \<Rightarrow> 32 word \<Rightarrow> bool" where
  "ring_sizes bs bt \<longleftrightarrow> 0 < unat bt \<and> int (unat bt) \<le> SEMVMX \<and> unat bs * unat bt < 2 ^ 32"

lemma ring_sizes_sint: "ring_sizes bs bt \<Longrightarrow> sint bt = int (unat bt)"
proof -
  assume "ring_sizes bs bt"
  then have "uint bt < 2 ^ 31" by (simp add: ring_sizes_def SEMVMX_def)
  moreover have "0 \<le> uint bt" by simp
  ultimately have "signed_take_bit 31 (uint bt) = uint bt" by (intro signed_take_bit_int_eq_self) linarith+
  then show ?thesis by (simp add: sint_uint)
qed

lemma total_held_start:
  "(\<And>m. m \<in> set mains \<Longrightarrow> h (0, Calls m) = 0) \<Longrightarrow> total_held h (map (\<lambda>m. (0, Calls m)) mains) = 0"
  by (induction mains) simp_all

lemma at_start: "0 < lo \<Longrightarrow> at lo hi b (0, Calls m) = 0"
  by (cases m) simp_all

lemma ring_inv_start:
  assumes fresh: "fifo_fresh key bs bt k" and sz: "ring_sizes bs bt" and m: "\<forall>m\<in>set mains. ring_main bs m"
  shows "ring_inv (fresh_fifo k) bs bt (ring_start (fresh_ipc key bs bt k) mains)"
proof -
  let ?f = "fresh_fifo k" let ?c = "ring_start (fresh_ipc key bs bt k) mains"
  have n: "unat (bs * bt) = unat bs * unat bt"
    using sz by (simp add: ring_sizes_def unat_word_ariths)
  have v: "sval ?f sem_mutex (shared ?c) = 1" "sval ?f sem_produce (shared ?c) = int (unat bt)"
    "sval ?f sem_consume (shared ?c) = 0"
    using ring_sizes_sint [OF sz] by (simp_all add: sval_def fresh_fifo_def fresh_ipc_def ring_start_def Let_def)
  have s: "seg ?f (shared ?c) = \<lparr>p_head = \<lparr>block_size = bs, block_total = bt, rd_index = 0, wr_index = 0\<rparr>,
      p_payload = replicate (unat (bs * bt)) 0\<rparr>"
    by (simp add: seg_def fresh_fifo_def fresh_ipc_def ring_start_def Let_def)
  have "has_sem (sem_mutex ?f) (shared ?c)" "has_sem (sem_produce ?f) (shared ?c)"
    "has_sem (sem_consume ?f) (shared ?c)" "distinct [sem_mutex ?f, sem_produce ?f, sem_consume ?f]"
    using sz ring_sizes_sint [OF sz]
    by (simp_all add: ring_sizes_def has_sem_def SEMVMX_def fresh_fifo_def fresh_ipc_def ring_start_def Let_def)
  then have "ring_ok ?f bs bt (shared ?c)"
    using sz unfolding ring_ok_def s by (simp add: n ring_sizes_def)
  moreover have "\<forall>p\<in>set (procs ?c). ring_proc bs p"
    using m by (auto simp: ring_start_def ring_main_def)
  moreover have "total_held h (procs ?c) = 0" if "h \<in> {held_mutex, held_space, held_items, at_wr, at_rd}" for h
    using that
    by (auto simp: ring_start_def held_mutex_def held_space_def held_items_def intro!: total_held_start at_start)
      (auto simp: at_start)
  moreover have "ring_logs ?c" by (auto simp: ring_logs_def ring_start_def at_start)
  ultimately show ?thesis
    using sz by (simp add: ring_inv_def ring_mutex.balance_def ring_space.balance_def ring_items.balance_def v
        ring_index_def ring_blocks_def ring_sizes_def s) (simp add: ring_start_def stock_def)
qed

definition ring_setup :: "int \<Rightarrow> 32 word \<Rightarrow> 32 word \<Rightarrow> ipc \<Rightarrow> ring_act list list list \<Rightarrow> Shmfifo \<Rightarrow>
    (ring_world, ring_act) conf \<Rightarrow> bool" where
  "ring_setup key bs bt k mains f c0 \<longleftrightarrow>
     fifo_fresh key bs bt k \<and> ring_sizes bs bt \<and> (\<forall>m\<in>set mains. ring_main bs m) \<and>
     (\<exists>k'. fifo_init key bs bt k = Inr (f, k') \<and> c0 = ring_start k' mains)"

lemma ring_setup_start:
  assumes "ring_setup key bs bt k mains f c0"
  shows "f = fresh_fifo k" "c0 = ring_start (fresh_ipc key bs bt k) mains"
proof -
  have sz: "ring_sizes bs bt" using assms by (simp add: ring_setup_def)
  then have "0 \<le> sint bt" "sint bt \<le> SEMVMX" using ring_sizes_sint [OF sz] by (auto simp: ring_sizes_def)
  then show "f = fresh_fifo k" "c0 = ring_start (fresh_ipc key bs bt k) mains"
    using assms by (auto simp: ring_setup_def fifo_init_fresh)
qed

lemma ring_setup_reach:
  assumes "ring_setup key bs bt k mains f c0" "(interleave (ring_exec f))\<^sup>*\<^sup>* c0 c"
  shows "ring_inv f bs bt c"
proof -
  have "ring_inv f bs bt c0"
    using assms(1) ring_inv_start [of key bs bt k mains] unfolding ring_setup_start [OF assms(1)]
    by (simp add: ring_setup_def)
  then show ?thesis by (rule ring_reach_inv [OF assms(2)])
qed

lemma stuck_waits:
  assumes inv: "ring_inv f bs bt c" and st: "stuck (ring_exec f) c" and j: "j < length (procs c)"
  shows "procs c ! j = (0, Calls []) \<or>
    (\<exists>cs. procs c ! j = (0, Calls cs) \<and>
      (cur (procs c ! j) = Some (P sem_produce) \<and> sval f sem_produce (shared c) = 0 \<or>
       cur (procs c ! j) = Some (P sem_consume) \<and> sval f sem_consume (shared c) = 0))"
proof -
  have w: "cur (procs c ! l) = None \<or> (\<exists>sel. cur (procs c ! l) = Some (P sel) \<and> sval f sel (shared c) = 0)"
    if l: "l < length (procs c)" for l
    using stuckD [OF st l] ring_exec_Inl [OF inv l] by (cases "cur (procs c ! l)") auto
  have z: "held_mutex (procs c ! l) = 0" if l: "l < length (procs c)" for l
  proof (cases "cur (procs c ! l)")
    case None
    then obtain pc where "procs c ! l = (pc, Calls [])"
      using ring_inv_proc [OF inv l]
      by (cases "procs c ! l" rule: cur.cases) (auto split: if_splits)
    then show ?thesis by (simp add: held_mutex_def)
  next
    case (Some a)
    with ring_inv_proc [OF inv l] show ?thesis
    proof (cases rule: ring_proc_cases)
      case (1 x cs pc)
      from 1(3) show ?thesis
        using w [OF l] Some 1 by (cases rule: pc_cases) (auto simp: held_mutex_def call_nth)
    next
      case (2 cs pc)
      from 2(2) show ?thesis
        using w [OF l] Some 2 by (cases rule: pc_cases) (auto simp: held_mutex_def call_nth)
    qed
  qed
  have m: "sval f sem_mutex (shared c) = 1"
    using inv total_held_all_zero [of "procs c" held_mutex] z by (simp add: ring_inv_def ring_mutex.balance_def)
  show ?thesis
  proof (cases "cur (procs c ! j)")
    case None
    then show ?thesis
      using ring_inv_proc [OF inv j] by (cases "procs c ! j" rule: cur.cases) (auto split: if_splits)
  next
    case (Some a)
    with ring_inv_proc [OF inv j] show ?thesis
    proof (cases rule: ring_proc_cases)
      case (1 x cs pc)
      from 1(3) show ?thesis
        using w [OF j] Some 1 m by (cases rule: pc_cases) (auto simp: call_nth)
    next
      case (2 cs pc)
      from 2(2) show ?thesis
        using w [OF j] Some 2 m by (cases rule: pc_cases) (auto simp: call_nth)
    qed
  qed
qed

lemma stuck_counts:
  assumes inv: "ring_inv f bs bt c" and st: "stuck (ring_exec f) c"
  shows "sval f sem_produce (shared c) + stock (shared c) = int (unat bt)"
    and "sval f sem_consume (shared c) = stock (shared c)"
proof -
  have z: "held_space (procs c ! l) = 0 \<and> held_items (procs c ! l) = 0" if "l < length (procs c)" for l
    using stuck_waits [OF inv st that] by (auto simp: held_space_def held_items_def at_start)
  then show "sval f sem_produce (shared c) + stock (shared c) = int (unat bt)"
    "sval f sem_consume (shared c) = stock (shared c)"
    using inv total_held_all_zero [of "procs c" held_space] total_held_all_zero [of "procs c" held_items]
    by (simp_all add: ring_inv_def ring_space.balance_def ring_items.balance_def)
qed

subsection \<open>The promises\<close>

text \<open>The first caller of \<open>fifo_init\<close> creates the segment and the semaphores with the values 1, the
  number of blocks, and 0; a later caller finds them: it gets the same identifiers and changes nothing,
  whatever sizes it passes.\<close>

theorem fifo_init_shared:
  assumes "fifo_fresh key bs bt k" "ring_sizes bs bt"
  shows "\<exists>f k'. fifo_init key bs bt k = Inr (f, k') \<and> fifo_init key bs' bt' k' = Inr (f, k') \<and>
    sem_getval (sem_mutex f) (sems k') = Inr 1 \<and> sem_getval (sem_produce f) (sems k') = Inr (int (unat bt)) \<and>
    sem_getval (sem_consume f) (sems k') = Inr 0"
proof -
  have "0 \<le> sint bt" "sint bt \<le> SEMVMX" using ring_sizes_sint [OF assms(2)] assms(2) by (auto simp: ring_sizes_def)
  then show ?thesis
    using fifo_init_fresh [OF assms(1)] fifo_init_second [OF assms(1), of bs' bt'] ring_sizes_sint [OF assms(2)]
    by (simp add: fresh_fifo_def fresh_ipc_def Let_def sem_getval_one [of _ _ _])
qed

definition ipc_boot :: ipc where
  "ipc_boot = \<lparr>sems = sem_boot, shm_ids = Map.empty, shm_segs = Map.empty, next_shmid = 0, shm_max = 1000\<rparr>"

lemma ipc_boot_fresh: "fifo_fresh 7 36 3 ipc_boot" "ring_sizes 36 3"
  by (simp_all add: fifo_fresh_def ipc_boot_def sem_boot_def IPC_PRIVATE_def sizeof_Shmhead_def ring_sizes_def SEMVMX_def)

theorem fifo_init_shared_witness:
  "\<exists>f k'. fifo_init 7 36 3 ipc_boot = Inr (f, k') \<and> sem_getval (sem_produce f) (sems k') = Inr 3"
  using fifo_init_shared [OF ipc_boot_fresh, of 36 3] by auto

text \<open>The initialisation is not atomic: a second process that calls \<open>fifo_init\<close> when the first one has
  created the segment but not yet the semaphores finds the segment, fails to open a semaphore and exits.\<close>

theorem fifo_init_race:
  assumes "fifo_fresh key bs bt k"
  shows "\<exists>i k1. fifo_init_shm key bs bt k = Inr (i, k1) \<and> fifo_init key bs bt k1 = Inl Exit_failure"
  using assms
  by (simp add: fifo_fresh_def fifo_init_shm_def fifo_init_def fifo_init_open_def sem_open_key Let_def)

theorem fifo_init_race_witness:
  "\<exists>i k1. fifo_init_shm 7 36 3 ipc_boot = Inr (i, k1) \<and> fifo_init 7 36 3 k1 = Inl Exit_failure"
  by (rule fifo_init_race [OF ipc_boot_fresh(1)])

text \<open>C24: the ring is a bounded first-in first-out buffer under every interleaving of any number of
  producers and consumers: the blocks taken out so far are a prefix of the blocks put in so far, at most
  \<open>block_total\<close> are in between, and each consumer prints what it took out, in order.\<close>

theorem ring_fifo:
  assumes "ring_setup key bs bt k mains f c0" "(interleave (ring_exec f))\<^sup>*\<^sup>* c0 c"
  shows "(\<exists>stored. produced (shared c) = map snd (consumed (shared c)) @ stored \<and> length stored \<le> unat bt) \<and>
    (\<forall>j<length (procs c). \<exists>pending. log_of j (consumed (shared c)) = log_of j (printed (shared c)) @ pending \<and>
      length pending \<le> 1)"
proof -
  have inv: "ring_inv f bs bt c" by (rule ring_setup_reach [OF assms])
  have b: "ring_blocks f bt (shared c)" and l: "ring_logs c" and ok: "ring_ok f bs bt (shared c)"
    using inv by (auto simp: ring_inv_def)
  let ?n = "length (consumed (shared c))"
  have "produced (shared c) = map snd (consumed (shared c)) @ drop ?n (produced (shared c))"
    using b by (simp add: ring_blocks_def)
  moreover have "stock (shared c) \<le> int (unat bt)"
    using ring_space_le [OF inv] sval_bounds [of sem_produce f] ring_okD(2) [OF ok] by fastforce
  then have "length (drop ?n (produced (shared c))) \<le> unat bt" unfolding stock_def length_drop by linarith
  moreover have "\<exists>pending. log_of j (consumed (shared c)) = log_of j (printed (shared c)) @ pending \<and>
      length pending \<le> 1" if "j < length (procs c)" for j
    using l that by (auto simp: ring_logs_def)
  ultimately show ?thesis by blast
qed

definition ring_demo :: "(ring_world, ring_act) conf" where
  "ring_demo = ring_start (fresh_ipc 7 36 3 ipc_boot) [produce_main, consume_main]"

lemma student_length: "length (student ''orris'' v) = 36"
  by (simp add: student_def int_bytes_def)

lemma fifo_init_boot: "fifo_init 7 36 3 ipc_boot = Inr (fresh_fifo ipc_boot, fresh_ipc 7 36 3 ipc_boot)"
  using ring_sizes_sint [OF ipc_boot_fresh(2)] by (intro fifo_init_fresh ipc_boot_fresh(1)) (auto simp: SEMVMX_def)

lemma the_mains: "ring_main 36 produce_main" "ring_main 36 consume_main"
  by (auto simp: ring_main_def produce_main_def consume_main_def produce_call_def consume_call_def
      Let_def student_length)

lemma ring_demo_setup: "ring_setup 7 36 3 ipc_boot [produce_main, consume_main] (fresh_fifo ipc_boot) ring_demo"
  using ipc_boot_fresh by (auto simp: ring_setup_def ring_demo_def the_mains fifo_init_boot)

theorem ring_fifo_witness:
  "\<exists>stored. produced (shared ring_demo) = map snd (consumed (shared ring_demo)) @ stored \<and> length stored \<le> 3"
  using ring_fifo [OF ring_demo_setup rtranclp.rtrancl_refl] by simp

text \<open>C25: mutual exclusion: two processes are never both between \<open>sem_p(sem_mutex)\<close> and
  \<open>sem_v(sem_mutex)\<close>.\<close>

theorem ring_mutual_exclusion:
  assumes "ring_setup key bs bt k mains f c0" "(interleave (ring_exec f))\<^sup>*\<^sup>* c0 c"
    and "i < length (procs c)" "j < length (procs c)" "i \<noteq> j"
  shows "\<not> (held_mutex (procs c ! i) = 1 \<and> held_mutex (procs c ! j) = 1)"
proof -
  have inv: "ring_inv f bs bt c" by (rule ring_setup_reach [OF assms(1,2)])
  then have "ring_mutex.balance f c = 1" "0 \<le> sval f sem_mutex (shared c)"
    using sval_bounds [of sem_mutex f] ring_okD(1) by (auto simp: ring_inv_def)
  then show ?thesis using ring_mutex.exclusive [OF _ _ assms(3-5)] by fastforce
qed

theorem ring_mutual_exclusion_witness:
  "\<not> (held_mutex (procs ring_demo ! 0) = 1 \<and> held_mutex (procs ring_demo ! 1) = 1)"
  by (rule ring_mutual_exclusion [OF ring_demo_setup rtranclp.rtrancl_refl]) (simp_all add: ring_demo_def ring_start_def)

text \<open>C26: no undefined behaviour and no failure: in a reachable configuration no next action copies
  outside the segment or the buffer, divides by zero, or exits; it is performed or waits for a semaphore.\<close>

theorem ring_no_fault:
  assumes "ring_setup key bs bt k mains f c0" "(interleave (ring_exec f))\<^sup>*\<^sup>* c0 c"
    and "i < length (procs c)" "cur (procs c ! i) = Some a" "ring_exec f i a (shared c) = Inl e"
  shows "e = Blocked \<and> (\<exists>sel. a = P sel)"
  using ring_exec_Inl [OF ring_setup_reach [OF assms(1,2)] assms(3-5)] by blast

theorem ring_no_fault_witness:
  "ring_exec (fresh_fifo ipc_boot) 1 (P sem_consume) (shared ring_demo) = Inl Blocked \<and>
   cur (procs ring_demo ! 1) = Some (P sem_consume)"
proof -
  let ?e = "ring_exec (fresh_fifo ipc_boot) 1 (P sem_consume) (shared ring_demo)"
  have c: "cur (procs ring_demo ! 1) = Some (P sem_consume)"
    by (simp add: ring_demo_def ring_start_def consume_main_def fifo_consume_def upt_rec)
  obtain e where e: "?e = Inl e"
    by (auto simp: ring_demo_def ring_start_def fresh_fifo_def fresh_ipc_def Let_def exec_P has_sem_def sval_def SEMVMX_def)
  show ?thesis
    using ring_no_fault [OF ring_demo_setup rtranclp.rtrancl_refl _ c e] c e
    by (simp add: ring_demo_def ring_start_def)
qed

text \<open>C27: no deadlock: when no process can proceed, all of them have ended, or the ring is full and only
  producers are left, waiting to produce, or it is empty and only consumers are left, waiting to consume.\<close>

theorem ring_no_deadlock:
  assumes "ring_setup key bs bt k mains f c0" "(interleave (ring_exec f))\<^sup>*\<^sup>* c0 c" "stuck (ring_exec f) c"
  shows "(\<forall>p\<in>set (procs c). p = (0, Calls [])) \<or>
    stock (shared c) = int (unat bt) \<and> (\<forall>p\<in>set (procs c). p = (0, Calls []) \<or> cur p = Some (P sem_produce)) \<or>
    stock (shared c) = 0 \<and> (\<forall>p\<in>set (procs c). p = (0, Calls []) \<or> cur p = Some (P sem_consume))"
proof -
  have inv: "ring_inv f bs bt c" by (rule ring_setup_reach [OF assms(1,2)])
  note n = stuck_counts [OF inv assms(3)]
  have "0 < int (unat bt)" using assms(1) unfolding ring_setup_def ring_sizes_def by linarith
  then have n2: "sval f sem_produce (shared c) = 0 \<Longrightarrow> sval f sem_consume (shared c) \<noteq> 0" using n by linarith
  have s: "p = (0, Calls []) \<or> cur p = Some (P sem_produce) \<and> sval f sem_produce (shared c) = 0 \<or>
      cur p = Some (P sem_consume) \<and> sval f sem_consume (shared c) = 0" if "p \<in> set (procs c)" for p
    using stuck_waits [OF inv assms(3)] that by (metis in_set_conv_nth)
  consider "sval f sem_produce (shared c) = 0" | "sval f sem_consume (shared c) = 0"
    | "sval f sem_produce (shared c) \<noteq> 0" "sval f sem_consume (shared c) \<noteq> 0" by blast
  then show ?thesis
  proof cases
    case 1
    then have "stock (shared c) = int (unat bt)" using n by simp
    moreover have "\<forall>p\<in>set (procs c). p = (0, Calls []) \<or> cur p = Some (P sem_produce)" using s n2 [OF 1] by blast
    ultimately show ?thesis by blast
  next
    case 2
    then have "stock (shared c) = 0" using n by simp
    moreover have "\<forall>p\<in>set (procs c). p = (0, Calls []) \<or> cur p = Some (P sem_consume)" using s n2 2 by blast
    ultimately show ?thesis by blast
  next
    case 3
    then show ?thesis using s by blast
  qed
qed

definition ring_hungry :: "(ring_world, ring_act) conf" where
  "ring_hungry = ring_start (fresh_ipc 7 36 3 ipc_boot) [consume_main]"

lemma ring_hungry_setup: "ring_setup 7 36 3 ipc_boot [consume_main] (fresh_fifo ipc_boot) ring_hungry"
  using ipc_boot_fresh by (auto simp: ring_setup_def ring_hungry_def the_mains fifo_init_boot)

theorem ring_no_deadlock_witness:
  "stock (shared ring_hungry) = 0 \<and> cur (procs ring_hungry ! 0) = Some (P sem_consume)"
proof -
  have c: "cur (procs ring_hungry ! 0) = Some (P sem_consume)" "length (procs ring_hungry) = 1"
    by (simp_all add: ring_hungry_def ring_start_def consume_main_def fifo_consume_def upt_rec)
  have "stuck (ring_exec (fresh_fifo ipc_boot)) ring_hungry"
    using c
    by (simp add: stuck_def pstep_def exec_P has_sem_def sval_def SEMVMX_def ring_hungry_def ring_start_def
        fresh_fifo_def fresh_ipc_def Let_def)
  from ring_no_deadlock [OF ring_hungry_setup rtranclp.rtrancl_refl this]
  show ?thesis using c by (auto simp: stock_def ring_hungry_def ring_start_def)
qed

subsection \<open>One producer and one consumer, to the end\<close>

fun puts_of :: "ring_act list \<Rightarrow> block list" where
  "puts_of (a # b # Copy_in x # c) = [x]"
| "puts_of _ = []"

text \<open>The blocks a process has still to put, and how many it has still to take.\<close>

fun to_put :: "ring_act proc \<Rightarrow> block list" where
  "to_put (pc, Calls (c # cs)) = (if pc \<le> 2 then puts_of c else []) @ concat (map puts_of cs)"
| "to_put _ = []"

fun to_take :: "ring_act proc \<Rightarrow> nat" where
  "to_take (pc, Calls (c # cs)) = (if pc \<le> 2 \<and> consumes c then 1 else 0) + length (filter consumes cs)"
| "to_take _ = 0"

lemma puts_of_simps [simp]: "puts_of (produce_call x) = [x]" "puts_of consume_call = []"
  by (simp_all add: produce_call_def consume_call_def fifo_produce_def fifo_consume_def)

lemma to_put_step:
  assumes ok: "ring_ok f bs bt w" and p: "ring_proc bs p" "cur p = Some a" and e: "ring_exec f i a w = Inr w'"
  shows "\<exists>d. produced w' = produced w @ d \<and> to_put p = d @ to_put (advance p)"
    and "\<exists>d. consumed w' = consumed w @ d \<and> to_take p = length d + to_take (advance p) \<and> map fst d = replicate (length d) i"
proof -
  note D = ring_okD [OF ok]
  from p have "(\<exists>d. produced w' = produced w @ d \<and> to_put p = d @ to_put (advance p)) \<and>
    (\<exists>d. consumed w' = consumed w @ d \<and> to_take p = length d + to_take (advance p) \<and> map fst d = replicate (length d) i)"
  proof (cases rule: ring_proc_cases)
    case (1 x cs pc)
    from 1(3) show ?thesis
      using ok e 1(1,2,4) D
      by (cases rule: pc_cases; cases cs) (auto simp: call_nth exec_simps dest!: exec_P_Inr exec_V_Inr)
  next
    case (2 cs pc)
    from 2(2) show ?thesis
      using ok e 2(1,3) D
      by (cases rule: pc_cases; cases cs) (auto simp: call_nth exec_simps Let_def dest!: exec_P_Inr exec_V_Inr)
  qed
  then show "\<exists>d. produced w' = produced w @ d \<and> to_put p = d @ to_put (advance p)"
    "\<exists>d. consumed w' = consumed w @ d \<and> to_take p = length d + to_take (advance p) \<and> map fst d = replicate (length d) i"
    by blast+
qed

definition pair_inv :: "Shmfifo \<Rightarrow> 32 word \<Rightarrow> 32 word \<Rightarrow> block list \<Rightarrow> (ring_world, ring_act) conf \<Rightarrow> bool" where
  "pair_inv f bs bt xs c \<longleftrightarrow>
     ring_inv f bs bt c \<and> length (procs c) = 2 \<and>
     produced (shared c) @ to_put (procs c ! 0) = xs \<and> to_put (procs c ! 1) = [] \<and>
     length (consumed (shared c)) + to_take (procs c ! 1) = length xs \<and> to_take (procs c ! 0) = 0 \<and>
     log_of 1 (consumed (shared c)) = map snd (consumed (shared c))"

lemma log_of_all: "map fst d = replicate (length d) i \<Longrightarrow> log_of i d = map snd d"
  by (induction d) (auto simp: log_of_def)

lemma pair_inv_step:
  assumes inv: "pair_inv f bs bt xs c" and i: "i < length (procs c)"
    and a: "cur (procs c ! i) = Some a" and w: "ring_exec f i a (shared c) = Inr w"
  shows "pair_inv f bs bt xs (after i w c)"
proof -
  have r: "ring_inv f bs bt c" and len: "length (procs c) = 2" using inv by (auto simp: pair_inv_def)
  have ok: "ring_ok f bs bt (shared c)" using r by (simp add: ring_inv_def)
  obtain d where d: "produced w = produced (shared c) @ d" "to_put (procs c ! i) = d @ to_put (advance (procs c ! i))"
    using to_put_step(1) [OF ok ring_inv_proc [OF r i] a w] by blast
  obtain e where e: "consumed w = consumed (shared c) @ e" "to_take (procs c ! i) = length e + to_take (advance (procs c ! i))"
    "map fst e = replicate (length e) i"
    using to_put_step(2) [OF ok ring_inv_proc [OF r i] a w] by blast
  consider "i = 0" | "i = 1" using i len by linarith
  then show ?thesis
  proof cases
    case 1
    then have "e = []" using e(2) inv by (simp add: pair_inv_def)
    then show ?thesis
      using inv ring_inv_step [OF r i a w] d e 1 len by (simp add: pair_inv_def)
  next
    case 2
    then have "d = []" using d(2) inv by (simp add: pair_inv_def)
    then show ?thesis
      using inv ring_inv_step [OF r i a w] d e 2 len log_of_all [OF e(3)] by (simp add: pair_inv_def)
  qed
qed

lemma ring_proc_finite: "ring_proc bs p \<Longrightarrow> finite_proc p"
proof -
  assume p: "ring_proc bs p"
  then obtain pc cs where "p = (pc, Calls cs)" by (cases p; cases "snd p") auto
  then show ?thesis using p by (cases cs) auto
qed

lemma pair_inv_start:
  assumes "ring_setup key bs bt k [map produce_call xs, replicate (length xs) consume_call] f c0"
  shows "pair_inv f bs bt xs c0" "sum_list (map actions_left (procs c0)) = 14 * length xs"
proof -
  have c0: "c0 = ring_start (fresh_ipc key bs bt k) [map produce_call xs, replicate (length xs) consume_call]"
    by (rule ring_setup_start [OF assms])
  have "concat (map (puts_of \<circ> produce_call) ys) = ys" "filter consumes (map produce_call ys) = []" for ys
    by (induction ys) simp_all
  moreover have "concat (map puts_of (replicate n consume_call)) = []"
    "filter consumes (replicate n consume_call) = replicate n consume_call" for n
    by (induction n) simp_all
  ultimately have "to_put (0, Calls (map produce_call xs)) = xs" "to_take (0, Calls (map produce_call xs)) = 0"
    "to_put (0, Calls (replicate (length xs) consume_call)) = []"
    "to_take (0, Calls (replicate (length xs) consume_call)) = length xs"
    by (cases xs; simp)+
  then show "pair_inv f bs bt xs c0"
    using ring_setup_reach [OF assms rtranclp.rtrancl_refl] by (simp add: pair_inv_def c0 ring_start_def)
  show "sum_list (map actions_left (procs c0)) = 14 * length xs"
    by (simp add: c0 ring_start_def length_concat comp_def sum_list_triv sum_list_replicate)
qed

lemma sel_neq: "(sem_produce :: Shmfifo \<Rightarrow> nat) \<noteq> sem_consume" "(sem_produce :: Shmfifo \<Rightarrow> nat) \<noteq> sem_mutex" "(sem_consume :: Shmfifo \<Rightarrow> nat) \<noteq> sem_mutex"
proof -
  let ?f = "\<lparr>shmid = 0, sem_mutex = 1, sem_produce = 2, sem_consume = 3\<rparr>"
  have *: "g ?f \<noteq> h ?f \<Longrightarrow> g \<noteq> h" for g h :: "Shmfifo \<Rightarrow> nat" by blast
  show "(sem_produce :: Shmfifo \<Rightarrow> nat) \<noteq> sem_consume" by (rule *) simp
  show "(sem_produce :: Shmfifo \<Rightarrow> nat) \<noteq> sem_mutex" by (rule *) simp
  show "(sem_consume :: Shmfifo \<Rightarrow> nat) \<noteq> sem_mutex" by (rule *) simp
qed

lemma waiting_puts:
  assumes "ring_proc bs p" "cur p = Some (P sem_produce)"
  shows "to_put p \<noteq> []"
  using assms
proof (cases rule: ring_proc_cases)
  case (1 x cs pc)
  from 1(3) show ?thesis using 1 sel_neq sel_neq [symmetric] by (cases rule: pc_cases) (auto simp: call_nth)
next
  case (2 cs pc)
  from 2(2) show ?thesis using 2 sel_neq sel_neq [symmetric] by (cases rule: pc_cases) (auto simp: call_nth)
qed

lemma waiting_takes:
  assumes "ring_proc bs p" "cur p = Some (P sem_consume)"
  shows "to_take p \<noteq> 0"
  using assms
proof (cases rule: ring_proc_cases)
  case (1 x cs pc)
  from 1(3) show ?thesis using 1 sel_neq sel_neq [symmetric] by (cases rule: pc_cases) (auto simp: call_nth)
next
  case (2 cs pc)
  from 2(2) show ?thesis using 2 sel_neq sel_neq [symmetric] by (cases rule: pc_cases) (auto simp: call_nth)
qed

lemma pair_stuck:
  assumes inv: "pair_inv f bs bt xs c" and st: "stuck (ring_exec f) c"
  shows "(\<forall>p\<in>set (procs c). p = (0, Calls [])) \<and> log_of 1 (printed (shared c)) = xs"
proof -
  have r: "ring_inv f bs bt c" and len: "length (procs c) = 2" using inv by (auto simp: pair_inv_def)
  have b: "ring_blocks f bt (shared c)" and bt: "0 < int (unat bt)"
    using r unfolding ring_inv_def ring_ok_def by linarith+
  note n = stuck_counts [OF r st]
  have c01: "procs c ! 0 \<in> set (procs c)" "procs c ! 1 \<in> set (procs c)" using len by simp_all
  have l: "0 < length (procs c)" "1 < length (procs c)" using len by simp_all
  have "cur (procs c ! 0) \<noteq> Some (P sem_consume)" "cur (procs c ! 1) \<noteq> Some (P sem_produce)"
    using waiting_takes [OF ring_inv_proc [OF r l(1)]] waiting_puts [OF ring_inv_proc [OF r l(2)]] inv
    by (auto simp: pair_inv_def)
  then have s0: "procs c ! 0 = (0, Calls []) \<or> cur (procs c ! 0) = Some (P sem_produce) \<and> sval f sem_produce (shared c) = 0"
    and s1: "procs c ! 1 = (0, Calls []) \<or> cur (procs c ! 1) = Some (P sem_consume) \<and> sval f sem_consume (shared c) = 0"
    using stuck_waits [OF r st l(1)] stuck_waits [OF r st l(2)] by blast+
  have e1: "procs c ! 1 = (0, Calls [])"
  proof (rule ccontr)
    assume "procs c ! 1 \<noteq> (0, Calls [])"
    then have w1: "cur (procs c ! 1) = Some (P sem_consume)" "sval f sem_consume (shared c) = 0" using s1 by auto
    then have "procs c ! 0 = (0, Calls [])" using s0 n bt by auto
    then have "produced (shared c) = xs" using inv by (simp add: pair_inv_def)
    moreover have "to_take (procs c ! 1) \<noteq> 0" using waiting_takes [OF ring_inv_proc [OF r]] w1 len by simp
    ultimately show False using inv n(2) w1(2) by (auto simp: pair_inv_def stock_def)
  qed
  then have C: "length (consumed (shared c)) = length xs" using inv by (simp add: pair_inv_def)
  have P: "length (produced (shared c)) \<le> length xs" using inv by (auto simp: pair_inv_def)
  have e0: "procs c ! 0 = (0, Calls [])"
    using s0 n C P ring_blocks_le [OF b] bt by (auto simp: stock_def)
  then have "produced (shared c) = xs" using inv by (simp add: pair_inv_def)
  then have "map snd (consumed (shared c)) = xs" using b C by (simp add: ring_blocks_def)
  moreover have "log_of 1 (consumed (shared c)) = log_of 1 (printed (shared c))"
    using r e1 len by (simp add: ring_inv_def ring_logs_def)
  ultimately have "log_of 1 (printed (shared c)) = xs" using inv by (simp add: pair_inv_def)
  moreover have "\<forall>p\<in>set (procs c). p = (0, Calls [])"
    using e0 e1 len by (metis One_nat_def in_set_conv_nth less_2_cases)
  ultimately show ?thesis by blast
qed

text \<open>C28: \<open>produce.c\<close> against \<open>consume.c\<close> terminates and delivers: with a producer of the blocks \<open>xs\<close> and a
  consumer of as many, no schedule has more than \<open>14 * length xs\<close> steps, and when no step is left both
  have ended and the consumer has printed exactly \<open>xs\<close>, in order.\<close>

theorem produce_consume_total:
  assumes "ring_setup key bs bt k [map produce_call xs, replicate (length xs) consume_call] f c0"
    and "run_sched (ring_exec f) sched c0 = Inr c"
  shows "length sched \<le> 14 * length xs \<and>
    (stuck (ring_exec f) c \<longrightarrow> (\<forall>p\<in>set (procs c). p = (0, Calls [])) \<and> log_of 1 (printed (shared c)) = xs)"
proof -
  note start = pair_inv_start [OF assms(1)]
  have fin: "\<forall>p\<in>set (procs c'). finite_proc p" if "pair_inv f bs bt xs c'" for c'
    using that ring_proc_finite unfolding pair_inv_def ring_inv_def by blast
  have q: "quiet (ring_exec f) c'" if "pair_inv f bs bt xs c'" for c'
    using that ring_quiet unfolding pair_inv_def by blast
  have "length sched + sum_list (map actions_left (procs c)) = 14 * length xs"
    unfolding start(2) [symmetric]
    by (rule run_sched_bound [where I = "pair_inv f bs bt xs", OF assms(2) start(1) q pair_inv_step fin])
  moreover have "pair_inv f bs bt xs c"
    by (rule interleave_invariant [where I = "pair_inv f bs bt xs", OF run_sched_reach [OF assms(2)] start(1) q pair_inv_step])
  then have "stuck (ring_exec f) c \<Longrightarrow> (\<forall>p\<in>set (procs c). p = (0, Calls [])) \<and> log_of 1 (printed (shared c)) = xs"
    by (rule pair_stuck)
  ultimately show ?thesis by linarith
qed

definition small_start :: "(ring_world, ring_act) conf" where
  "small_start = ring_start (fresh_ipc 7 1 1 ipc_boot) [map produce_call [[5]], replicate 1 consume_call]"

lemma small_setup:
  "ring_setup 7 1 1 ipc_boot [map produce_call [[5]], replicate (length [[5]]) consume_call] (fresh_fifo ipc_boot) small_start"
proof -
  have "fifo_fresh 7 1 1 ipc_boot"
    by (simp add: fifo_fresh_def ipc_boot_def sem_boot_def IPC_PRIVATE_def sizeof_Shmhead_def)
  moreover have "ring_sizes 1 1" by (simp add: ring_sizes_def SEMVMX_def)
  ultimately show ?thesis
    using fifo_init_fresh [of 7 1 1 ipc_boot] ring_sizes_sint [of 1 1]
    by (auto simp: ring_setup_def small_start_def ring_main_def SEMVMX_def intro!: exI [of _ "[5]"])
qed

lemma small_run:
  "\<exists>c. run_sched (ring_exec (fresh_fifo ipc_boot)) (replicate 7 0 @ replicate 7 1) small_start = Inr c \<and>
     procs c = [(0, Calls []), (0, Calls [])]"
  by (simp add: small_start_def ring_start_def fresh_ipc_def fresh_fifo_def ipc_boot_def sem_boot_def pstep_def
      ring_exec.simps produce_call_def consume_call_def fifo_produce_def fifo_consume_def numeral_eq_Suc
      on_sems_def sem_p_one sem_v_one put_value_def copy_in_def copy_out_def step_wr_def step_rd_def put_seg_def
      Let_def SEMVMX_def)

theorem produce_consume_total_witness:
  "\<exists>c. run_sched (ring_exec (fresh_fifo ipc_boot)) (replicate 7 0 @ replicate 7 1) small_start = Inr c \<and>
     log_of 1 (printed (shared c)) = [[5]]"
proof -
  obtain c where c: "run_sched (ring_exec (fresh_fifo ipc_boot)) (replicate 7 0 @ replicate 7 1) small_start = Inr c"
    "procs c = [(0, Calls []), (0, Calls [])]"
    using small_run by blast
  have "stuck (ring_exec (fresh_fifo ipc_boot)) c" by (rule stuck_ended) (auto simp: c(2))
  then show ?thesis using produce_consume_total [OF small_setup c(1)] c(1) by blast
qed

end
