(* ===== verification/Dinner.thy ===== *)
theory Dinner
  imports SemtoolProps Interleave
begin

text \<open>
  \<open>process/ipc/codes/dinner/dinner.c\<close>: five philosophers, five forks as the semaphores of one set.

  \<^item> \<open>wait_for_forks\<close> and \<open>return_forks\<close> take and give back both forks in one \<open>semop\<close>.
  \<^item> \<open>have_dinner no\<close> is the body of its \<open>while(1)\<close>, as a list of atomic actions; \<open>dinner_main\<close> creates the
    set and the processes. \<open>fork_ok i\<close> says whether the \<open>i\<close>-th \<open>fork\<close> succeeds.
  \<^item> Each fork is an account: its value and the number of eaters that have it add up to 1.
\<close>

subsection \<open>The program\<close>

definition right_of :: "nat \<Rightarrow> nat" where
  "right_of no = (no + 1) mod 5"

definition wait_for_forks :: "nat \<Rightarrow> nat \<Rightarrow> sem_kernel \<Rightarrow> sem_kernel run" where
  "wait_for_forks semid no k = semop_or_exit semid [(no, -1), (right_of no, -1)] k"

definition return_forks :: "nat \<Rightarrow> nat \<Rightarrow> sem_kernel \<Rightarrow> sem_kernel run" where
  "return_forks semid no k = semop_or_exit semid [(no, 1), (right_of no, 1)] k"

datatype saying = Is_thinking nat | Is_hungry nat | Is_eating nat

datatype dinner_act = Say saying | Sleep | Wait_forks nat | Return_forks nat

definition have_dinner :: "nat \<Rightarrow> dinner_act list" where
  "have_dinner no =
     [Say (Is_thinking no), Sleep, Say (Is_hungry no), Wait_forks no, Say (Is_eating no), Sleep, Return_forks no]"

record table =
  forks :: sem_kernel
  said :: "saying list"

fun dinner_exec :: "nat \<Rightarrow> nat \<Rightarrow> dinner_act \<Rightarrow> table \<Rightarrow> table run" where
  "dinner_exec semid i (Say m) w = Inr (w\<lparr>said := said w @ [m]\<rparr>)"
| "dinner_exec semid i Sleep w = Inr w"
| "dinner_exec semid i (Wait_forks no) w =
     bnd (wait_for_forks semid no (forks w)) (\<lambda>k. Inr (w\<lparr>forks := k\<rparr>))"
| "dinner_exec semid i (Return_forks no) w =
     bnd (return_forks semid no (forks w)) (\<lambda>k. Inr (w\<lparr>forks := k\<rparr>))"

text \<open>\<open>for (i = 0; i < 5; ++i) semctl(semid, i, SETVAL, su)\<close>\<close>

fun set_forks :: "nat \<Rightarrow> nat \<Rightarrow> nat \<Rightarrow> sem_kernel \<Rightarrow> sem_kernel run" where
  "set_forks semid i 0 k = Inr k"
| "set_forks semid i (Suc n) k =
     (let (r, k) = sys_semctl_setval semid i 1 k in
      if r = -1 then Inl Exit_failure else set_forks semid (Suc i) n k)"

text \<open>The loop around \<open>fork\<close>: the numbers of the children, and whether the parent gets to the end of it.\<close>

fun fork_loop :: "(nat \<Rightarrow> bool) \<Rightarrow> nat \<Rightarrow> nat \<Rightarrow> nat list \<times> bool" where
  "fork_loop fork_ok i 0 = ([], True)"
| "fork_loop fork_ok i (Suc n) =
     (if fork_ok i then let (cs, b) = fork_loop fork_ok (Suc i) n in ((i + 1) # cs, b) else ([], False))"

definition dinner_main :: "(nat \<Rightarrow> bool) \<Rightarrow> sem_kernel \<Rightarrow> (nat \<times> (table, dinner_act) conf) run" where
  "dinner_main fork_ok k =
     (let (semid, k) = sys_semget IPC_PRIVATE 5 True True k in
      if semid = -1 then Inl Exit_failure
      else bnd (set_forks (nat semid) 0 5 k) (\<lambda>k.
        let (children, parent) = fork_loop fork_ok 0 4;
            nos = (if parent then [0] else []) @ children
        in Inr (nat semid, \<lparr>shared = \<lparr>forks = k, said = []\<rparr>,
             procs = map (\<lambda>no. (0, Forever (have_dinner no))) nos, one_group = False\<rparr>)))"

subsection \<open>The invariant\<close>

definition fork_value :: "nat \<Rightarrow> nat \<Rightarrow> table \<Rightarrow> int" where
  "fork_value semid n w = the (sem_sets (forks w) semid) ! n"

definition table_ok :: "nat \<Rightarrow> table \<Rightarrow> bool" where
  "table_ok semid w \<longleftrightarrow> (\<exists>vs. sem_sets (forks w) semid = Some vs \<and> length vs = 5 \<and>
     (\<forall>n<5. 0 \<le> vs ! n \<and> vs ! n \<le> SEMVMX))"

fun philosopher :: "dinner_act proc \<Rightarrow> bool" where
  "philosopher (pc, Forever b) = (pc < 7 \<and> (\<exists>no<5. b = have_dinner no))"
| "philosopher (pc, Calls cs) = False"

text \<open>\<open>eating no p\<close>: philosopher \<open>no\<close> is between \<open>wait_for_forks\<close> and \<open>return_forks\<close>.\<close>

fun eating :: "nat \<Rightarrow> dinner_act proc \<Rightarrow> bool" where
  "eating no (pc, Forever b) = (4 \<le> pc \<and> b = have_dinner no)"
| "eating no (pc, Calls cs) = False"

definition has_fork :: "nat \<Rightarrow> dinner_act proc \<Rightarrow> int" where
  "has_fork n p = of_bool (\<exists>no<5. eating no p \<and> (n = no \<or> n = right_of no))"

lemma right_of_neq: "no < 5 \<Longrightarrow> right_of no \<noteq> no" "no < 5 \<Longrightarrow> right_of no < 5"
proof -
  assume "no < 5"
  then consider "no = 0" | "no = 1" | "no = 2" | "no = 3" | "no = 4" by linarith
  then show "right_of no \<noteq> no" "right_of no < 5" by (cases; simp add: right_of_def)+
qed

definition add_forks :: "nat \<Rightarrow> nat \<Rightarrow> int \<Rightarrow> sem_kernel \<Rightarrow> sem_kernel" where
  "add_forks semid no d k = (let vs = the (sem_sets k semid); r = right_of no in
     k\<lparr>sem_sets := (sem_sets k)(semid \<mapsto> vs[no := vs ! no + d, r := vs ! r + d])\<rparr>)"

lemma wait_for_forks_ok:
  assumes "table_ok semid w" "no < 5"
  shows "wait_for_forks semid no (forks w) =
    (if 0 < fork_value semid no w \<and> 0 < fork_value semid (right_of no) w
     then Inr (add_forks semid no (-1) (forks w)) else Inl Blocked)"
proof -
  obtain vs where vs: "sem_sets (forks w) semid = Some vs" "length vs = 5" "\<forall>n<5. 0 \<le> vs ! n \<and> vs ! n \<le> SEMVMX"
    using assms(1) by (auto simp: table_ok_def)
  then have "0 \<le> vs ! no" "vs ! no \<le> SEMVMX" "0 \<le> vs ! right_of no" "vs ! right_of no \<le> SEMVMX"
    using assms(2) right_of_neq(2) by blast+
  then show ?thesis
    using vs(1,2) assms(2) right_of_neq [of no]
    by (auto simp: wait_for_forks_def semop_or_exit_def sys_semop_def add_forks_def fork_value_def Let_def)
qed

lemma return_forks_ok:
  assumes "table_ok semid w" "no < 5"
  shows "return_forks semid no (forks w) =
    (if fork_value semid no w < SEMVMX \<and> fork_value semid (right_of no) w < SEMVMX
     then Inr (add_forks semid no 1 (forks w)) else Inl Exit_failure)"
proof -
  obtain vs where vs: "sem_sets (forks w) semid = Some vs" "length vs = 5" "\<forall>n<5. 0 \<le> vs ! n \<and> vs ! n \<le> SEMVMX"
    using assms(1) by (auto simp: table_ok_def)
  then have "0 \<le> vs ! no" "vs ! no \<le> SEMVMX" "0 \<le> vs ! right_of no" "vs ! right_of no \<le> SEMVMX"
    using assms(2) right_of_neq(2) by blast+
  then show ?thesis
    using vs(1,2) assms(2) right_of_neq [of no]
    by (auto simp: return_forks_def semop_or_exit_def sys_semop_def add_forks_def fork_value_def Let_def)
qed

lemma fork_value_add:
  assumes "table_ok semid w" "no < 5" "n < 5"
  shows "fork_value semid n (w\<lparr>forks := add_forks semid no d (forks w)\<rparr>) =
    fork_value semid n w + (if n = no \<or> n = right_of no then d else 0)"
  using assms right_of_neq [of no]
  by (auto simp: table_ok_def fork_value_def add_forks_def Let_def nth_list_update)

lemma table_ok_add:
  assumes "table_ok semid w" "no < 5"
    and "0 \<le> fork_value semid no w + d" "fork_value semid no w + d \<le> SEMVMX"
    and "0 \<le> fork_value semid (right_of no) w + d" "fork_value semid (right_of no) w + d \<le> SEMVMX"
  shows "table_ok semid (w\<lparr>forks := add_forks semid no d (forks w)\<rparr>)"
  using assms right_of_neq [of no]
  by (auto simp: table_ok_def fork_value_def add_forks_def Let_def nth_list_update)

lemma fork_value_said [simp]: "fork_value semid n (w\<lparr>said := x\<rparr>) = fork_value semid n w"
  by (simp add: fork_value_def)

lemma table_ok_said [simp]: "table_ok semid (w\<lparr>said := x\<rparr>) = table_ok semid w"
  by (simp add: table_ok_def)

lemma fork_value_bounds: "table_ok semid w \<Longrightarrow> n < 5 \<Longrightarrow> 0 \<le> fork_value semid n w \<and> fork_value semid n w \<le> SEMVMX"
  by (auto simp: table_ok_def fork_value_def)

lemma have_dinner_nth [simp]:
  "have_dinner no ! 0 = Say (Is_thinking no)" "have_dinner no ! Suc 0 = Sleep"
  "have_dinner no ! 2 = Say (Is_hungry no)" "have_dinner no ! 3 = Wait_forks no"
  "have_dinner no ! 4 = Say (Is_eating no)" "have_dinner no ! 5 = Sleep" "have_dinner no ! 6 = Return_forks no"
  "length (have_dinner no) = 7"
  by (simp_all add: have_dinner_def)

lemma have_dinner_inj [simp]: "have_dinner a = have_dinner b \<longleftrightarrow> a = b"
  by (simp add: have_dinner_def)

lemma philosopher_cases:
  assumes "philosopher p"
  obtains no pc where "no < 5" "p = (pc, Forever (have_dinner no))" "pc < 7" "cur p = Some (have_dinner no ! pc)"
    "advance p = (if pc = 6 then 0 else Suc pc, Forever (have_dinner no))"
proof -
  obtain pc b where p: "p = (pc, Forever b)" using assms by (cases p; cases "snd p") auto
  then show ?thesis using that assms by (auto simp: less_Suc_eq)
qed

lemma philosopher_advance: "philosopher p \<Longrightarrow> philosopher (advance p)"
  by (erule philosopher_cases) auto

lemma pc7_cases:
  fixes pc :: nat
  assumes "pc < 7"
  obtains "pc = 0" | "pc = Suc 0" | "pc = 2" | "pc = 3" | "pc = 4" | "pc = 5" | "pc = 6"
  using assms by linarith

lemma has_fork_have_dinner [simp]:
  "no < 5 \<Longrightarrow> has_fork n (pc, Forever (have_dinner no)) = of_bool (4 \<le> pc \<and> (n = no \<or> n = right_of no))"
  by (auto simp: has_fork_def)

lemma dinner_exec_Inr:
  assumes "table_ok semid w" "no < 5"
  shows "dinner_exec semid i (Wait_forks no) w = Inr w' \<Longrightarrow> w' = w\<lparr>forks := add_forks semid no (-1) (forks w)\<rparr> \<and>
      0 < fork_value semid no w \<and> 0 < fork_value semid (right_of no) w"
    and "dinner_exec semid i (Return_forks no) w = Inr w' \<Longrightarrow> w' = w\<lparr>forks := add_forks semid no 1 (forks w)\<rparr> \<and>
      fork_value semid no w < SEMVMX \<and> fork_value semid (right_of no) w < SEMVMX"
  by (auto simp: wait_for_forks_ok [OF assms] return_forks_ok [OF assms] split: if_splits)

lemma table_ok_step:
  assumes "table_ok semid w" "philosopher p" "cur p = Some a" "dinner_exec semid i a w = Inr w'"
  shows "table_ok semid w'"
  using assms(2)
proof (rule philosopher_cases)
  fix no pc
  assume no: "no < 5" and p: "cur p = Some (have_dinner no ! pc)" and pc: "pc < 7"
  note e = dinner_exec_Inr [OF assms(1) no, of i w']
  note b = fork_value_bounds [OF assms(1) no] fork_value_bounds [OF assms(1) right_of_neq(2) [OF no]]
  from pc show ?thesis
    using assms(1,3,4) p no e b
    by (cases rule: pc7_cases) (auto simp del: dinner_exec.simps(3,4) intro!: table_ok_add)
qed

lemma fork_step:
  assumes "table_ok semid w" "philosopher p" "cur p = Some a" "dinner_exec semid i a w = Inr w'" "n < 5"
  shows "fork_value semid n w' + has_fork n (advance p) = fork_value semid n w + has_fork n p"
  using assms(2)
proof (rule philosopher_cases)
  fix no pc
  assume no: "no < 5" and p: "cur p = Some (have_dinner no ! pc)" "p = (pc, Forever (have_dinner no))" and pc: "pc < 7"
  note e = dinner_exec_Inr [OF assms(1) no, of i w']
  from pc show ?thesis
    using assms(1,3,4,5) p no e
    by (cases rule: pc7_cases) (auto simp: fork_value_add simp del: dinner_exec.simps(3,4))
qed

interpretation one_fork: account "dinner_exec semid" "table_ok semid" philosopher
    "\<lambda>w. fork_value semid (n mod 5) w" "has_fork (n mod 5)"
  for semid n
  by unfold_locales (use fork_step in \<open>auto simp: has_fork_def\<close>)

definition dinner_inv :: "nat \<Rightarrow> (table, dinner_act) conf \<Rightarrow> bool" where
  "dinner_inv semid c \<longleftrightarrow> table_ok semid (shared c) \<and> (\<forall>p\<in>set (procs c). philosopher p) \<and>
     (\<forall>n<5. one_fork.balance semid n c = 1)"

lemma dinner_exec_Inl:
  assumes inv: "dinner_inv semid c" and i: "i < length (procs c)"
    and a: "cur (procs c ! i) = Some a" and e: "dinner_exec semid i a (shared c) = Inl e"
  obtains no where "no < 5" "e = Blocked" "procs c ! i = (3, Forever (have_dinner no))"
    "fork_value semid no (shared c) = 0 \<or> fork_value semid (right_of no) (shared c) = 0"
proof -
  have ok: "table_ok semid (shared c)" and p: "philosopher (procs c ! i)"
    and b: "\<And>n. n < 5 \<Longrightarrow> one_fork.balance semid n c = 1"
    using inv i by (auto simp: dinner_inv_def)
  from p obtain no pc where no: "no < 5" and c: "cur (procs c ! i) = Some (have_dinner no ! pc)" and pc: "pc < 7"
    and pp: "procs c ! i = (pc, Forever (have_dinner no))"
    by (rule philosopher_cases)
  note n' = right_of_neq [OF no]
  have V: "fork_value semid no (shared c) < SEMVMX \<and> fork_value semid (right_of no) (shared c) < SEMVMX" if "pc = 6"
    using one_fork.held_le [OF b [OF no] i] one_fork.held_le [OF b [OF n'(2)] i] pp that no n'
    by (simp add: SEMVMX_def)
  have B: "0 \<le> fork_value semid no (shared c)" "0 \<le> fork_value semid (right_of no) (shared c)"
    using fork_value_bounds [OF ok] no n' by blast+
  from pc have "pc = 3 \<and> e = Blocked \<and> (fork_value semid no (shared c) = 0 \<or> fork_value semid (right_of no) (shared c) = 0)"
    using a e c V B
    by (cases rule: pc7_cases) (auto simp: wait_for_forks_ok [OF ok no] return_forks_ok [OF ok no] split: if_splits)
  then show ?thesis using that no pp by blast
qed

lemma dinner_reach_inv:
  assumes "(interleave (dinner_exec semid))\<^sup>*\<^sup>* c0 c" "dinner_inv semid c0"
  shows "dinner_inv semid c"
proof (rule interleave_invariant [where I = "dinner_inv semid", OF assms])
  show "quiet (dinner_exec semid) c" if "dinner_inv semid c" for c
    unfolding quiet_def using dinner_exec_Inl [OF that] by (metis stop.distinct(1))
next
  fix c i a w
  assume inv: "dinner_inv semid c" and i: "i < length (procs c)"
    and a: "cur (procs c ! i) = Some a" and w: "dinner_exec semid i a (shared c) = Inr w"
  have ok: "table_ok semid (shared c)" and p: "philosopher (procs c ! i)" using inv i by (auto simp: dinner_inv_def)
  have "\<forall>q\<in>set ((procs c)[i := advance (procs c ! i)]). philosopher q"
    using inv philosopher_advance [OF p] by (auto simp: dinner_inv_def dest!: set_update_subset_insert [THEN subsetD])
  moreover have "one_fork.balance semid n (c\<lparr>shared := w, procs := (procs c)[i := advance (procs c ! i)]\<rparr>) = 1"
    if "n < 5" for n
    using one_fork.balance_step [OF i p ok a w, of n] inv that by (simp add: dinner_inv_def)
  ultimately show "dinner_inv semid (c\<lparr>shared := w, procs := (procs c)[i := advance (procs c ! i)]\<rparr>)"
    using inv table_ok_step [OF ok p a w] by (simp add: dinner_inv_def)
qed

subsection \<open>From \<open>main\<close> on\<close>

lemma set_forks_ok:
  assumes "sem_sets k semid = Some vs" "i + n \<le> length vs"
  shows "set_forks semid i n k =
    Inr (k\<lparr>sem_sets := (sem_sets k)(semid \<mapsto> take i vs @ replicate n 1 @ drop (i + n) vs)\<rparr>)"
  using assms
proof (induction n arbitrary: i vs k)
  case 0
  then show ?case by (cases k) (simp add: map_upd_triv)
next
  case (Suc n)
  let ?k = "k\<lparr>sem_sets := (sem_sets k)(semid \<mapsto> vs[i := 1])\<rparr>"
  have "set_forks semid i (Suc n) k = set_forks semid (Suc i) n ?k"
    using Suc.prems by (simp add: sys_semctl_setval_def SEMVMX_def)
  also have "\<dots> = Inr (?k\<lparr>sem_sets := (sem_sets ?k)(semid \<mapsto>
      take (Suc i) (vs[i := 1]) @ replicate n 1 @ drop (Suc i + n) (vs[i := 1]))\<rparr>)"
    using Suc.prems by (intro Suc.IH) auto
  also have "take (Suc i) (vs[i := 1]) @ replicate n 1 @ drop (Suc i + n) (vs[i := 1]) =
      take i vs @ replicate (Suc n) 1 @ drop (i + Suc n) vs"
    using Suc.prems by (simp add: take_Suc_conv_app_nth)
  finally show ?case by (simp del: fun_upd_apply)
qed

lemma fork_loop_nos: "set (fst (fork_loop fork_ok i n)) \<subseteq> {i + 1..i + n}"
proof (induction n arbitrary: i)
  case (Suc n)
  show ?case using Suc [of "Suc i"] by (auto simp: case_prod_beta Let_def)
qed simp

lemma dinner_main_inv:
  assumes "dinner_main fork_ok k = Inr (semid, c0)"
  shows "dinner_inv semid c0"
proof -
  let ?i = "next_semid k"
  have sf: "set_forks ?i 0 5 (snd (sys_semget IPC_PRIVATE 5 True True k)) =
      Inr (snd (sys_semget IPC_PRIVATE 5 True True k)\<lparr>sem_sets := (sem_sets k)(?i \<mapsto> replicate 5 1)\<rparr>)"
    by (subst set_forks_ok [of _ _ "replicate 5 0"]) (simp_all add: sys_semget_def)
  obtain cs b where l: "fork_loop fork_ok 0 4 = (cs, b)" by (cases "fork_loop fork_ok 0 4")
  define nos where "nos = (if b then [0] else []) @ cs"
  have nos: "set nos \<subseteq> {0..4}" using fork_loop_nos [of fork_ok 0 4] by (auto simp: l nos_def)
  have semid: "semid = ?i" and sh: "sem_sets (forks (shared c0)) ?i = Some (replicate 5 1)"
    and pr: "procs c0 = map (\<lambda>no. (0, Forever (have_dinner no))) nos"
    using assms sf by (auto simp: dinner_main_def sys_semget_def l Let_def nos_def)
  have "table_ok semid (shared c0)" by (simp add: table_ok_def semid sh SEMVMX_def)
  moreover have "\<forall>p\<in>set (procs c0). philosopher p" using nos pr by fastforce
  moreover have h: "total_held (has_fork n) (procs c0) = 0" for n
    using nos unfolding pr by (induction nos) auto
  have "one_fork.balance semid n c0 = 1" if "n < 5" for n
    using one_fork.balance_def [of semid n c0] h that by (simp add: fork_value_def semid sh)
  ultimately show ?thesis by (simp add: dinner_inv_def)
qed

lemmas dinner_reach = dinner_reach_inv [OF _ dinner_main_inv]

text \<open>C29: neighbours never eat at the same time: two processes that are both between \<open>wait_for_forks\<close> and
  \<open>return_forks\<close> have no fork in common.\<close>

theorem neighbours_never_eat:
  assumes "dinner_main fork_ok k = Inr (semid, c0)" "(interleave (dinner_exec semid))\<^sup>*\<^sup>* c0 c"
    and "i < length (procs c)" "j < length (procs c)" "i \<noteq> j" "a < 5" "b < 5"
    and "eating a (procs c ! i)" "eating b (procs c ! j)"
  shows "{a, right_of a} \<inter> {b, right_of b} = {}"
proof (rule ccontr)
  assume "{a, right_of a} \<inter> {b, right_of b} \<noteq> {}"
  then obtain n where n: "n \<in> {a, right_of a}" "n \<in> {b, right_of b}" by blast
  then have n5: "n < 5" using assms(6) right_of_neq(2) [OF assms(6)] by auto
  have h: "has_fork n (procs c ! i) = 1" "has_fork n (procs c ! j) = 1"
    using assms(6-9) n by (auto simp: has_fork_def)
  have inv: "dinner_inv semid c" by (rule dinner_reach [OF assms(2,1)])
  then have "one_fork.balance semid n c = 1" "0 \<le> fork_value semid (n mod 5) (shared c)"
    using n5 fork_value_bounds by (auto simp: dinner_inv_def)
  then show False using one_fork.exclusive [OF _ _ assms(3-5)] h n5 by fastforce
qed

text \<open>C30: the philosophers never deadlock: as long as there is one, some process can proceed; and none
  ever exits.\<close>

theorem dinner_no_deadlock:
  assumes "dinner_main fork_ok k = Inr (semid, c0)" "(interleave (dinner_exec semid))\<^sup>*\<^sup>* c0 c" "procs c \<noteq> []"
  shows "\<not> stuck (dinner_exec semid) c \<and> quiet (dinner_exec semid) c"
proof
  have inv: "dinner_inv semid c" by (rule dinner_reach [OF assms(2,1)])
  then show "quiet (dinner_exec semid) c"
    unfolding quiet_def using dinner_exec_Inl [OF inv] by (metis stop.distinct(1))
  show "\<not> stuck (dinner_exec semid) c"
  proof
    assume st: "stuck (dinner_exec semid) c"
    have w: "\<exists>no<5. procs c ! j = (3, Forever (have_dinner no)) \<and>
        (fork_value semid no (shared c) = 0 \<or> fork_value semid (right_of no) (shared c) = 0)"
      if j: "j < length (procs c)" for j
    proof -
      have "philosopher (procs c ! j)" using inv j by (simp add: dinner_inv_def)
      then obtain a where "cur (procs c ! j) = Some a" by (rule philosopher_cases)
      then show ?thesis using stuckD [OF st j] dinner_exec_Inl [OF inv j] by metis
    qed
    have h: "total_held (has_fork n) (procs c) = 0" for n
      using w by (intro total_held_all_zero) fastforce
    have "fork_value semid n (shared c) = 1" if "n < 5" for n
      using one_fork.balance_def [of semid n c] inv h that by (simp add: dinner_inv_def)
    then show False using w [of 0] assms(3) right_of_neq(2) by fastforce
  qed
qed

definition dinner_demo :: "(table, dinner_act) conf" where
  "dinner_demo =
     \<lparr>shared = \<lparr>forks = \<lparr>sem_ids = Map.empty, sem_sets = [0 \<mapsto> [1, 1, 1, 1, 1]], next_semid = 1\<rparr>, said = []\<rparr>,
      procs = map (\<lambda>no. (0, Forever (have_dinner no))) [0, 1, 2, 3, 4], one_group = False\<rparr>"

lemma dinner_main_demo: "dinner_main (\<lambda>i. True) sem_boot = Inr (0, dinner_demo)"
proof -
  have "fork_loop (\<lambda>i. True) 0 4 = ([1, 2, 3, 4], True)" by (simp add: numeral_eq_Suc)
  then show ?thesis
    by (simp add: dinner_demo_def dinner_main_def sys_semget_def sem_boot_def set_forks_ok [of _ _ "replicate 5 0"])
      (simp add: numeral_eq_Suc)
qed

text \<open>Philosophers 0 and 2 get to eat together.\<close>

lemma dinner_demo_run:
  "\<exists>c. run_sched (dinner_exec 0) [0, 0, 0, 0, 2, 2, 2, 2] dinner_demo = Inr c \<and>
     length (procs c) = 5 \<and> eating 0 (procs c ! 0) \<and> eating 2 (procs c ! 2)"
proof -
  have "right_of 0 = Suc 0" "right_of (Suc (Suc 0)) = Suc (Suc (Suc 0))" by (simp_all add: right_of_def)
  then show ?thesis
    by (simp add: pstep_def dinner_demo_def wait_for_forks_def semop_or_exit_def sys_semop_def
        SEMVMX_def numeral_eq_Suc have_dinner_def)
qed

theorem neighbours_never_eat_witness: "{0, right_of 0} \<inter> {2, right_of 2} = {}"
proof -
  obtain c where c: "run_sched (dinner_exec 0) [0, 0, 0, 0, 2, 2, 2, 2] dinner_demo = Inr c"
    "length (procs c) = 5" "eating 0 (procs c ! 0)" "eating 2 (procs c ! 2)"
    using dinner_demo_run by blast
  show ?thesis
    by (rule neighbours_never_eat [OF dinner_main_demo run_sched_reach [OF c(1)] _ _ _ _ _ c(3,4)]) (simp_all add: c(2))
qed

theorem dinner_no_deadlock_witness: "\<not> stuck (dinner_exec 0) dinner_demo"
  using dinner_no_deadlock [OF dinner_main_demo rtranclp.rtrancl_refl] by (simp add: dinner_demo_def)

end
