(* ===== verification/PrintTwice.thy ===== *)
theory PrintTwice
  imports SemtoolProps Interleave
begin

text \<open>
  \<open>process/ipc/codes/print/print.c\<close>: a parent and a child that print their letter twice each time they are
  in the critical section, under one semaphore.

  \<^item> \<open>print\<close> is the body of the \<open>while(1)\<close> of the function of that name; \<open>printf\<close> with the \<open>fflush\<close> behind it
    is one action. \<open>sem_setval\<close>, \<open>sem_p\<close> and \<open>sem_v\<close> of the file are those of \<open>SemModel\<close>.
  \<^item> \<open>print_main\<close> creates the semaphore and the two processes; \<open>fork_ok\<close> says whether \<open>fork\<close> succeeds.
\<close>

datatype print_act = Sem_p | Put_char char | Nap | Sem_v

definition print :: "char \<Rightarrow> print_act list" where
  "print ch = [Sem_p, Put_char ch, Nap, Put_char ch, Sem_v, Nap]"

record tty =
  tty_sems :: sem_kernel
  screen :: string

fun print_exec :: "nat \<Rightarrow> nat \<Rightarrow> print_act \<Rightarrow> tty \<Rightarrow> tty run" where
  "print_exec semid i Sem_p w = bnd (sem_p semid (tty_sems w)) (\<lambda>k. Inr (w\<lparr>tty_sems := k\<rparr>))"
| "print_exec semid i (Put_char ch) w = Inr (w\<lparr>screen := screen w @ [ch]\<rparr>)"
| "print_exec semid i Nap w = Inr w"
| "print_exec semid i Sem_v w = bnd (sem_v semid (tty_sems w)) (\<lambda>k. Inr (w\<lparr>tty_sems := k\<rparr>))"

definition print_main :: "bool \<Rightarrow> sem_kernel \<Rightarrow> (nat \<times> (tty, print_act) conf) run" where
  "print_main fork_ok k =
     (let (semid, k) = sys_semget IPC_PRIVATE 1 True True k in
      if semid = -1 then Inl Exit_failure
      else bnd (sem_setval (nat semid) 1 k) (\<lambda>k.
        if \<not> fork_ok then Inl Exit_failure
        else Inr (nat semid, \<lparr>shared = \<lparr>tty_sems = k, screen = []\<rparr>,
          procs = [(0, Forever (print CHR ''p'')), (0, Forever (print CHR ''c''))], one_group = False\<rparr>)))"

subsection \<open>The semaphore as an account\<close>

definition lock_value :: "nat \<Rightarrow> tty \<Rightarrow> int" where
  "lock_value semid w = hd (the (sem_sets (tty_sems w) semid))"

definition tty_ok :: "nat \<Rightarrow> tty \<Rightarrow> bool" where
  "tty_ok semid w \<longleftrightarrow> (\<exists>v. sem_sets (tty_sems w) semid = Some [v] \<and> 0 \<le> v \<and> v \<le> SEMVMX)"

fun printer :: "print_act proc \<Rightarrow> bool" where
  "printer (pc, Forever b) = (pc < 6 \<and> (\<exists>ch. b = print ch))"
| "printer (pc, Calls cs) = False"

fun in_section :: "print_act proc \<Rightarrow> int" where
  "in_section (pc, b) = of_bool (1 \<le> pc \<and> pc \<le> 4)"

lemma print_nth [simp]:
  "print ch ! 0 = Sem_p" "print ch ! Suc 0 = Put_char ch" "print ch ! 2 = Nap" "print ch ! 3 = Put_char ch"
  "print ch ! 4 = Sem_v" "print ch ! 5 = Nap" "length (print ch) = 6"
  by (simp_all add: print_def)

lemma printer_print [simp]: "printer (pc, Forever (print ch)) = (pc < 6)"
  by auto

lemma printer_cases:
  assumes "printer p"
  obtains ch pc where "p = (pc, Forever (print ch))" "pc < 6" "cur p = Some (print ch ! pc)"
    "advance p = (if pc = 5 then 0 else Suc pc, Forever (print ch))"
proof -
  obtain pc b where p: "p = (pc, Forever b)" using assms by (cases p; cases "snd p") auto
  then show ?thesis using that assms by (auto simp: less_Suc_eq)
qed

lemma printer_advance: "printer p \<Longrightarrow> printer (advance p)"
  by (erule printer_cases) auto

lemma pc6_cases:
  fixes pc :: nat
  assumes "pc < 6"
  obtains "pc = 0" | "pc = Suc 0" | "pc = 2" | "pc = 3" | "pc = 4" | "pc = 5"
  using assms by linarith

lemma tty_exec:
  assumes "tty_ok semid w"
  shows "print_exec semid i Sem_p w = (if lock_value semid w = 0 then Inl Blocked
      else Inr (w\<lparr>tty_sems := put_value semid (lock_value semid w - 1) (tty_sems w)\<rparr>))"
    and "print_exec semid i Sem_v w = (if lock_value semid w = SEMVMX then Inl Exit_failure
      else Inr (w\<lparr>tty_sems := put_value semid (lock_value semid w + 1) (tty_sems w)\<rparr>))"
  using assms by (auto simp: tty_ok_def lock_value_def sem_p_one sem_v_one)

lemma tty_simps [simp]:
  "lock_value semid (w\<lparr>tty_sems := put_value semid v k\<rparr>) = v"
  "lock_value semid (w\<lparr>screen := x\<rparr>) = lock_value semid w"
  "tty_ok semid (w\<lparr>tty_sems := put_value semid v k\<rparr>) \<longleftrightarrow> 0 \<le> v \<and> v \<le> SEMVMX"
  "tty_ok semid (w\<lparr>screen := x\<rparr>) = tty_ok semid w"
  by (simp_all add: lock_value_def tty_ok_def)

lemma lock_value_bounds: "tty_ok semid w \<Longrightarrow> 0 \<le> lock_value semid w \<and> lock_value semid w \<le> SEMVMX"
  by (auto simp: tty_ok_def lock_value_def)

declare print_exec.simps(1,4) [simp del]

lemma print_step:
  assumes "tty_ok semid w" "printer p" "cur p = Some a" "print_exec semid i a w = Inr w'"
  shows "tty_ok semid w' \<and> lock_value semid w' + in_section (advance p) = lock_value semid w + in_section p"
  using assms(2)
proof (rule printer_cases)
  fix ch pc
  assume p: "p = (pc, Forever (print ch))" "pc < 6" "cur p = Some (print ch ! pc)"
  from p(2) show ?thesis
    using assms p lock_value_bounds [OF assms(1)]
    by (cases rule: pc6_cases) (auto simp: tty_exec split: if_splits)
qed

interpretation print_lock: account "print_exec semid" "tty_ok semid" printer "lock_value semid" in_section
  for semid
  by unfold_locales (use print_step in auto)

subsection \<open>What is on the screen\<close>

text \<open>The letter a process has printed once and not yet a second time.\<close>

fun once :: "print_act proc \<Rightarrow> string" where
  "once (pc, Forever (a # Put_char ch # b)) = (if pc = 2 \<or> pc = 3 then [ch] else [])"
| "once _ = []"

lemma once_print [simp]: "once (pc, Forever (print ch)) = (if pc = 2 \<or> pc = 3 then [ch] else [])"
  by (simp add: print_def)

definition twice :: "string \<Rightarrow> string" where
  "twice cs = concat (map (\<lambda>c. [c, c]) cs)"

definition print_inv :: "nat \<Rightarrow> (tty, print_act) conf \<Rightarrow> bool" where
  "print_inv semid c \<longleftrightarrow> tty_ok semid (shared c) \<and> (\<forall>p\<in>set (procs c). printer p) \<and>
     print_lock.balance semid c = 1 \<and>
     (\<exists>cs. screen (shared c) = twice cs @ concat (map once (procs c)))"

lemma once_section: "printer p \<Longrightarrow> in_section p = 0 \<Longrightarrow> once p = []"
  by (erule printer_cases) auto

lemma concat_single:
  "i < length ps \<Longrightarrow> (\<And>j. j < length ps \<Longrightarrow> j \<noteq> i \<Longrightarrow> h (ps ! j) = []) \<Longrightarrow> concat (map h ps) = h (ps ! i)"
proof (induction ps arbitrary: i)
  case (Cons p ps)
  show ?case
  proof (cases i)
    case 0
    have "\<forall>q\<in>set ps. h q = []" using Cons.prems(2) 0 by (metis Suc_less_eq in_set_conv_nth length_Cons nat.distinct(1) nth_Cons_Suc)
    then show ?thesis using 0 by simp
  next
    case (Suc k)
    have "h p = []" using Cons.prems(2) [of 0] Suc by simp
    moreover have "concat (map h ps) = h (ps ! k)"
      using Cons.prems Suc by (intro Cons.IH) force+
    ultimately show ?thesis using Suc by simp
  qed
qed simp

lemma concat_same: "i < length ps \<Longrightarrow> h q = h (ps ! i) \<Longrightarrow> concat (map h (ps[i := q])) = concat (map h ps)"
  by (induction ps arbitrary: i) (auto split: nat.split)

lemma screen_step:
  assumes inv: "print_inv semid c" and i: "i < length (procs c)"
    and a: "cur (procs c ! i) = Some a" and w: "print_exec semid i a (shared c) = Inr w"
  shows "\<exists>cs. screen w = twice cs @ concat (map once ((procs c)[i := advance (procs c ! i)]))"
proof -
  have ok: "tty_ok semid (shared c)" and pi: "printer (procs c ! i)" and b: "print_lock.balance semid c = 1"
    using inv i by (auto simp: print_inv_def)
  obtain cs where cs: "screen (shared c) = twice cs @ concat (map once (procs c))"
    using inv by (auto simp: print_inv_def)
  obtain ch pc where p: "procs c ! i = (pc, Forever (print ch))" "pc < 6" "cur (procs c ! i) = Some (print ch ! pc)"
    "advance (procs c ! i) = (if pc = 5 then 0 else Suc pc, Forever (print ch))"
    using pi by (rule printer_cases)
  have alone: "concat (map once (procs c)) = once (procs c ! i)"
    "concat (map once ((procs c)[i := q])) = once q" if "in_section (procs c ! i) = 1" for q
  proof -
    have z: "once (procs c ! j) = []" if "j < length (procs c)" "j \<noteq> i" for j
      using print_lock.exclusive [OF b _ i that(1)] that lock_value_bounds [OF ok] \<open>in_section (procs c ! i) = 1\<close> inv
      by (intro once_section) (auto simp: print_inv_def)
    show "concat (map once (procs c)) = once (procs c ! i)" by (rule concat_single [of i "procs c" once, OF i]) (rule z)
    show "concat (map once ((procs c)[i := q])) = once q"
      using concat_single [of i "(procs c)[i := q]" once] i z by simp
  qed
  note same = concat_same [OF i, of once "advance (procs c ! i)"]
  from p(2) show ?thesis
  proof (cases rule: pc6_cases)
    case 2
    then have "screen w = twice cs @ concat (map once ((procs c)[i := advance (procs c ! i)]))"
      using w a p cs alone by auto
    then show ?thesis by blast
  next
    case 4
    then have "screen w = twice (cs @ [ch]) @ concat (map once ((procs c)[i := advance (procs c ! i)]))"
      using w a p cs alone by (auto simp: twice_def)
    then show ?thesis by blast
  qed (use w a p cs same in \<open>auto simp: tty_exec [OF ok] split: if_splits\<close>)
qed

lemma print_quiet:
  assumes inv: "print_inv semid c" shows "quiet (print_exec semid) c"
  unfolding quiet_def
proof (intro allI impI)
  fix i a
  assume i: "i < length (procs c)" and a: "cur (procs c ! i) = Some a"
  have ok: "tty_ok semid (shared c)" and p: "printer (procs c ! i)" and b: "print_lock.balance semid c = 1"
    using inv i by (auto simp: print_inv_def)
  note h = print_lock.held_le [OF b i]
  from p obtain ch pc where pc: "procs c ! i = (pc, Forever (print ch))" "pc < 6" "cur (procs c ! i) = Some (print ch ! pc)"
    by (rule printer_cases)
  from pc(2) show "print_exec semid i a (shared c) \<noteq> Inl Exit_failure"
    using a pc h by (cases rule: pc6_cases) (auto simp: tty_exec [OF ok] SEMVMX_def)
qed

lemma print_reach_inv:
  assumes "(interleave (print_exec semid))\<^sup>*\<^sup>* c0 c" "print_inv semid c0"
  shows "print_inv semid c"
proof (rule interleave_invariant [where I = "print_inv semid", OF assms print_quiet])
  fix c i a w
  assume inv: "print_inv semid c" and i: "i < length (procs c)"
    and a: "cur (procs c ! i) = Some a" and w: "print_exec semid i a (shared c) = Inr w"
  have ok: "tty_ok semid (shared c)" and p: "printer (procs c ! i)" using inv i by (auto simp: print_inv_def)
  have "\<forall>q\<in>set ((procs c)[i := advance (procs c ! i)]). printer q"
    using inv printer_advance [OF p] by (auto simp: print_inv_def dest!: set_update_subset_insert [THEN subsetD])
  then show "print_inv semid (c\<lparr>shared := w, procs := (procs c)[i := advance (procs c ! i)]\<rparr>)"
    using inv print_step [OF ok p a w] print_lock.balance_step [OF i p ok a w] screen_step [OF inv i a w]
    by (simp add: print_inv_def)
qed

lemma print_main_inv: "print_main fork_ok k = Inr (semid, c0) \<Longrightarrow> print_inv semid c0"
  by (auto simp: print_main_def sys_semget_def sem_setval_one print_inv_def print_lock.balance_def twice_def
      SEMVMX_def tty_ok_def lock_value_def simp del: printer.simps split: if_splits intro!: exI [of _ "[]"])

text \<open>C31: the letters come in pairs: whatever the schedule, the screen shows a sequence of doubled letters,
  followed by at most one letter whose second half is still to come from the process that has the
  semaphore.\<close>

theorem print_in_pairs:
  assumes "print_main fork_ok k = Inr (semid, c0)" "(interleave (print_exec semid))\<^sup>*\<^sup>* c0 c"
  shows "\<exists>cs rest. screen (shared c) = twice cs @ rest \<and> (rest = [] \<or> (\<exists>ch. rest = [ch]))"
proof -
  have inv: "print_inv semid c" by (rule print_reach_inv [OF assms(2) print_main_inv [OF assms(1)]])
  have b: "print_lock.balance semid c = 1" and v: "0 \<le> lock_value semid (shared c)"
    using inv lock_value_bounds by (auto simp: print_inv_def)
  obtain cs where cs: "screen (shared c) = twice cs @ concat (map once (procs c))"
    using inv by (auto simp: print_inv_def)
  have one: "once p = [] \<or> (\<exists>ch. once p = [ch])" if "p \<in> set (procs c)" for p
  proof -
    have "printer p" using inv that by (simp add: print_inv_def)
    then show ?thesis by (rule printer_cases) auto
  qed
  show ?thesis
  proof (cases "\<exists>i<length (procs c). once (procs c ! i) \<noteq> []")
    case True
    then obtain i where i: "i < length (procs c)" "once (procs c ! i) \<noteq> []" by blast
    have pr: "printer (procs c ! j)" if "j < length (procs c)" for j using inv that by (simp add: print_inv_def)
    have "in_section (procs c ! i) = 1" using once_section [OF pr [OF i(1)]] i by (cases "procs c ! i") auto
    then have "once (procs c ! j) = []" if "j < length (procs c)" "j \<noteq> i" for j
      using print_lock.exclusive [OF b v i(1) that(1)] that by (intro once_section pr) auto
    then have "concat (map once (procs c)) = once (procs c ! i)" by (rule concat_single [of i "procs c" once, OF i(1)])
    then show ?thesis using cs one [of "procs c ! i"] i(1) by auto
  next
    case False
    then have "once p = []" if "p \<in> set (procs c)" for p using that by (metis in_set_conv_nth)
    then have "concat (map once (procs c)) = []" by simp
    then show ?thesis using cs by (intro exI [of _ cs] exI [of _ "[]"]) simp
  qed
qed

definition print_demo :: "(tty, print_act) conf" where
  "print_demo =
     \<lparr>shared = \<lparr>tty_sems = \<lparr>sem_ids = Map.empty, sem_sets = [0 \<mapsto> [1]], next_semid = 1\<rparr>, screen = []\<rparr>,
      procs = [(0, Forever (print CHR ''p'')), (0, Forever (print CHR ''c''))], one_group = False\<rparr>"

lemma print_main_demo: "print_main True sem_boot = Inr (0, print_demo)"
  by (simp add: print_main_def print_demo_def sys_semget_def sem_boot_def sem_setval_one put_value_def SEMVMX_def)

lemma print_demo_run:
  "\<exists>c. run_sched (print_exec 0) [1, 1, 1, 1, 1, 0, 0] print_demo = Inr c \<and> screen (shared c) = ''ccp''"
  by (simp add: print_demo_def pstep_def print_exec.simps sem_p_one sem_v_one put_value_def SEMVMX_def print_def)

theorem print_in_pairs_witness: "\<exists>cs rest. ''ccp'' = twice cs @ rest \<and> (rest = [] \<or> (\<exists>ch. rest = [ch]))"
proof -
  obtain c where c: "run_sched (print_exec 0) [1, 1, 1, 1, 1, 0, 0] print_demo = Inr c" "screen (shared c) = ''ccp''"
    using print_demo_run by blast
  show ?thesis using print_in_pairs [OF print_main_demo run_sched_reach [OF c(1)]] c(2) by simp
qed

end
