(* ===== verification/PosixStore.thy ===== *)
theory PosixStore
  imports Interleave
begin

text \<open>
  \<open>process/ipc/codes/produce-consume/posix-produce-consume.c\<close>: producer and consumer threads around a
  store of ten products, with two POSIX semaphores and a mutex.

  \<^item> \<open>store\<close> holds the global variables and what the C library keeps for \<open>sem_t\<close> and \<open>pthread_mutex_t\<close>;
    \<open>out_lines\<close> is what was printed and \<open>taken\<close> the history of the products that were consumed, which the
    code does not have.
  \<^item> \<open>handle_consume\<close> and \<open>handle_produce\<close> are the bodies of the \<open>while(1)\<close> of these functions.
  \<^item> \<open>posix_main\<close>: all six threads are created, or \<open>main\<close> exits. The code behind \<open>pthread_join\<close> is not
    reached, since no thread returns.
\<close>

definition BUFFER_ELEMENTS :: nat where
  "BUFFER_ELEMENTS = 10"

definition SEM_VALUE_MAX :: int where
  "SEM_VALUE_MAX = 2147483647"

datatype cell = Empty_here nat | Empty_cell nat | Holds nat int

datatype line =
    Waits_to_consume nat
  | Waits_to_produce nat
  | Cells "cell list"
  | Consuming nat int
  | Producing nat int

record store =
  buf :: "int list"
  rd_index :: nat
  wr_index :: nat
  produce_id :: int
  sem_produce :: int
  sem_consume :: int
  mutex :: "nat option"
  out_lines :: "line list"
  taken :: "int list"

text \<open>The loop that prints the state of the store; \<open>i\<close> is the index it marks.\<close>

definition show_cells :: "int list \<Rightarrow> nat \<Rightarrow> cell list" where
  "show_cells b idx = map (\<lambda>i. if b ! i = -1 then (if i = idx then Empty_here i else Empty_cell i)
     else Holds i (b ! i)) [0..<BUFFER_ELEMENTS]"

datatype posix_act =
    Say line
  | Wait_consume | Wait_produce
  | Post_consume | Post_produce
  | Mutex_lock | Mutex_unlock
  | Show_rd | Show_wr
  | Say_consuming nat | Say_producing nat
  | Take | Step_rd | Put | Step_wr
  | Nap

definition handle_consume :: "nat \<Rightarrow> posix_act list" where
  "handle_consume subscript =
     [Say (Waits_to_consume subscript), Wait_consume, Mutex_lock, Show_rd, Say_consuming subscript,
      Take, Step_rd, Mutex_unlock, Post_produce, Nap]"

definition handle_produce :: "nat \<Rightarrow> posix_act list" where
  "handle_produce subscript =
     [Say (Waits_to_produce subscript), Wait_produce, Mutex_lock, Show_wr, Say_producing subscript,
      Put, Step_wr, Mutex_unlock, Post_consume, Nap]"

fun posix_exec :: "nat \<Rightarrow> posix_act \<Rightarrow> store \<Rightarrow> store run" where
  "posix_exec i (Say l) w = Inr (w\<lparr>out_lines := out_lines w @ [l]\<rparr>)"
| "posix_exec i Wait_consume w =
     (if sem_consume w = 0 then Inl Blocked else Inr (w\<lparr>sem_consume := sem_consume w - 1\<rparr>))"
| "posix_exec i Wait_produce w =
     (if sem_produce w = 0 then Inl Blocked else Inr (w\<lparr>sem_produce := sem_produce w - 1\<rparr>))"
| "posix_exec i Post_consume w =
     (if sem_consume w = SEM_VALUE_MAX then Inl Exit_failure else Inr (w\<lparr>sem_consume := sem_consume w + 1\<rparr>))"
| "posix_exec i Post_produce w =
     (if sem_produce w = SEM_VALUE_MAX then Inl Exit_failure else Inr (w\<lparr>sem_produce := sem_produce w + 1\<rparr>))"
| "posix_exec i Mutex_lock w = (if mutex w = None then Inr (w\<lparr>mutex := Some i\<rparr>) else Inl Blocked)"
| "posix_exec i Mutex_unlock w = (if mutex w = Some i then Inr (w\<lparr>mutex := None\<rparr>) else Inl (Fault BadUnlock))"
| "posix_exec i Show_rd w = Inr (w\<lparr>out_lines := out_lines w @ [Cells (show_cells (buf w) (rd_index w))]\<rparr>)"
| "posix_exec i Show_wr w = Inr (w\<lparr>out_lines := out_lines w @ [Cells (show_cells (buf w) (wr_index w))]\<rparr>)"
| "posix_exec i (Say_consuming s) w = Inr (w\<lparr>out_lines := out_lines w @ [Consuming s (produce_id w)]\<rparr>)"
| "posix_exec i (Say_producing s) w = Inr (w\<lparr>out_lines := out_lines w @ [Producing s (produce_id w)]\<rparr>)"
| "posix_exec i Take w =
     (if rd_index w < length (buf w)
      then Inr (w\<lparr>buf := (buf w)[rd_index w := -1], taken := taken w @ [buf w ! rd_index w]\<rparr>)
      else Inl (Fault OutOfBounds))"
| "posix_exec i Step_rd w = Inr (w\<lparr>rd_index := (rd_index w + 1) mod BUFFER_ELEMENTS\<rparr>)"
| "posix_exec i Put w =
     (if \<not> wr_index w < length (buf w) then Inl (Fault OutOfBounds)
      else if produce_id w = 2 ^ 31 - 1 then Inl (Fault IntOverflow)
      else Inr (w\<lparr>buf := (buf w)[wr_index w := produce_id w], produce_id := produce_id w + 1\<rparr>))"
| "posix_exec i Step_wr w = Inr (w\<lparr>wr_index := (wr_index w + 1) mod BUFFER_ELEMENTS\<rparr>)"
| "posix_exec i Nap w = Inr w"

definition posix_main :: "(nat \<Rightarrow> bool) \<Rightarrow> (store, posix_act) conf run" where
  "posix_main create_ok =
     (if \<forall>i<6. create_ok i then
        Inr \<lparr>shared = \<lparr>buf = replicate BUFFER_ELEMENTS (-1), rd_index = 0, wr_index = 0, produce_id = 0,
               sem_produce = int BUFFER_ELEMENTS, sem_consume = 0, mutex = None, out_lines = [], taken = []\<rparr>,
             procs = map (\<lambda>i. (0, Forever (handle_consume i))) [0..<2] @
                     map (\<lambda>i. (0, Forever (handle_produce i))) [0..<4],
             one_group = True\<rparr>
      else Inl Exit_failure)"

subsection \<open>The threads and what they hold\<close>

fun is_consumer :: "posix_act list \<Rightarrow> bool" where
  "is_consumer (Say (Waits_to_consume s) # b) = True"
| "is_consumer _ = False"

fun posix_thread :: "posix_act proc \<Rightarrow> bool" where
  "posix_thread (pc, Forever b) = (pc < 10 \<and> (\<exists>s. b = handle_consume s \<or> b = handle_produce s))"
| "posix_thread (pc, Calls cs) = False"

fun posix_at :: "nat \<Rightarrow> nat \<Rightarrow> bool \<Rightarrow> posix_act proc \<Rightarrow> int" where
  "posix_at lo hi cons (pc, Forever b) = of_bool (lo \<le> pc \<and> pc \<le> hi \<and> is_consumer b = cons)"
| "posix_at lo hi cons (pc, Calls cs) = 0"

definition posix_lock :: "posix_act proc \<Rightarrow> int" where
  "posix_lock p = posix_at 3 7 False p + posix_at 3 7 True p"

definition posix_space :: "posix_act proc \<Rightarrow> int" where
  "posix_space p = posix_at 2 5 False p + posix_at 6 8 True p"

definition posix_items :: "posix_act proc \<Rightarrow> int" where
  "posix_items p = posix_at 6 8 False p + posix_at 2 5 True p"

definition in_store :: "store \<Rightarrow> int" where
  "in_store w = produce_id w - int (length (taken w))"

definition mutex_free :: "store \<Rightarrow> int" where
  "mutex_free w = of_bool (mutex w = None)"

lemma posix_at_range: "0 \<le> posix_at lo hi cons p" "posix_at lo hi cons p \<le> 1"
  by (cases p; cases "snd p"; simp)+

lemma handle_nth [simp]:
  "handle_consume s ! 0 = Say (Waits_to_consume s)" "handle_consume s ! Suc 0 = Wait_consume"
  "handle_consume s ! 2 = Mutex_lock" "handle_consume s ! 3 = Show_rd" "handle_consume s ! 4 = Say_consuming s"
  "handle_consume s ! 5 = Take" "handle_consume s ! 6 = Step_rd" "handle_consume s ! 7 = Mutex_unlock"
  "handle_consume s ! 8 = Post_produce" "handle_consume s ! 9 = Nap" "length (handle_consume s) = 10"
  "handle_produce s ! 0 = Say (Waits_to_produce s)" "handle_produce s ! Suc 0 = Wait_produce"
  "handle_produce s ! 2 = Mutex_lock" "handle_produce s ! 3 = Show_wr" "handle_produce s ! 4 = Say_producing s"
  "handle_produce s ! 5 = Put" "handle_produce s ! 6 = Step_wr" "handle_produce s ! 7 = Mutex_unlock"
  "handle_produce s ! 8 = Post_consume" "handle_produce s ! 9 = Nap" "length (handle_produce s) = 10"
  "is_consumer (handle_consume s)" "\<not> is_consumer (handle_produce s)"
  by (simp_all add: handle_consume_def handle_produce_def)

lemma posix_thread_cases:
  assumes "posix_thread p"
  obtains (consumer) s pc where "p = (pc, Forever (handle_consume s))" "pc < 10" "cur p = Some (handle_consume s ! pc)"
      "advance p = (if pc = 9 then 0 else Suc pc, Forever (handle_consume s))"
    | (producer) s pc where "p = (pc, Forever (handle_produce s))" "pc < 10" "cur p = Some (handle_produce s ! pc)"
      "advance p = (if pc = 9 then 0 else Suc pc, Forever (handle_produce s))"
proof -
  obtain pc b where p: "p = (pc, Forever b)" using assms by (cases p; cases "snd p") auto
  then show ?thesis using that assms by (auto simp: less_Suc_eq)
qed

lemma posix_thread_advance: "posix_thread p \<Longrightarrow> posix_thread (advance p)"
  by (erule posix_thread_cases) auto

lemma pc10_cases:
  fixes pc :: nat
  assumes "pc < 10"
  obtains "pc = 0" | "pc = Suc 0" | "pc = 2" | "pc = 3" | "pc = 4" | "pc = 5" | "pc = 6" | "pc = 7" | "pc = 8" | "pc = 9"
proof (cases "pc < 5")
  case True
  then show ?thesis using that(1-5) by linarith
next
  case False
  then show ?thesis using that(6-10) assms by linarith
qed

text \<open>The shape of the store.\<close>

definition store_ok :: "store \<Rightarrow> bool" where
  "store_ok w \<longleftrightarrow> length (buf w) = BUFFER_ELEMENTS \<and> rd_index w < BUFFER_ELEMENTS \<and> wr_index w < BUFFER_ELEMENTS \<and>
     0 \<le> sem_produce w \<and> 0 \<le> sem_consume w"

lemma store_ok_step: "store_ok w \<Longrightarrow> posix_exec i a w = Inr w' \<Longrightarrow> store_ok w'"
  by (cases a) (auto simp: store_ok_def BUFFER_ELEMENTS_def split: if_splits)

lemma posix_step:
  assumes "posix_thread p" "cur p = Some a" "posix_exec i a w = Inr w'"
  shows "sem_produce w' + in_store w' + posix_space (advance p) = sem_produce w + in_store w + posix_space p \<and>
    sem_consume w' - in_store w' + posix_items (advance p) = sem_consume w - in_store w + posix_items p \<and>
    mutex_free w' + posix_lock (advance p) = mutex_free w + posix_lock p"
  using assms(1)
proof (cases rule: posix_thread_cases)
  case (consumer s pc)
  from consumer(2) show ?thesis
    using assms consumer
    by (cases rule: pc10_cases)
      (auto simp: posix_space_def posix_items_def posix_lock_def mutex_free_def in_store_def split: if_splits)
next
  case (producer s pc)
  from producer(2) show ?thesis
    using assms producer
    by (cases rule: pc10_cases)
      (auto simp: posix_space_def posix_items_def posix_lock_def mutex_free_def in_store_def split: if_splits)
qed

interpretation store_space: account posix_exec store_ok posix_thread
    "\<lambda>w. sem_produce w + in_store w" posix_space
  by unfold_locales (use posix_step in \<open>auto simp: posix_space_def posix_at_range\<close>)

interpretation store_items: account posix_exec store_ok posix_thread
    "\<lambda>w. sem_consume w - in_store w" posix_items
  by unfold_locales (use posix_step in \<open>auto simp: posix_items_def posix_at_range\<close>)

interpretation store_lock: account posix_exec store_ok posix_thread mutex_free posix_lock
  by unfold_locales (use posix_step in \<open>auto simp: posix_lock_def posix_at_range\<close>)

end
