(* ===== verification/PosixProps.thy ===== *)
theory PosixProps
  imports PosixStore
begin

text \<open>
  The invariant of the POSIX store under every interleaving of its threads, and what follows for the
  products and for what the consumers print.
\<close>

abbreviation after :: "nat \<Rightarrow> 'w \<Rightarrow> ('w, 'a) conf \<Rightarrow> ('w, 'a) conf" where
  "after i w c \<equiv> c\<lparr>shared := w, procs := (procs c)[i := advance (procs c ! i)]\<rparr>"

abbreviation to_step_wr :: "posix_act proc \<Rightarrow> int" where
  "to_step_wr \<equiv> posix_at 6 6 False"

abbreviation to_step_rd :: "posix_act proc \<Rightarrow> int" where
  "to_step_rd \<equiv> posix_at 6 6 True"

abbreviation to_be_taken :: "posix_act proc \<Rightarrow> int" where
  "to_be_taken \<equiv> posix_at 5 5 True"

fun announced :: "line list \<Rightarrow> int list" where
  "announced [] = []"
| "announced (Consuming s x # ls) = x # announced ls"
| "announced (_ # ls) = announced ls"

lemma announced_append [simp]: "announced (xs @ ys) = announced xs @ announced ys"
  by (induction xs rule: announced.induct) simp_all

definition owner_inv :: "(store, posix_act) conf \<Rightarrow> bool" where
  "owner_inv c \<longleftrightarrow> (\<forall>i<length (procs c). posix_lock (procs c ! i) = 1 \<longrightarrow> mutex (shared c) = Some i)"

definition index_inv :: "(store, posix_act) conf \<Rightarrow> bool" where
  "index_inv c \<longleftrightarrow>
     int (wr_index (shared c)) = (produce_id (shared c) - total_held to_step_wr (procs c)) mod 10 \<and>
     int (rd_index (shared c)) = (int (length (taken (shared c))) - total_held to_step_rd (procs c)) mod 10"

text \<open>The cells when the products \<open>a\<close> to \<open>b - 1\<close> are in the store: each in its place, the rest empty.\<close>

definition cells_ok :: "nat \<Rightarrow> nat \<Rightarrow> int list \<Rightarrow> bool" where
  "cells_ok a b cells \<longleftrightarrow> (\<forall>k. a \<le> k \<longrightarrow> k < b \<longrightarrow> cells ! (k mod 10) = int k) \<and>
     (\<forall>j<10. (\<forall>k. a \<le> k \<longrightarrow> k < b \<longrightarrow> k mod 10 \<noteq> j) \<longrightarrow> cells ! j = -1)"

definition cells_inv :: "store \<Rightarrow> bool" where
  "cells_inv w \<longleftrightarrow> 0 \<le> produce_id w \<and> produce_id w \<le> 2 ^ 31 - 1 \<and> taken w = map int [0..<length (taken w)] \<and>
     int (length (taken w)) \<le> produce_id w \<and> cells_ok (length (taken w)) (nat (produce_id w)) (buf w)"

lemma cells_put:
  assumes "cells_ok a b cells" "a \<le> b" "b - a < 10" "length cells = 10"
  shows "cells_ok a (Suc b) (cells[b mod 10 := int b])"
  unfolding cells_ok_def
proof (intro conjI allI impI)
  fix k assume k: "a \<le> k" "k < Suc b"
  show "cells[b mod 10 := int b] ! (k mod 10) = int k"
  proof (cases "k = b")
    case True
    then show ?thesis using assms(4) by simp
  next
    case False
    then have "k mod 10 \<noteq> b mod 10" using k assms(3) by (intro mod_neq_below) auto
    then show ?thesis using assms(1) k False by (simp add: cells_ok_def)
  qed
next
  fix j :: nat assume j: "j < 10" "\<forall>k\<ge>a. k < Suc b \<longrightarrow> k mod 10 \<noteq> j"
  show "cells[b mod 10 := int b] ! j = -1"
  proof -
    have "b mod 10 \<noteq> j" using j assms(2) by simp
    then show ?thesis using assms(1) j by (simp add: cells_ok_def)
  qed
qed

lemma cells_take:
  assumes "cells_ok a b cells" "a < b" "b - a \<le> 10" "length cells = 10"
  shows "cells ! (a mod 10) = int a" "cells_ok (Suc a) b (cells[a mod 10 := -1])"
proof -
  show "cells ! (a mod 10) = int a" using assms(1,2) by (simp add: cells_ok_def)
  show "cells_ok (Suc a) b (cells[a mod 10 := -1])"
    unfolding cells_ok_def
  proof (intro conjI allI impI)
    fix k assume k: "Suc a \<le> k" "k < b"
    then have "a mod 10 \<noteq> k mod 10" using assms(3) by (intro mod_neq_below) auto
    then show "cells[a mod 10 := -1] ! (k mod 10) = int k" using assms(1) k by (simp add: cells_ok_def)
  next
    fix j :: nat assume j: "j < 10" "\<forall>k\<ge>Suc a. k < b \<longrightarrow> k mod 10 \<noteq> j"
    show "cells[a mod 10 := -1] ! j = -1"
    proof (cases "j = a mod 10")
      case True
      then show ?thesis using assms(4) by simp
    next
      case False
      then have "\<forall>k. a \<le> k \<longrightarrow> k < b \<longrightarrow> k mod 10 \<noteq> j" using j by (metis Suc_leI le_neq_implies_less)
      then show ?thesis using assms(1) j False by (simp add: cells_ok_def)
    qed
  qed
qed

definition announced_inv :: "(store, posix_act) conf \<Rightarrow> bool" where
  "announced_inv c \<longleftrightarrow>
     int (length (announced (out_lines (shared c)))) = int (length (taken (shared c))) + total_held to_be_taken (procs c) \<and>
     (\<forall>n<length (announced (out_lines (shared c))). int n < announced (out_lines (shared c)) ! n)"

definition posix_inv :: "(store, posix_act) conf \<Rightarrow> bool" where
  "posix_inv c \<longleftrightarrow> store_ok (shared c) \<and> (\<forall>p\<in>set (procs c). posix_thread p) \<and>
     store_space.balance c = 10 \<and> store_items.balance c = 0 \<and> store_lock.balance c = 1 \<and>
     owner_inv c \<and> index_inv c \<and> cells_inv (shared c) \<and> announced_inv c"

lemma posix_invD:
  assumes "posix_inv c"
  shows "store_ok (shared c)" "store_space.balance c = 10" "store_items.balance c = 0" "store_lock.balance c = 1"
    "owner_inv c" "index_inv c" "cells_inv (shared c)" "announced_inv c"
    "i < length (procs c) \<Longrightarrow> posix_thread (procs c ! i)"
  using assms by (auto simp: posix_inv_def)

lemma posix_alone:
  assumes inv: "posix_inv c" and i: "i < length (procs c)" and l: "posix_lock (procs c ! i) = 1"
    and h: "\<And>p. 0 \<le> h p" "\<And>p. h p \<le> posix_lock p"
  shows "total_held h (procs c) = h (procs c ! i)"
proof (rule total_held_single [OF i])
  fix j assume j: "j < length (procs c)" "j \<noteq> i"
  have "posix_lock (procs c ! j) = 0"
    using store_lock.exclusive [OF posix_invD(4) [OF inv] _ i j(1)] j(2) l by (simp add: mutex_free_def)
  then show "h (procs c ! j) = 0" using h [of "procs c ! j"] by simp
qed

lemma at_le_lock:
  "posix_at 6 6 b p \<le> posix_lock p" "posix_at 5 5 b p \<le> posix_lock p"
  by (cases p; cases "snd p"; cases b; simp add: posix_lock_def)+

lemma store_counts:
  assumes inv: "posix_inv c" and i: "i < length (procs c)"
  shows "posix_space (procs c ! i) = 1 \<Longrightarrow> in_store (shared c) < 10"
    and "posix_items (procs c ! i) = 1 \<Longrightarrow> 0 < in_store (shared c)"
    and "posix_space (procs c ! i) = 1 \<Longrightarrow> sem_produce (shared c) < 10"
    and "posix_items (procs c ! i) = 1 \<Longrightarrow> sem_consume (shared c) < 10"
    and "in_store (shared c) \<le> 10"
proof -
  note sp = store_space.held_le [OF posix_invD(2) [OF inv] i] and it = store_items.held_le [OF posix_invD(3) [OF inv] i]
  have n: "0 \<le> sem_produce (shared c)" "0 \<le> sem_consume (shared c)" "0 \<le> in_store (shared c)"
    using posix_invD(1,7) [OF inv] by (auto simp: store_ok_def cells_inv_def in_store_def)
  have le: "sem_produce (shared c) + in_store (shared c) \<le> 10"
    using store_space.level_le [OF posix_invD(2) [OF inv]] by simp
  show "in_store (shared c) \<le> 10" using le n by linarith
  show "posix_space (procs c ! i) = 1 \<Longrightarrow> in_store (shared c) < 10" using sp n by linarith
  show "posix_items (procs c ! i) = 1 \<Longrightarrow> 0 < in_store (shared c)" using it n by linarith
  show "posix_space (procs c ! i) = 1 \<Longrightarrow> sem_produce (shared c) < 10" using sp n by linarith
  show "posix_items (procs c ! i) = 1 \<Longrightarrow> sem_consume (shared c) < 10" using it n le by linarith
qed

lemma posix_exec_Inl:
  assumes inv: "posix_inv c" and i: "i < length (procs c)"
    and a: "cur (procs c ! i) = Some a" and e: "posix_exec i a (shared c) = Inl e"
  shows "e = Blocked \<or> e = Fault IntOverflow \<and> produce_id (shared c) = 2 ^ 31 - 1"
proof -
  have ok: "store_ok (shared c)" by (rule posix_invD(1) [OF inv])
  have own: "posix_lock (procs c ! i) = 1 \<Longrightarrow> mutex (shared c) = Some i"
    using posix_invD(5) [OF inv] i by (simp add: owner_inv_def)
  note cnt = store_counts [OF inv i]
  from posix_invD(9) [OF inv i] show ?thesis
  proof (cases rule: posix_thread_cases)
    case (consumer s pc)
    from consumer(2) show ?thesis
      using a e consumer ok own cnt
      by (cases rule: pc10_cases)
        (auto simp: posix_lock_def posix_space_def store_ok_def SEM_VALUE_MAX_def split: if_splits)
  next
    case (producer s pc)
    from producer(2) show ?thesis
      using a e producer ok own cnt
      by (cases rule: pc10_cases)
        (auto simp: posix_lock_def posix_items_def store_ok_def SEM_VALUE_MAX_def split: if_splits)
  qed
qed

lemma owner_step:
  assumes inv: "posix_inv c" and i: "i < length (procs c)"
    and a: "cur (procs c ! i) = Some a" and w: "posix_exec i a (shared c) = Inr w"
  shows "owner_inv (after i w c)"
proof -
  have own: "\<And>j. j < length (procs c) \<Longrightarrow> posix_lock (procs c ! j) = 1 \<Longrightarrow> mutex (shared c) = Some j"
    using posix_invD(5) [OF inv] by (simp add: owner_inv_def)
  note iff = own [OF i] own
  have m: "mutex w = (if a = Mutex_lock then Some i else if a = Mutex_unlock then None else mutex (shared c))"
    "a = Mutex_lock \<Longrightarrow> mutex (shared c) = None" "a = Mutex_unlock \<Longrightarrow> mutex (shared c) = Some i"
    using w by (cases a; auto split: if_splits)+
  have l: "posix_lock (advance (procs c ! i)) = (if a = Mutex_lock then 1 else if a = Mutex_unlock then 0 else posix_lock (procs c ! i))"
    using posix_invD(9) [OF inv i]
  proof (cases rule: posix_thread_cases)
    case (consumer s pc)
    from consumer(2) show ?thesis using a consumer by (cases rule: pc10_cases) (auto simp: posix_lock_def)
  next
    case (producer s pc)
    from producer(2) show ?thesis using a producer by (cases rule: pc10_cases) (auto simp: posix_lock_def)
  qed
  show ?thesis unfolding owner_inv_def
  proof (intro allI impI)
    fix j assume j: "j < length (procs (after i w c))" "posix_lock (procs (after i w c) ! j) = 1"
    show "mutex (shared (after i w c)) = Some j"
    proof (cases "j = i")
      case True
      then show ?thesis using j own [OF i] m l i by (auto split: if_splits)
    next
      case False
      then have "mutex (shared c) = Some j" using j own by simp
      then show ?thesis using m False by auto
    qed
  qed
qed

lemma posix_index_step:
  assumes inv: "posix_inv c" and i: "i < length (procs c)"
    and a: "cur (procs c ! i) = Some a" and w: "posix_exec i a (shared c) = Inr w"
  shows "index_inv (after i w c)"
proof -
  have wr: "int (wr_index (shared c)) = (produce_id (shared c) - total_held to_step_wr (procs c)) mod 10"
    and rd: "int (rd_index (shared c)) = (int (length (taken (shared c))) - total_held to_step_rd (procs c)) mod 10"
    using posix_invD(6) [OF inv] by (auto simp: index_inv_def)
  have s: "int (Suc n mod 10) = (x + 1) mod 10" if "int n = x mod 10" for n x
    using that by (simp add: of_nat_mod mod_add_right_eq add.commute)
  note alone = posix_alone [OF inv i, of to_step_wr, OF _ posix_at_range(1) at_le_lock(1)]
    posix_alone [OF inv i, of to_step_rd, OF _ posix_at_range(1) at_le_lock(1)]
  from posix_invD(9) [OF inv i] show ?thesis
  proof (cases rule: posix_thread_cases)
    case (consumer t pc)
    from consumer(2) show ?thesis
      using a w consumer i wr rd s [OF rd] alone
      by (cases rule: pc10_cases)
        (auto simp: index_inv_def total_held_update posix_lock_def BUFFER_ELEMENTS_def algebra_simps split: if_splits)
  next
    case (producer t pc)
    from producer(2) show ?thesis
      using a w producer i wr rd s [OF wr] alone
      by (cases rule: pc10_cases)
        (auto simp: index_inv_def total_held_update posix_lock_def BUFFER_ELEMENTS_def algebra_simps split: if_splits)
  qed
qed

lemma announced_step:
  assumes inv: "posix_inv c" and i: "i < length (procs c)"
    and a: "cur (procs c ! i) = Some a" and w: "posix_exec i a (shared c) = Inr w"
  shows "announced_inv (after i w c)"
proof -
  let ?l = "announced (out_lines (shared c))"
  have n: "int (length ?l) = int (length (taken (shared c))) + total_held to_be_taken (procs c)"
    and lt: "\<forall>n<length ?l. int n < ?l ! n"
    using posix_invD(8) [OF inv] by (auto simp: announced_inv_def)
  note alone = posix_alone [OF inv i, of to_be_taken, OF _ posix_at_range(1) at_le_lock(2)]
  note some = store_counts(2) [OF inv i]
  from posix_invD(9) [OF inv i] show ?thesis
  proof (cases rule: posix_thread_cases)
    case (consumer t pc)
    from consumer(2) show ?thesis
      using a w consumer i n lt alone some
      by (cases rule: pc10_cases)
        (auto simp: announced_inv_def total_held_update posix_lock_def posix_items_def in_store_def nth_append less_Suc_eq
          split: if_splits)
  next
    case (producer t pc)
    from producer(2) show ?thesis
      using a w producer i n lt alone
      by (cases rule: pc10_cases)
        (auto simp: announced_inv_def total_held_update posix_lock_def split: if_splits)
  qed
qed

lemma cells_step:
  assumes inv: "posix_inv c" and i: "i < length (procs c)"
    and a: "cur (procs c ! i) = Some a" and w: "posix_exec i a (shared c) = Inr w"
  shows "cells_inv w"
proof -
  let ?w = "shared c"
  have cells: "cells_inv ?w" and ok: "store_ok ?w" using posix_invD(1,7) [OF inv] by auto
  obtain P where P: "produce_id ?w = int P" using cells by (auto simp: cells_inv_def intro: that [of "nat (produce_id ?w)"])
  have len: "length (buf ?w) = 10" using ok by (simp add: store_ok_def BUFFER_ELEMENTS_def)
  let ?C = "length (taken ?w)"
  have c: "cells_ok ?C P (buf ?w)" "taken ?w = map int [0..<?C]" "?C \<le> P" "int P \<le> 2 ^ 31 - 1"
    using cells P by (auto simp: cells_inv_def)
  have wr: "int (wr_index ?w) = (int P - total_held to_step_wr (procs c)) mod 10"
    and rd: "int (rd_index ?w) = (int ?C - total_held to_step_rd (procs c)) mod 10"
    using posix_invD(6) [OF inv] P by (auto simp: index_inv_def)
  note alone = posix_alone [OF inv i, of to_step_wr, OF _ posix_at_range(1) at_le_lock(1)]
    posix_alone [OF inv i, of to_step_rd, OF _ posix_at_range(1) at_le_lock(1)]
  note cnt = store_counts [OF inv i]
  from posix_invD(9) [OF inv i] show ?thesis
  proof (cases rule: posix_thread_cases)
    case (consumer t pc)
    show ?thesis
    proof (cases "pc = 5")
      case True
      then have "int (rd_index ?w) = int ?C mod 10" using alone consumer rd by (simp add: posix_lock_def)
      then have r: "rd_index ?w = ?C mod 10" by (metis of_nat_eq_iff of_nat_mod of_nat_numeral)
      have lt: "?C < P" "P - ?C \<le> 10"
        using cnt(2,5) True consumer P by (auto simp: posix_items_def in_store_def)
      have "w = ?w\<lparr>buf := (buf ?w)[?C mod 10 := -1], taken := taken ?w @ [int ?C]\<rparr>"
        using w a consumer True r cells_take(1) [OF c(1) lt len] len by (auto split: if_splits)
      then show ?thesis using cells_take(2) [OF c(1) lt len] c P lt by (simp add: cells_inv_def)
    next
      case False
      from consumer(2) show ?thesis
        using a w consumer False cells by (cases rule: pc10_cases) (auto simp: cells_inv_def split: if_splits)
    qed
  next
    case (producer t pc)
    show ?thesis
    proof (cases "pc = 5")
      case True
      then have "int (wr_index ?w) = int P mod 10" using alone producer wr by (simp add: posix_lock_def)
      then have r: "wr_index ?w = P mod 10" by (metis of_nat_eq_iff of_nat_mod of_nat_numeral)
      have lt: "P - ?C < 10" using cnt(1) True producer P by (auto simp: posix_space_def in_store_def)
      have "w = ?w\<lparr>buf := (buf ?w)[P mod 10 := int P], produce_id := int P + 1\<rparr>" "int P < 2 ^ 31 - 1"
        using w a producer True r P c(4) by (auto split: if_splits)
      then show ?thesis using cells_put [OF c(1,3) lt len] c by (simp add: cells_inv_def nat_add_distrib)
    next
      case False
      from producer(2) show ?thesis
        using a w producer False cells by (cases rule: pc10_cases) (auto simp: cells_inv_def split: if_splits)
    qed
  qed
qed

lemma posix_reach_inv:
  assumes "(interleave posix_exec)\<^sup>*\<^sup>* c0 c" "posix_inv c0"
  shows "posix_inv c"
proof (rule interleave_invariant [where I = posix_inv, OF assms])
  show "quiet posix_exec c" if "posix_inv c" for c
    unfolding quiet_def using posix_exec_Inl [OF that] by (metis stop.distinct(1) stop.distinct(5))
next
  fix c i a w
  assume inv: "posix_inv c" and i: "i < length (procs c)"
    and a: "cur (procs c ! i) = Some a" and w: "posix_exec i a (shared c) = Inr w"
  have ok: "store_ok (shared c)" and p: "posix_thread (procs c ! i)" using inv i by (auto simp: posix_inv_def)
  have "\<forall>q\<in>set ((procs c)[i := advance (procs c ! i)]). posix_thread q"
    using inv posix_thread_advance [OF p] by (auto simp: posix_inv_def dest!: set_update_subset_insert [THEN subsetD])
  then show "posix_inv (after i w c)"
    using inv store_ok_step [OF ok w] store_space.balance_step [OF i p ok a w] store_items.balance_step [OF i p ok a w]
      store_lock.balance_step [OF i p ok a w] owner_step [OF inv i a w] posix_index_step [OF inv i a w]
      cells_step [OF inv i a w] announced_step [OF inv i a w]
    by (simp add: posix_inv_def)
qed

lemma posix_main_inv:
  assumes "posix_main create_ok = Inr c0" shows "posix_inv c0"
proof -
  have p: "procs c0 = map (\<lambda>i. (0, Forever (handle_consume i))) [0..<2] @ map (\<lambda>i. (0, Forever (handle_produce i))) [0..<4]"
    and w: "shared c0 = \<lparr>buf = replicate BUFFER_ELEMENTS (-1), rd_index = 0, wr_index = 0, produce_id = 0,
      sem_produce = int BUFFER_ELEMENTS, sem_consume = 0, mutex = None, out_lines = [], taken = []\<rparr>"
    using assms by (auto simp: posix_main_def split: if_splits)
  have at0: "posix_at lo hi b q = 0" if "q \<in> set (procs c0)" "0 < lo" for lo hi b q
    using that by (auto simp: p)
  have z: "total_held h (procs c0) = 0" if "h \<in> {posix_space, posix_items, posix_lock, to_step_wr, to_step_rd, to_be_taken}" for h
    using that by (intro total_held_all_zero) (auto simp: posix_space_def posix_items_def posix_lock_def at0)
  have "\<forall>q\<in>set (procs c0). posix_thread q" by (auto simp: p)
  moreover have "owner_inv c0" unfolding owner_inv_def by (auto simp: posix_lock_def at0)
  moreover have "store_space.balance c0 = 10" "store_items.balance c0 = 0" "store_lock.balance c0 = 1"
    unfolding store_space.balance_def store_items.balance_def store_lock.balance_def
    by (simp_all add: z) (simp_all add: w BUFFER_ELEMENTS_def in_store_def mutex_free_def)
  ultimately show ?thesis
    by (simp add: posix_inv_def z w store_ok_def index_inv_def cells_inv_def cells_ok_def announced_inv_def
        BUFFER_ELEMENTS_def)
qed

lemmas posix_reach = posix_reach_inv [OF _ posix_main_inv]

text \<open>C32: the products are consumed in the order of their production, each once, and the array always
  holds exactly those produced and not yet consumed, at most ten, each in its cell, the other cells being
  empty; and the only thing that can go wrong is that \<open>produce_id\<close> reaches the largest \<open>int\<close>.\<close>

theorem store_holds_products:
  assumes "posix_main create_ok = Inr c0" "(interleave posix_exec)\<^sup>*\<^sup>* c0 c"
  shows "taken (shared c) = map int [0..<length (taken (shared c))] \<and>
    cells_ok (length (taken (shared c))) (nat (produce_id (shared c))) (buf (shared c)) \<and>
    produce_id (shared c) \<le> int (length (taken (shared c))) + 10 \<and>
    (\<forall>i a e. i < length (procs c) \<longrightarrow> cur (procs c ! i) = Some a \<longrightarrow> posix_exec i a (shared c) = Inl e \<longrightarrow>
       e = Blocked \<or> e = Fault IntOverflow \<and> produce_id (shared c) = 2 ^ 31 - 1)"
proof -
  have inv: "posix_inv c" by (rule posix_reach [OF assms(2,1)])
  have "in_store (shared c) \<le> 10"
    using store_space.level_le [OF posix_invD(2) [OF inv]] posix_invD(1) [OF inv] by (simp add: store_ok_def)
  then show ?thesis
    using posix_invD(7) [OF inv] posix_exec_Inl [OF inv] by (simp add: cells_inv_def in_store_def)
qed

text \<open>What a consumer announces is never what it consumes: the \<open>n\<close>-th line \<open>is consuming x\<close> belongs to the
  consumption of product \<open>n\<close>, and \<open>x\<close> is larger: the code prints \<open>produce_id\<close>, the product to be made next,
  and \<open>consume_id\<close> is not used.\<close>

theorem consumer_prints_wrong_product:
  assumes "posix_main create_ok = Inr c0" "(interleave posix_exec)\<^sup>*\<^sup>* c0 c" "n < length (taken (shared c))"
  shows "n < length (announced (out_lines (shared c))) \<and> taken (shared c) ! n = int n \<and>
    taken (shared c) ! n < announced (out_lines (shared c)) ! n"
proof -
  have inv: "posix_inv c" by (rule posix_reach [OF assms(2,1)])
  have "0 \<le> total_held to_be_taken (procs c)" by (rule total_held_nonneg) (rule posix_at_range)
  then have n: "n < length (announced (out_lines (shared c)))"
    using posix_invD(8) [OF inv] assms(3) unfolding announced_inv_def by linarith
  have "taken (shared c) = map int [0..<length (taken (shared c))]"
    using posix_invD(7) [OF inv] by (simp add: cells_inv_def)
  then have "taken (shared c) ! n = int n" using assms(3) by (metis add_0 length_map length_upt nth_map nth_upt)
  then show ?thesis using n posix_invD(8) [OF inv] by (simp add: announced_inv_def)
qed

definition posix_demo :: "(store, posix_act) conf" where
  "posix_demo = projr (posix_main (\<lambda>i. True))"

lemma posix_main_demo: "posix_main (\<lambda>i. True) = Inr posix_demo"
  by (simp add: posix_demo_def posix_main_def)

text \<open>Producer 0 (thread 2) makes a product, consumer 0 (thread 0) takes it.\<close>

lemma list_update_numeral: "(x # xs)[numeral v := y] = x # xs[pred_numeral v := y]"
  by (simp add: numeral_eq_Suc)

lemma posix_demo_run:
  "\<exists>c. run_sched posix_exec ([2, 2, 2, 2, 2, 2, 2, 2, 2] @ [0, 0, 0, 0, 0, 0]) posix_demo = Inr c \<and>
     taken (shared c) = [0] \<and> announced (out_lines (shared c)) = [1]"
proof -
  have *: "[0..<2] = [0, 1 :: nat]" "[0..<4] = [0, 1, 2, 3 :: nat]" "replicate 10 (-1 :: int) = [-1,-1,-1,-1,-1,-1,-1,-1,-1,-1]"
    by (simp_all add: upt_rec numeral_eq_Suc)
  show ?thesis
    by (simp add: posix_demo_def posix_main_def pstep_def BUFFER_ELEMENTS_def SEM_VALUE_MAX_def * list_update_numeral
        numeral_2_eq_2 [symmetric])
qed

theorem store_holds_products_witness: "cells_ok 0 0 (replicate BUFFER_ELEMENTS (-1))"
  using store_holds_products [OF posix_main_demo rtranclp.rtrancl_refl] by (simp add: posix_demo_def posix_main_def)

theorem consumer_prints_wrong_product_witness:
  "\<exists>c. run_sched posix_exec ([2, 2, 2, 2, 2, 2, 2, 2, 2] @ [0, 0, 0, 0, 0, 0]) posix_demo = Inr c \<and>
     taken (shared c) ! 0 = 0 \<and> 0 < announced (out_lines (shared c)) ! 0"
proof -
  obtain c where c: "run_sched posix_exec ([2, 2, 2, 2, 2, 2, 2, 2, 2] @ [0, 0, 0, 0, 0, 0]) posix_demo = Inr c" "taken (shared c) = [0]"
    using posix_demo_run by blast
  then show ?thesis
    using consumer_prints_wrong_product [OF posix_main_demo run_sched_reach [OF c(1)], of 0] by simp
qed

end
