(* ===== verification/CondStore.thy ===== *)
theory CondStore
  imports Prelude
begin

text \<open>
  \<open>process/ipc/codes/produce-consume/cond-produce-consume.c\<close>: consumers that wait on a condition variable
  for a counter of products to become positive.

  \<^item> All accesses to \<open>total\<close> and all the output lie between \<open>pthread_mutex_lock\<close> and
    \<open>pthread_mutex_unlock\<close>, so the threads interleave by critical sections: \<open>consume_section\<close> is what a
    consumer does from the moment it owns the mutex until it gives it up, by unlocking or inside
    \<open>pthread_cond_wait\<close>; \<open>produce_section\<close> is that of a producer.
  \<^item> \<open>cond_step\<close> is the interleaving; a signal wakes one waiting consumer, if there is one, and a waiting
    consumer may wake up spuriously.
\<close>

datatype cond_thread = At_lock | Waiting | Woken

datatype cond_line = Is_waiting nat | Ends_waiting nat | Is_consuming nat | Is_producing nat | Signals nat

record cond_store =
  total :: int
  consumers :: "cond_thread list"
  producers :: nat
  log_lines :: "cond_line list"

definition consume_section :: "nat \<Rightarrow> cond_store \<Rightarrow> cond_store" where
  "consume_section i s =
     (if total s = 0
      then s\<lparr>log_lines := log_lines s @ [Is_waiting i], consumers := (consumers s)[i := Waiting]\<rparr>
      else s\<lparr>log_lines := log_lines s @ [Ends_waiting i, Is_consuming i], total := total s - 1,
             consumers := (consumers s)[i := At_lock]\<rparr>)"

definition produce_section :: "nat \<Rightarrow> cond_store \<Rightarrow> cond_store result" where
  "produce_section j s =
     (if total s = 2 ^ 31 - 1 then Inl IntOverflow
      else Inr (s\<lparr>log_lines := log_lines s @ [Is_producing j, Signals j], total := total s + 1\<rparr>))"

text \<open>\<open>pthread_cond_signal\<close>\<close>

inductive cond_signal :: "cond_store \<Rightarrow> cond_store \<Rightarrow> bool" where
  wake_one: "i < length (consumers s) \<Longrightarrow> consumers s ! i = Waiting \<Longrightarrow>
     cond_signal s (s\<lparr>consumers := (consumers s)[i := Woken]\<rparr>)"
| wake_none: "Waiting \<notin> set (consumers s) \<Longrightarrow> cond_signal s s"

inductive cond_step :: "cond_store \<Rightarrow> cond_store \<Rightarrow> bool" where
  consume_lock: "i < length (consumers s) \<Longrightarrow> consumers s ! i = At_lock \<Longrightarrow> cond_step s (consume_section i s)"
| consume_relock: "i < length (consumers s) \<Longrightarrow> consumers s ! i = Woken \<Longrightarrow> cond_step s (consume_section i s)"
| spurious: "i < length (consumers s) \<Longrightarrow> consumers s ! i = Waiting \<Longrightarrow>
     cond_step s (s\<lparr>consumers := (consumers s)[i := Woken]\<rparr>)"
| produce_lock: "j < producers s \<Longrightarrow> produce_section j s = Inr s' \<Longrightarrow> cond_signal s' s'' \<Longrightarrow> cond_step s s''"

text \<open>\<open>CONSUMER_THREADS\<close> and \<open>PRODUCER_THREADS\<close> are 2 and 1; \<open>create_ok i\<close> says whether the \<open>i\<close>-th
  \<open>pthread_create\<close> succeeds.\<close>

definition cond_main :: "(nat \<Rightarrow> bool) \<Rightarrow> cond_store run" where
  "cond_main create_ok =
     (if \<forall>i<3. create_ok i
      then Inr \<lparr>total = 0, consumers = [At_lock, At_lock], producers = 1, log_lines = []\<rparr>
      else Inl Exit_failure)"

subsection \<open>The invariant\<close>

definition made :: "cond_store \<Rightarrow> nat" where
  "made s = length (filter (\<lambda>l. case l of Is_producing j \<Rightarrow> True | _ \<Rightarrow> False) (log_lines s))"

definition used :: "cond_store \<Rightarrow> nat" where
  "used s = length (filter (\<lambda>l. case l of Is_consuming j \<Rightarrow> True | _ \<Rightarrow> False) (log_lines s))"

definition cond_inv :: "cond_store \<Rightarrow> bool" where
  "cond_inv s \<longleftrightarrow> total s = int (made s) - int (used s) \<and> 0 \<le> total s \<and> consumers s \<noteq> [] \<and>
     (0 < total s \<longrightarrow> (\<exists>w\<in>set (consumers s). w \<noteq> Waiting))"

lemma counts_simps [simp]:
  "made (s\<lparr>consumers := x\<rparr>) = made s" "used (s\<lparr>consumers := x\<rparr>) = used s"
  by (simp_all add: made_def used_def)

lemma some_awake: "i < length ws \<Longrightarrow> w \<noteq> Waiting \<Longrightarrow> \<exists>v\<in>set (ws[i := w]). v \<noteq> Waiting"
  by (metis set_update_memI)

lemma consume_section_inv:
  assumes "cond_inv s" "i < length (consumers s)"
  shows "cond_inv (consume_section i s)"
proof (cases "total s = 0")
  case True
  then show ?thesis using assms by (auto simp: consume_section_def cond_inv_def made_def used_def)
next
  case False
  then show ?thesis
    using assms some_awake [of i "consumers s" At_lock]
    by (auto simp: consume_section_def cond_inv_def made_def used_def)
qed

lemma produce_signal_inv:
  assumes "cond_inv s" "produce_section j s = Inr s'" "cond_signal s' s''"
  shows "cond_inv s''"
proof -
  have s': "s' = s\<lparr>log_lines := log_lines s @ [Is_producing j, Signals j], total := total s + 1\<rparr>"
    using assms(2) by (auto simp: produce_section_def split: if_splits)
  have base: "total s' = int (made s') - int (used s')" "0 \<le> total s'" "consumers s' \<noteq> []"
    using assms(1) by (auto simp: s' cond_inv_def made_def used_def)
  from assms(3) show ?thesis
  proof (cases rule: cond_signal.cases)
    case (wake_one i)
    then show ?thesis using base some_awake [of i "consumers s'" Woken] by (simp add: cond_inv_def)
  next
    case wake_none
    then have "\<exists>w\<in>set (consumers s'). w \<noteq> Waiting" using base(3) by (metis list.set_sel(1))
    then show ?thesis using base wake_none by (simp add: cond_inv_def)
  qed
qed

lemma cond_step_inv: "cond_step s s' \<Longrightarrow> cond_inv s \<Longrightarrow> cond_inv s'"
proof (induction rule: cond_step.induct)
  case (spurious i s)
  then show ?case using some_awake [of i "consumers s" Woken] by (auto simp: cond_inv_def)
qed (auto intro: consume_section_inv produce_signal_inv)

lemma cond_reach_inv: "cond_step\<^sup>*\<^sup>* s s' \<Longrightarrow> cond_inv s \<Longrightarrow> cond_inv s'"
  by (induction rule: rtranclp_induct) (auto intro: cond_step_inv)

lemma cond_main_inv: "cond_main create_ok = Inr s \<Longrightarrow> cond_inv s"
  by (auto simp: cond_main_def cond_inv_def made_def used_def split: if_splits)

text \<open>The counter is the number of products made minus the number used, and never negative: no
  consumer uses a product that has not been made.\<close>

theorem total_counts_products:
  assumes "cond_main create_ok = Inr s0" "cond_step\<^sup>*\<^sup>* s0 s"
  shows "total s = int (made s) - int (used s) \<and> used s \<le> made s"
  using cond_reach_inv [OF assms(2) cond_main_inv [OF assms(1)]] by (simp add: cond_inv_def)

text \<open>C35: no wake-up is lost: whenever there is a product, some consumer is awake: not all of them are in
  \<open>pthread_cond_wait\<close>.\<close>

theorem product_keeps_consumer_awake:
  assumes "cond_main create_ok = Inr s0" "cond_step\<^sup>*\<^sup>* s0 s" "0 < total s"
  shows "\<exists>i<length (consumers s). consumers s ! i \<noteq> Waiting \<and> cond_step s (consume_section i s)"
proof -
  have "\<exists>w\<in>set (consumers s). w \<noteq> Waiting"
    using cond_reach_inv [OF assms(2) cond_main_inv [OF assms(1)]] assms(3) by (simp add: cond_inv_def)
  then obtain i where i: "i < length (consumers s)" "consumers s ! i \<noteq> Waiting" by (metis in_set_conv_nth)
  then have "consumers s ! i = At_lock \<or> consumers s ! i = Woken" by (cases "consumers s ! i") auto
  then show ?thesis using i cond_step.consume_lock cond_step.consume_relock by metis
qed

definition cond_demo :: cond_store where
  "cond_demo = \<lparr>total = 0, consumers = [At_lock, At_lock], producers = 1, log_lines = []\<rparr>"

definition cond_demo2 :: cond_store where
  "cond_demo2 = \<lparr>total = 1, consumers = [Woken, At_lock], producers = 1,
     log_lines = [Is_waiting 0, Is_producing 0, Signals 0]\<rparr>"

lemma cond_main_demo: "cond_main (\<lambda>i. True) = Inr cond_demo"
  by (simp add: cond_main_def cond_demo_def)

lemma cond_demo2_reachable: "cond_step\<^sup>*\<^sup>* cond_demo cond_demo2"
proof -
  let ?a = "consume_section 0 cond_demo"
  have a: "?a = \<lparr>total = 0, consumers = [Waiting, At_lock], producers = 1, log_lines = [Is_waiting 0]\<rparr>"
    by (simp add: consume_section_def cond_demo_def)
  have "cond_step cond_demo ?a" by (rule cond_step.consume_lock) (simp_all add: cond_demo_def)
  moreover have "cond_step ?a cond_demo2"
  proof (rule cond_step.produce_lock [of 0])
    let ?b = "\<lparr>total = 1, consumers = [Waiting, At_lock], producers = 1, log_lines = [Is_waiting 0, Is_producing 0, Signals 0]\<rparr>"
    show "0 < producers ?a" by (simp add: a)
    show "produce_section 0 ?a = Inr ?b" by (simp add: a produce_section_def)
    show "cond_signal ?b cond_demo2" using cond_signal.wake_one [of 0 ?b] by (simp add: cond_demo2_def)
  qed
  ultimately show ?thesis by (meson r_into_rtranclp rtranclp_trans)
qed

theorem total_counts_products_witness: "total cond_demo2 = int (made cond_demo2) - int (used cond_demo2)"
  using total_counts_products [OF cond_main_demo cond_demo2_reachable] by simp

theorem product_keeps_consumer_awake_witness:
  "\<exists>i<length (consumers cond_demo2). consumers cond_demo2 ! i \<noteq> Waiting \<and> cond_step cond_demo2 (consume_section i cond_demo2)"
  by (rule product_keeps_consumer_awake [OF cond_main_demo cond_demo2_reachable]) (simp add: cond_demo2_def)

end
