(* ===== verification/Ftoi.thy ===== *)
theory Ftoi
  imports Prelude Complex_Main "HOL-Library.Word"
begin

unbundle bit_operations_syntax

text \<open>
  \<open>computer_system/ftoi.cpp\<close>: the conversions between \<open>int\<close> and \<open>float\<close>, done on the bits.

  \<^item> An \<open>int\<close> and the bits of a \<open>float\<close> are 32-bit words; the union \<open>type\<close> is the identity on them.
    \<open>float_less_0\<close> is the comparison \<open>x < 0\<close> of the language, which is false for a zero of either sign
    and for a NaN; \<open>-x\<close> flips the sign bit.
  \<^item> \<open>count_loop\<close> is the loop that looks for the leading one; its first argument is \<open>32 - count\<close>.
  \<^item> \<open>-x\<close> of the smallest \<open>int\<close> overflows, and a shift by a negative count is undefined: both are faults.
  \<^item> \<open>float_value\<close> is the number that a word encodes in IEEE single precision.
\<close>

fun count_loop :: "nat \<Rightarrow> 32 word \<Rightarrow> nat" where
  "count_loop 0 tmp = 0"
| "count_loop (Suc n) tmp =
     (if 0x80000000 AND tmp = 0 then Suc (count_loop n (push_bit 1 tmp)) else 0)"

definition itof :: "32 word \<Rightarrow> 32 word result" where
  "itof x0 =
     (let sign = (if sint x0 < 0 then 1 else 0) in
      if sint x0 = - (2 ^ 31) then Inl IntOverflow
      else
        let x = (if sint x0 < 0 then - x0 else x0);
            count = 31 - int (count_loop 32 x);
            e = (if count = -1 then 0 else word_of_int (count + 127))
        in if 23 < count
           then Inr (push_bit 31 sign OR push_bit 23 e OR
                  (signed_drop_bit (nat (count - 23)) x AND (push_bit 23 1 - 1)))
           else Inr (push_bit 31 sign OR push_bit 23 e OR
                  (push_bit (nat (23 - count)) x AND (push_bit 23 1 - 1))))"

definition float_less_0 :: "32 word \<Rightarrow> bool" where
  "float_less_0 f = (bit f 31 \<and> 0 < unat (take_bit 31 f) \<and> unat (take_bit 31 f) \<le> 0x7F800000)"

definition ftoi :: "32 word \<Rightarrow> 32 word result" where
  "ftoi f =
     (let sign = float_less_0 f;
          tmp = (if sign then f XOR push_bit 31 1 else f);
          e = signed_drop_bit 23 tmp AND (push_bit 8 1 - 1)
      in if e = 0 then Inr 0
         else let e = sint e - 127 in
           if e < 0 then Inr 0
           else if 23 < e then Inl BadShift
           else let res = (signed_drop_bit (nat (23 - e)) tmp AND (push_bit (nat e) 1 - 1)) OR push_bit (nat e) 1
             in Inr (if sign then - res else res))"

definition exp_of :: "32 word \<Rightarrow> nat" where
  "exp_of f = unat (take_bit 8 (drop_bit 23 f))"

definition man_of :: "32 word \<Rightarrow> nat" where
  "man_of f = unat (take_bit 23 f)"

definition float_value :: "32 word \<Rightarrow> real" where
  "float_value f =
     (if bit f 31 then -1 else 1) *
     (if exp_of f = 0 then real (man_of f) / 2 ^ 149
      else if 150 \<le> exp_of f then (2 ^ 23 + real (man_of f)) * 2 ^ (exp_of f - 150)
      else (2 ^ 23 + real (man_of f)) / 2 ^ (150 - exp_of f))"

subsection \<open>The leading one\<close>

lemma top_bit: "0x80000000 AND (w :: 32 word) = 0 \<longleftrightarrow> unat w < 2 ^ 31"
proof -
  have "w AND 2 ^ 31 = 0 \<longleftrightarrow> \<not> bit w 31" by (rule and_exp_eq_0_iff_not_bit)
  moreover have "(2 :: 32 word) ^ 31 = 0x80000000" by simp
  ultimately have "0x80000000 AND w = 0 \<longleftrightarrow> \<not> bit w 31" by (simp only: and.commute)
  also have "bit w 31 \<longleftrightarrow> bit (unat w) 31" by (simp add: bit_unsigned_iff)
  also have "\<dots> \<longleftrightarrow> odd (unat w div 2 ^ 31)" by (rule bit_iff_odd)
  also have "unat w < 2 ^ 32" using unsigned_less [of w] by simp
  then have "unat w div 2 ^ 31 \<in> {0, 1}" by auto
  then have "odd (unat w div 2 ^ 31) \<longleftrightarrow> \<not> unat w < 2 ^ 31" by (auto simp: div_eq_0_iff)
  finally show ?thesis by simp
qed

lemma count_loop_leading:
  "j < k \<Longrightarrow> 2 ^ (31 - j) \<le> unat w \<Longrightarrow> unat w < 2 ^ (32 - j) \<Longrightarrow> j \<le> 31 \<Longrightarrow> count_loop k w = j"
proof (induction j arbitrary: k w)
  case 0
  then show ?case by (cases k) (simp_all add: top_bit)
next
  case (Suc j)
  obtain l where k: "k = Suc l" using Suc.prems(1) by (cases k) auto
  have e: "32 - Suc j = 31 - j" "31 - j = Suc (31 - Suc j)" "32 - j = Suc (31 - j)" using Suc.prems(4) by auto
  have "(2::nat) ^ (31 - j) \<le> 2 ^ 31" by (intro power_increasing) auto
  moreover have "unat w < 2 ^ (31 - j)" using Suc.prems(3) e(1) by simp
  ultimately have lt: "unat w < 2 ^ 31" by (rule less_le_trans [rotated])
  then have s: "unat (w * 2) = 2 * unat w" by (simp add: unat_word_ariths)
  have "count_loop l (push_bit 1 w) = j"
    using Suc.prems e k by (intro Suc.IH) (auto simp: s)
  then show ?case using lt by (simp add: k top_bit)
qed

lemma leading_one:
  assumes "0 < (a :: nat)"
  obtains n where "2 ^ n \<le> a" "a < 2 ^ Suc n"
  using assms ex_power_ivl1 [of 2 a] by auto

lemma count_loop_word:
  assumes "2 ^ n \<le> unat w" "unat w < 2 ^ Suc n" "n \<le> 31"
  shows "count_loop 32 w = 31 - n"
  using assms by (intro count_loop_leading) (auto simp: Suc_diff_le)

lemma count_loop_0: "count_loop k 0 = k"
  by (induction k) simp_all

subsection \<open>Fields\<close>

definition pack :: "32 word \<Rightarrow> 32 word \<Rightarrow> 32 word \<Rightarrow> 32 word" where
  "pack s e m = push_bit 31 s OR push_bit 23 e OR m"

lemma pack_fields:
  assumes "s = 0 \<or> s = 1" "take_bit 8 e = e" "take_bit 23 m = m"
  shows "bit (pack s e m) 31 \<longleftrightarrow> s = 1" "exp_of (pack s e m) = unat e" "man_of (pack s e m) = unat m"
    "take_bit 31 (pack s e m) = pack 0 e m"
proof -
  have e: "bit e n \<longleftrightarrow> n < 8 \<and> bit e n" for n by (metis assms(2) bit_take_bit_iff)
  have m: "bit m n \<longleftrightarrow> n < 23 \<and> bit m n" for n by (metis assms(3) bit_take_bit_iff)
  show "bit (pack s e m) 31 \<longleftrightarrow> s = 1"
    using assms(1) e [of 8] m [of 31] by (auto simp: pack_def bit_simps)
  have "take_bit 8 (drop_bit 23 (pack s e m)) = e"
  proof (rule bit_word_eqI)
    fix n
    show "bit (take_bit 8 (drop_bit 23 (pack s e m))) n = bit e n"
      using e [of n] m [of "23 + n"] assms(1) by (auto simp: pack_def bit_simps)
  qed
  then show "exp_of (pack s e m) = unat e" by (simp add: exp_of_def)
  have "take_bit 23 (pack s e m) = m"
  proof (rule bit_word_eqI)
    fix n
    show "bit (take_bit 23 (pack s e m)) n = bit m n"
      using m [of n] assms(1) by (auto simp: pack_def bit_simps)
  qed
  then show "man_of (pack s e m) = unat m" by (simp add: man_of_def)
  show "take_bit 31 (pack s e m) = pack 0 e m"
  proof (rule bit_word_eqI)
    fix n
    show "bit (take_bit 31 (pack s e m)) n = bit (pack 0 e m) n"
      using e [of "n - 23"] m [of n] assms(1) by (auto simp: pack_def bit_simps)
  qed
qed

subsection \<open>The conversions in terms of the fields\<close>

lemma ones: "push_bit n 1 - 1 = (mask n :: 32 word)"
  by (simp add: mask_eq_exp_minus_1)

lemma signed_drop_bit_positive: "\<not> bit w 31 \<Longrightarrow> signed_drop_bit n w = drop_bit n (w :: 32 word)"
proof (rule bit_word_eqI)
  fix k assume "\<not> bit w 31" "k < LENGTH(32)"
  then show "bit (signed_drop_bit n w) k = bit (drop_bit n w) k"
    by (auto simp: bit_signed_drop_bit_iff bit_drop_bit_eq dest: bit_imp_le_length)
qed

definition magnitude :: "32 word \<Rightarrow> 32 word" where
  "magnitude x = (if sint x < 0 then - x else x)"

definition mantissa :: "nat \<Rightarrow> 32 word \<Rightarrow> 32 word" where
  "mantissa n w = take_bit 23 (if 23 < n then drop_bit (n - 23) w else push_bit (23 - n) w)"

lemma magnitude_unat:
  assumes "sint x \<noteq> - (2 ^ 31)"
  shows "int (unat (magnitude x)) = \<bar>sint x\<bar>" "unat (magnitude x) < 2 ^ 31"
proof -
  have r: "- (2 ^ 31) \<le> sint x" "sint x < 2 ^ 31" using sint_range_size [of x] by (simp_all add: word_size)
  have "magnitude x = word_of_int \<bar>sint x\<bar>" by (simp add: magnitude_def)
  then have "uint (magnitude x) = \<bar>sint x\<bar> mod 2 ^ 32" by (simp add: uint_word_of_int)
  also have "\<dots> = \<bar>sint x\<bar>" using r by simp
  finally show "int (unat (magnitude x)) = \<bar>sint x\<bar>" by simp
  moreover have "\<bar>sint x\<bar> < 2 ^ 31" using r assms by (simp add: abs_less_iff)
  ultimately have "int (unat (magnitude x)) < int (2 ^ 31)" by simp
  then show "unat (magnitude x) < 2 ^ 31" by (simp only: of_nat_less_iff)
qed

lemma not_bit_31: "unat (w :: 32 word) < 2 ^ 31 \<Longrightarrow> \<not> bit w 31"
  using top_bit [of w] and_exp_eq_0_iff_not_bit [of w 31] by (simp add: and.commute)

lemma itof_pack:
  assumes x: "sint x \<noteq> - (2 ^ 31)" and n: "2 ^ n \<le> unat (magnitude x)" "unat (magnitude x) < 2 ^ Suc n"
  shows "itof x = Inr (pack (if sint x < 0 then 1 else 0) (word_of_nat (n + 127)) (mantissa n (magnitude x)))" "n \<le> 30"
proof -
  have "(2::nat) ^ n < 2 ^ 31" using n(1) magnitude_unat(2) [OF x] by linarith
  then show n30: "n \<le> 30" using power_less_imp_less_exp [of "2::nat" n 31] by simp
  have "count_loop 32 (magnitude x) = 31 - n" using n n30 by (intro count_loop_word) auto
  then have c: "31 - int (count_loop 32 (magnitude x)) = int n" using n30 by simp
  have e: "word_of_int (int n + 127) = (word_of_nat (n + 127) :: 32 word)" by simp
  have b: "\<not> bit (magnitude x) 31" by (rule not_bit_31 [OF magnitude_unat(2) [OF x]])
  have d: "nat (int n - 23) = n - 23" "nat (23 - int n) = 23 - n" by simp_all
  show "itof x = Inr (pack (if sint x < 0 then 1 else 0) (word_of_nat (n + 127)) (mantissa n (magnitude x)))"
    unfolding itof_def magnitude_def [symmetric] Let_def c
    using x e b mask_eq_exp_minus_1 [of 23, where 'a = "32 word"]
    by (simp add: pack_def mantissa_def ones take_bit_eq_mask signed_drop_bit_positive d)
qed

lemma mod_minus: "(b::nat) \<le> a \<Longrightarrow> a < 2 * b \<Longrightarrow> a mod b = a - b"
  by (simp add: le_mod_geq)

lemma mantissa_unat:
  assumes n: "2 ^ n \<le> unat w" "unat w < 2 ^ Suc n" "n \<le> 30"
  shows "2 ^ 23 + unat (mantissa n w) = (if 23 < n then unat w div 2 ^ (n - 23) else unat w * 2 ^ (23 - n))"
proof (cases "23 < n")
  case True
  have p: "(2::nat) ^ n = 2 ^ 23 * 2 ^ (n - 23)" using True power_add [of "2::nat" 23 "n - 23"] by simp
  have "2 ^ 23 \<le> unat w div 2 ^ (n - 23)" using n(1) p by (simp add: less_eq_div_iff_mult_less_eq)
  moreover have "unat w div 2 ^ (n - 23) < 2 ^ 24" using n(2) p by (simp add: div_less_iff_less_mult)
  ultimately have "(unat w div 2 ^ (n - 23)) mod 2 ^ 23 = unat w div 2 ^ (n - 23) - 2 ^ 23"
    by (intro mod_minus) simp_all
  moreover have "unat (mantissa n w) = take_bit 23 (drop_bit (n - 23) (unat w))"
    using True by (simp add: mantissa_def unsigned_take_bit_eq unat_drop_bit_eq)
  then have "unat (mantissa n w) = unat w div 2 ^ (n - 23) mod 2 ^ 23"
    by (simp only: take_bit_eq_mod drop_bit_eq_div)
  ultimately show ?thesis using True \<open>2 ^ 23 \<le> unat w div 2 ^ (n - 23)\<close> by simp
next
  case False
  have p: "(2::nat) ^ 23 = 2 ^ n * 2 ^ (23 - n)" using False power_add [of "2::nat" n "23 - n"] by simp
  have lo: "2 ^ 23 \<le> unat w * 2 ^ (23 - n)" unfolding p by (rule mult_le_mono1 [OF n(1)])
  have "unat w * 2 ^ (23 - n) < 2 ^ Suc n * 2 ^ (23 - n)" by (rule mult_less_mono1 [OF n(2)]) simp
  also have "\<dots> = 2 * 2 ^ 23" unfolding p by simp
  finally have hi: "unat w * 2 ^ (23 - n) < 2 ^ 24" by simp
  have "unat (push_bit (23 - n) w) = take_bit LENGTH(32) (push_bit (23 - n) (unat w))"
    by (rule unsigned_push_bit_eq)
  then have "unat (push_bit (23 - n) w) = unat w * 2 ^ (23 - n)"
    using hi by (simp add: push_bit_eq_mult [of _ "unat w"] take_bit_eq_mod)
  moreover have "unat (mantissa n w) = take_bit 23 (unat (push_bit (23 - n) w))"
    using False by (simp add: mantissa_def unsigned_take_bit_eq)
  ultimately have "unat (mantissa n w) = (unat w * 2 ^ (23 - n)) mod 2 ^ 23"
    by (simp only: take_bit_eq_mod)
  also have "\<dots> = unat w * 2 ^ (23 - n) - 2 ^ 23" using lo hi by (intro mod_minus) simp_all
  finally show ?thesis using lo False by simp
qed

lemma biased_exponent:
  assumes "n \<le> 30"
  shows "unat (word_of_nat (n + 127) :: 32 word) = n + 127" "take_bit 8 (word_of_nat (n + 127)) = (word_of_nat (n + 127) :: 32 word)"
proof -
  show u: "unat (word_of_nat (n + 127) :: 32 word) = n + 127"
    using assms by (simp add: unat_of_nat del: of_nat_add)
  have "unat (take_bit 8 (word_of_nat (n + 127)) :: 32 word) = unat (word_of_nat (n + 127) :: 32 word)"
    unfolding unsigned_take_bit_eq u using assms by (simp add: take_bit_eq_mod)
  then show "take_bit 8 (word_of_nat (n + 127)) = (word_of_nat (n + 127) :: 32 word)" by (simp only: word_unat_eq_iff)
qed

lemma mantissa_fits: "take_bit 23 (mantissa n w) = mantissa n w"
  by (simp add: mantissa_def)

lemma float_value_itof:
  assumes x: "sint x \<noteq> - (2 ^ 31)" and n: "2 ^ n \<le> unat (magnitude x)" "unat (magnitude x) < 2 ^ Suc n" "n \<le> 30"
  shows "float_value (pack (if sint x < 0 then 1 else 0) (word_of_nat (n + 127)) (mantissa n (magnitude x))) =
    of_int (sgn (sint x) * (\<bar>sint x\<bar> div 2 ^ (n - 23) * 2 ^ (n - 23)))"
proof -
  let ?f = "pack (if sint x < 0 then 1 else 0) (word_of_nat (n + 127)) (mantissa n (magnitude x))"
  let ?a = "unat (magnitude x)"
  have sg: "(if sint x < 0 then 1 else 0) = (0 :: 32 word) \<or> (if sint x < 0 then 1 else 0) = (1 :: 32 word)" by simp
  note F = pack_fields [OF sg biased_exponent(2) [OF n(3)] mantissa_fits]
  have f: "exp_of ?f = n + 127" "man_of ?f = unat (mantissa n (magnitude x))"
    by (simp_all only: F biased_exponent(1) [OF n(3)])
  have f3: "bit ?f 31 = (sint x < 0)" unfolding F(1) by simp
  have m: "2 ^ 23 + real (man_of ?f) = real (if 23 < n then ?a div 2 ^ (n - 23) else ?a * 2 ^ (23 - n))"
    unfolding f(2) mantissa_unat [OF n, symmetric] by simp
  have a: "int ?a = \<bar>sint x\<bar>" by (rule magnitude_unat(1) [OF x])
  have "0 < ?a" using n(1) by (metis less_le_trans zero_less_numeral zero_less_power)
  then have "sint x \<noteq> 0" using a by (metis abs_zero less_irrefl of_nat_0_less_iff)
  then have s: "of_int (sgn (sint x)) = (if sint x < 0 then -1 else 1 :: real)" by (simp add: sgn_if)
  have d: "real (?a div 2 ^ k * 2 ^ k) = of_int (\<bar>sint x\<bar> div 2 ^ k * 2 ^ k)" for k
  proof -
    have "int (?a div 2 ^ k * 2 ^ k) = \<bar>sint x\<bar> div 2 ^ k * 2 ^ k"
      unfolding a [symmetric] by (simp only: of_nat_mult of_nat_div of_nat_power of_nat_numeral)
    then show ?thesis by (metis of_int_of_nat_eq)
  qed
  have "float_value ?f = (if sint x < 0 then -1 else 1) * real (?a div 2 ^ (n - 23) * 2 ^ (n - 23))"
  proof (cases "23 < n")
    case True
    then show ?thesis unfolding float_value_def f(1) f3 m by simp
  next
    case False
    have "float_value ?f = (if sint x < 0 then -1 else 1) * real ?a"
    proof (cases "n = 23")
      case True
      then show ?thesis unfolding float_value_def f(1) f3 m by simp
    next
      case False
      then have "150 - (n + 127) = 23 - n" "\<not> 150 \<le> n + 127" using \<open>\<not> 23 < n\<close> by auto
      then show ?thesis unfolding float_value_def f(1) f3 m using \<open>\<not> 23 < n\<close> by simp
    qed
    then show ?thesis using False by simp
  qed
  then show ?thesis unfolding d by (simp add: s)
qed

lemma itof_0: "itof 0 = Inr 0"
  by (simp add: itof_def count_loop_0)

lemma float_value_0: "float_value 0 = 0"
  by (simp add: float_value_def exp_of_def man_of_def)

lemma clear_sign:
  assumes "take_bit 8 e = e" "take_bit 23 m = m"
  shows "pack 1 e m XOR push_bit 31 1 = pack 0 e m"
proof (rule bit_word_eqI)
  fix n :: nat assume n: "n < LENGTH(32)"
  have e: "bit e k \<longleftrightarrow> k < 8 \<and> bit e k" for k by (metis assms(1) bit_take_bit_iff)
  have m: "bit m k \<longleftrightarrow> k < 23 \<and> bit m k" for k by (metis assms(2) bit_take_bit_iff)
  have s: "bit (2147483648 :: 32 word) n \<longleftrightarrow> n = 31" using n bit_exp_iff [of 31 n, where 'a = "32 word"] by simp
  show "bit (pack 1 e m XOR push_bit 31 1) n = bit (pack 0 e m) n"
    using e [of "n - 23"] m [of n] s by (auto simp: pack_def bit_simps)
qed

text \<open>What \<open>ftoi\<close> does with a word that has been put together from a small exponent and a mantissa.\<close>

lemma ftoi_pack:
  assumes "n \<le> 30" "take_bit 23 m = m" "s = 0 \<or> s = 1"
  shows "ftoi (pack s (word_of_nat (n + 127)) m) =
    (if 23 < n then Inl BadShift
     else let res = take_bit n (drop_bit (23 - n) m) OR push_bit n 1 in Inr (if s = 1 then - res else res))"
proof -
  let ?e = "word_of_nat (n + 127) :: 32 word"
  let ?f = "pack s ?e m"
  note be = biased_exponent [OF assms(1)]
  note F = pack_fields [OF assms(3) be(2) assms(2)] and F0 = pack_fields [OF disjI1 [OF refl] be(2) assms(2)]
  have nb: "\<not> bit (pack 0 ?e m) 31" using F0(1) by simp
  have ex: "take_bit 8 (drop_bit 23 (pack 0 ?e m)) = ?e"
    using F0(2) be(1) by (simp only: exp_of_def word_unat_eq_iff)
  have lt: "unat (pack 0 ?e m) < 2 ^ 31" using top_bit [of "pack 0 ?e m"] nb and_exp_eq_0_iff_not_bit [of "pack 0 ?e m" 31]
    by (simp add: and.commute)
  have "unat (pack 0 ?e m) div 2 ^ 23 = n + 127"
  proof -
    have "unat (pack 0 ?e m) div 2 ^ 23 < 2 ^ 8" using lt by (simp add: div_less_iff_less_mult)
    then have "unat (pack 0 ?e m) div 2 ^ 23 = take_bit 8 (drop_bit 23 (unat (pack 0 ?e m)))"
      by (simp add: take_bit_eq_mod drop_bit_eq_div)
    also have "\<dots> = unat (take_bit 8 (drop_bit 23 (pack 0 ?e m)))" by (simp add: unsigned_take_bit_eq unat_drop_bit_eq)
    finally show ?thesis unfolding ex be(1) .
  qed
  then have "0 < unat (pack 0 ?e m)" "unat (pack 0 ?e m) < 255 * 2 ^ 23"
    using assms(1) by (auto simp: div_eq_0_iff intro: ccontr)
  then have neg: "float_less_0 ?f \<longleftrightarrow> s = 1" unfolding float_less_0_def F by simp
  have tmp: "(if s = 1 then ?f XOR push_bit 31 1 else ?f) = pack 0 ?e m"
    using assms(3) F(1) clear_sign [OF be(2) assms(2)] by auto
  have ee: "signed_drop_bit 23 (pack 0 ?e m) AND (push_bit 8 1 - 1) = ?e"
    by (simp only: ones signed_drop_bit_positive [OF nb] take_bit_eq_mask [symmetric] ex)
  have ne: "?e \<noteq> 0" using be(1) by (metis add_is_0 unat_0 zero_neq_numeral)
  have "uint ?e = int n + 127" using be(1) by (simp only: uint_nat)
  moreover have "signed_take_bit 31 (int n + 127) = int n + 127"
    using assms(1) by (intro signed_take_bit_int_eq_self) auto
  ultimately have se: "sint ?e - 127 = int n" by (simp only: sint_uint) simp
  have r: "signed_drop_bit (23 - n) (pack 0 ?e m) AND (push_bit n 1 - 1) = take_bit n (drop_bit (23 - n) m)" if "n \<le> 23"
    unfolding ones signed_drop_bit_positive [OF nb] take_bit_eq_mask [symmetric]
    using that by (intro bit_word_eqI) (auto simp: pack_def bit_simps)
  have d: "nat (23 - int n) = 23 - n" by simp
  show ?thesis
    unfolding ftoi_def neg Let_def tmp ee se using ne r d by (simp add: Let_def)
qed

lemma leading_one_back:
  assumes "2 ^ n \<le> unat w" "unat w < 2 ^ Suc n" "n \<le> 23"
  shows "take_bit n (drop_bit (23 - n) (mantissa n w)) OR push_bit n 1 = w"
proof (rule bit_word_eqI)
  fix k assume k: "k < LENGTH(32)"
  have "bit w j \<longleftrightarrow> bit (unat w) j" for j by (simp add: bit_unsigned_iff)
  then have b: "bit w j \<longleftrightarrow> odd (unat w div 2 ^ j)" for j by (simp only: bit_iff_odd)
  have top: "bit w n"
  proof -
    have "unat w div 2 ^ n = 1" using assms(1,2) by (intro div_nat_eqI) auto
    then show ?thesis by (simp add: b)
  qed
  have above: "\<not> bit w j" if "n < j" for j
  proof -
    have "(2::nat) ^ Suc n \<le> 2 ^ j" using that by (intro power_increasing) auto
    then have "unat w div 2 ^ j = 0" using assms(2) by (simp add: div_eq_0_iff)
    then show ?thesis by (simp add: b)
  qed
  consider "k < n" | "k = n" | "n < k" by linarith
  then show "bit (take_bit n (drop_bit (23 - n) (mantissa n w)) OR push_bit n 1) k = bit w k"
    using assms(3) k top above by cases (auto simp: mantissa_def bit_simps)
qed

lemma magnitude_leading:
  assumes "sint x \<noteq> - (2 ^ 31)" "x \<noteq> 0"
  obtains n where "2 ^ n \<le> unat (magnitude x)" "unat (magnitude x) < 2 ^ Suc n"
    "2 ^ n \<le> \<bar>sint x\<bar>" "\<bar>sint x\<bar> < 2 ^ Suc n"
proof -
  have a: "int (unat (magnitude x)) = \<bar>sint x\<bar>" by (rule magnitude_unat(1) [OF assms(1)])
  have "sint x \<noteq> 0"
  proof
    assume "sint x = 0"
    then have "word_of_int (sint x) = (0 :: 32 word)" by simp
    then show False using assms(2) by simp
  qed
  then have "0 < unat (magnitude x)" using a by linarith
  then obtain n where n: "2 ^ n \<le> unat (magnitude x)" "unat (magnitude x) < 2 ^ Suc n" by (rule leading_one)
  moreover have "2 ^ n \<le> \<bar>sint x\<bar>" "\<bar>sint x\<bar> < 2 ^ Suc n"
    using n unfolding a [symmetric] by (metis of_nat_le_iff of_nat_numeral of_nat_power, metis of_nat_less_iff of_nat_numeral of_nat_power)
  ultimately show thesis using that n by blast
qed

text \<open>\<open>itof\<close> is exact below \<open>2 ^ 24\<close> and truncates towards zero above: for every \<open>int\<close> but the smallest
  one the result is a float whose value is the argument with its lowest \<open>k\<close> bits cleared, where \<open>k\<close> is 0 for
  magnitudes below \<open>2 ^ 24\<close> and otherwise the number of bits that do not fit.\<close>

theorem itof_truncates:
  assumes "sint x \<noteq> - (2 ^ 31)"
  shows "\<exists>f k. itof x = Inr f \<and> float_value f = of_int (sgn (sint x) * (\<bar>sint x\<bar> div 2 ^ k * 2 ^ k)) \<and>
    (\<bar>sint x\<bar> < 2 ^ 24 \<longrightarrow> k = 0) \<and> (0 < k \<longrightarrow> \<bar>sint x\<bar> < 2 ^ (24 + k))"
proof (cases "x = 0")
  case True
  then show ?thesis using itof_0 float_value_0 by (intro exI [of _ 0] exI [of _ "0::nat"]) simp
next
  case False
  obtain n where n: "2 ^ n \<le> unat (magnitude x)" "unat (magnitude x) < 2 ^ Suc n"
    and n': "2 ^ n \<le> \<bar>sint x\<bar>" "\<bar>sint x\<bar> < 2 ^ Suc n"
    by (rule magnitude_leading [OF assms False])
  note P = itof_pack [OF assms n]
  have "n - 23 = 0" if "\<bar>sint x\<bar> < 2 ^ 24"
    using power_less_imp_less_exp [of "2::int" n 24] le_less_trans [OF n'(1) that] by simp
  moreover have "\<bar>sint x\<bar> < 2 ^ (24 + (n - 23))" if "0 < n - 23"
  proof -
    have "24 + (n - 23) = Suc n" using that by simp
    then show ?thesis using n'(2) by (simp only:)
  qed
  ultimately show ?thesis
    by (intro exI conjI impI) (rule P(1), rule float_value_itof [OF assms n P(2)], assumption+)
qed

theorem itof_truncates_witness: "\<exists>f. itof 16777217 = Inr f \<and> float_value f \<le> 16777217"
proof -
  have s: "sint (16777217 :: 32 word) = 16777217" by simp
  obtain f k where "itof 16777217 = Inr f" "float_value f = of_int (sgn 16777217 * (\<bar>16777217\<bar> div 2 ^ k * 2 ^ k))"
    using itof_truncates [of 16777217] unfolding s by auto
  moreover have "(16777217 :: int) div 2 ^ k * 2 ^ k \<le> 16777217" by (simp add: minus_mod_eq_div_mult [symmetric])
  then have "(of_int (16777217 div 2 ^ k * 2 ^ k) :: real) \<le> of_int 16777217" by (simp only: of_int_le_iff)
  ultimately show ?thesis by auto
qed

text \<open>C37: round trip: \<open>ftoi\<close> takes back what \<open>itof\<close> made of an \<open>int\<close> of magnitude below \<open>2 ^ 24\<close>; above, up to
  the largest \<open>int\<close>, \<open>ftoi\<close> shifts by a negative count, which is undefined.\<close>

theorem ftoi_itof:
  assumes "sint x \<noteq> - (2 ^ 31)"
  shows "bnd (itof x) ftoi = (if \<bar>sint x\<bar> < 2 ^ 24 then Inr x else Inl BadShift)"
proof (cases "x = 0")
  case True
  then show ?thesis by (simp add: itof_0 ftoi_def float_less_0_def)
next
  case False
  obtain n where n: "2 ^ n \<le> unat (magnitude x)" "unat (magnitude x) < 2 ^ Suc n"
    and n': "2 ^ n \<le> \<bar>sint x\<bar>" "\<bar>sint x\<bar> < 2 ^ Suc n"
    by (rule magnitude_leading [OF assms False])
  note P = itof_pack [OF assms n]
  have "\<bar>sint x\<bar> < 2 ^ 24 \<longleftrightarrow> \<not> 23 < n"
  proof
    assume "\<bar>sint x\<bar> < 2 ^ 24"
    then show "\<not> 23 < n" using power_less_imp_less_exp [of "2::int" n 24] le_less_trans [OF n'(1)] by simp
  next
    assume "\<not> 23 < n"
    then have "(2::int) ^ Suc n \<le> 2 ^ 24" by (intro power_increasing) auto
    then show "\<bar>sint x\<bar> < 2 ^ 24" using n'(2) by linarith
  qed
  moreover have "bnd (itof x) ftoi = (if 23 < n then Inl BadShift else Inr x)"
    using ftoi_pack [OF P(2) mantissa_fits, of "if sint x < 0 then 1 else 0"] leading_one_back [OF n] P(1)
    by (simp add: magnitude_def Let_def)
  ultimately show ?thesis by simp
qed

theorem ftoi_itof_witness: "bnd (itof 12345) ftoi = Inr 12345 \<and> bnd (itof 16777216) ftoi = Inl BadShift"
  using ftoi_itof [of 12345] ftoi_itof [of 16777216] by simp

end
