(* ===== verification/Reactor.thy ===== *)
theory Reactor
  imports Prelude "HOL-Library.Word"
begin

unbundle bit_operations_syntax

text \<open>
  \<open>network/socket/codes/epoll-reactor/epoll.c\<close>: an echo server as a reactor: a table of events with
  callbacks, kept in step with the interest list of an \<open>epoll\<close> instance.

  \<^item> \<open>myevent_s\<close> is the structure of that name and \<open>g_events\<close> the table; a pointer into the table is an index.
    \<open>interest\<close> (descriptor to pointer and events), \<open>opened\<close> and \<open>wire\<close> (what was sent) are the kernel's part.
  \<^item> The results of the system calls are inputs: \<open>io\<close> says what \<open>accept\<close>, \<open>fcntl\<close>, \<open>recv\<close>, \<open>send\<close> and \<open>time\<close>
    return when a callback runs. \<open>accept\<close> opens the lowest unused descriptor, \<open>close\<close> drops a descriptor from
    the interest list; \<open>epoll_ctl\<close> fails, without effect, as documented: \<open>add_ok\<close> and \<open>del_ok\<close> say whether the kernel has
    the memory for it. \<open>eventadd\<close> marks an entry before it tries, and the mark stays when the call fails.
  \<^item> \<open>sweep\<close> is the search for timed-out clients, \<open>dispatch\<close> the loop over the events that \<open>epoll_wait\<close> has
    returned; \<open>reactor_step\<close> is one round of the main loop.
\<close>

definition MAX_EVENTS :: nat where
  "MAX_EVENTS = 1024"

definition BUFLEN :: nat where
  "BUFLEN = 128"

definition EPOLLIN :: "32 word" where
  "EPOLLIN = 1"

definition EPOLLOUT :: "32 word" where
  "EPOLLOUT = 4"

datatype handler = No_handler | Acceptconn | Recvdata | Senddata

record myevent_s =
  fd :: nat
  events :: "32 word"
  arg :: nat
  call_back :: handler
  status :: int
  buf :: "8 word list"
  len :: int
  last_active :: int

record reactor =
  g_events :: "myevent_s list"
  interest :: "nat \<rightharpoonup> nat \<times> 32 word"
  opened :: "nat list"
  wire :: "(nat \<times> 8 word list) list"

datatype recv_result = Got "8 word list" | Peer_closed | Recv_error

record io =
  accepts_one :: bool
  fcntl_ok :: bool
  received :: recv_result
  sends :: int
  now :: int
  del_ok :: bool
  add_ok :: bool

subsection \<open>System calls\<close>

definition lowest_fd :: "reactor \<Rightarrow> nat" where
  "lowest_fd r = lowest_unused (opened r)"

definition epoll_add :: "bool \<Rightarrow> nat \<Rightarrow> nat \<Rightarrow> 32 word \<Rightarrow> reactor \<Rightarrow> reactor" where
  "epoll_add ok f ptr evs r =
     (if ok \<and> f \<in> set (opened r) \<and> interest r f = None then r\<lparr>interest := (interest r)(f \<mapsto> (ptr, evs))\<rparr> else r)"

definition epoll_mod :: "bool \<Rightarrow> nat \<Rightarrow> nat \<Rightarrow> 32 word \<Rightarrow> reactor \<Rightarrow> reactor" where
  "epoll_mod ok f ptr evs r =
     (if ok \<and> interest r f \<noteq> None then r\<lparr>interest := (interest r)(f \<mapsto> (ptr, evs))\<rparr> else r)"

definition epoll_del :: "bool \<Rightarrow> nat \<Rightarrow> reactor \<Rightarrow> reactor" where
  "epoll_del ok f r = (if ok then r\<lparr>interest := (interest r)(f := None)\<rparr> else r)"

definition sys_close :: "nat \<Rightarrow> reactor \<Rightarrow> reactor" where
  "sys_close f r = r\<lparr>interest := (interest r)(f := None), opened := filter (\<lambda>n. n \<noteq> f) (opened r)\<rparr>"

subsection \<open>The events\<close>

definition upd_event :: "nat \<Rightarrow> (myevent_s \<Rightarrow> myevent_s) \<Rightarrow> reactor \<Rightarrow> reactor" where
  "upd_event i g r = r\<lparr>g_events := (g_events r)[i := g (g_events r ! i)]\<rparr>"

definition eventset :: "nat \<Rightarrow> nat \<Rightarrow> handler \<Rightarrow> nat \<Rightarrow> int \<Rightarrow> reactor \<Rightarrow> reactor" where
  "eventset i f cb a t r = upd_event i (\<lambda>e. e\<lparr>fd := f, call_back := cb, events := 0, arg := a, status := 0,
     last_active := t\<rparr>) r"

definition eventadd :: "bool \<Rightarrow> 32 word \<Rightarrow> nat \<Rightarrow> reactor \<Rightarrow> reactor" where
  "eventadd ok evs i r =
     (let r = upd_event i (\<lambda>e. e\<lparr>events := evs\<rparr>) r; e = g_events r ! i in
      if status e = 1 then epoll_mod ok (fd e) i evs r
      else epoll_add ok (fd e) i evs (upd_event i (\<lambda>e. e\<lparr>status := 1\<rparr>) r))"

definition eventdel :: "bool \<Rightarrow> nat \<Rightarrow> reactor \<Rightarrow> reactor" where
  "eventdel ok i r =
     (let e = g_events r ! i in
      if status e \<noteq> 1 then r else epoll_del ok (fd e) (upd_event i (\<lambda>e. e\<lparr>status := 0\<rparr>) r))"

subsection \<open>The callbacks\<close>

text \<open>The loop that looks for a free entry: the number of the first one, or \<open>MAX_EVENTS\<close>.\<close>

fun find_free :: "myevent_s list \<Rightarrow> nat \<Rightarrow> nat \<Rightarrow> nat" where
  "find_free es i 0 = i"
| "find_free es i (Suc n) = (if status (es ! i) = 0 then i else find_free es (Suc i) n)"

definition acceptconn :: "io \<Rightarrow> reactor \<Rightarrow> reactor" where
  "acceptconn x r =
     (if \<not> accepts_one x then r
      else let cfd = lowest_fd r;
               r = r\<lparr>opened := opened r @ [cfd]\<rparr>;
               i = find_free (g_events r) 0 MAX_EVENTS
        in if i = MAX_EVENTS then r
           else if \<not> fcntl_ok x then r
           else eventadd (add_ok x) EPOLLIN i (eventset i cfd Recvdata i (now x) r))"

definition recvdata :: "nat \<Rightarrow> nat \<Rightarrow> io \<Rightarrow> reactor \<Rightarrow> reactor result" where
  "recvdata f i x r =
     (case received x of
        Got bs0 \<Rightarrow>
          let bs = take BUFLEN bs0;
              r = upd_event i (\<lambda>e. e\<lparr>buf := bs @ drop (length bs) (buf e)\<rparr>) r;
              r = eventdel (del_ok x) i r
          in if bs = [] then Inr (sys_close (fd (g_events r ! i)) r)
             else bnd (aset (buf (g_events r ! i)) (length bs) 0) (\<lambda>b.
               Inr (eventadd (add_ok x) EPOLLOUT i (eventset i f Senddata i (now x)
                 (upd_event i (\<lambda>e. e\<lparr>len := int (length bs), buf := b\<rparr>) r))))
      | Peer_closed \<Rightarrow> let r = eventdel (del_ok x) i r in Inr (sys_close (fd (g_events r ! i)) r)
      | Recv_error \<Rightarrow> let r = eventdel (del_ok x) i r in Inr (sys_close (fd (g_events r ! i)) r))"

text \<open>\<open>send\<close> takes the first \<open>sends x\<close> of the \<open>len\<close> bytes, or fails.\<close>

definition senddata :: "nat \<Rightarrow> nat \<Rightarrow> io \<Rightarrow> reactor \<Rightarrow> reactor" where
  "senddata f i x r =
     (let e = g_events r ! i;
          n = (if sends x < 0 then -1 else min (sends x) (len e));
          r = (if 0 \<le> n then r\<lparr>wire := wire r @ [(f, take (nat n) (buf e))]\<rparr> else r);
          r = eventdel (del_ok x) i r
      in if 0 < n then eventadd (add_ok x) EPOLLIN i (eventset i f Recvdata i (now x) r)
         else sys_close (fd (g_events r ! i)) r)"

definition run_handler :: "nat \<Rightarrow> io \<Rightarrow> reactor \<Rightarrow> reactor result" where
  "run_handler i x r =
     (let e = g_events r ! i in
      case call_back e of
        No_handler \<Rightarrow> Inl OutOfBounds
      | Acceptconn \<Rightarrow> Inr (acceptconn x r)
      | Recvdata \<Rightarrow> recvdata (fd e) (arg e) x r
      | Senddata \<Rightarrow> Inr (senddata (fd e) (arg e) x r))"

subsection \<open>The main loop\<close>

definition initlistensocket :: "bool \<Rightarrow> int \<Rightarrow> reactor \<Rightarrow> reactor" where
  "initlistensocket ok t r =
     (let lfd = lowest_fd r; r = r\<lparr>opened := opened r @ [lfd]\<rparr>
      in eventadd ok EPOLLIN MAX_EVENTS (eventset MAX_EVENTS lfd Acceptconn MAX_EVENTS t r))"

text \<open>One hundred entries are looked at; \<open>t\<close> is the time. The descriptor is closed first, so that \<open>epoll_ctl\<close> fails.\<close>

fun sweep :: "nat \<Rightarrow> nat \<Rightarrow> int \<Rightarrow> reactor \<Rightarrow> nat \<times> reactor" where
  "sweep 0 checkpos t r = (checkpos, r)"
| "sweep (Suc n) checkpos t r =
     (let c = (if checkpos = MAX_EVENTS then 0 else checkpos); e = g_events r ! c in
      if status e \<noteq> 1 then sweep n (Suc c) t r
      else if 60 \<le> t - last_active e then sweep n (Suc c) t (eventdel False c (sys_close (fd e) r))
      else sweep n (Suc c) t r)"

text \<open>An event of \<open>epoll_wait\<close>: the pointer, the events, and the inputs of the callback for each of the two tests.\<close>

type_synonym ready = "nat \<times> 32 word \<times> io \<times> io"

definition dispatch_one :: "ready \<Rightarrow> reactor \<Rightarrow> reactor result" where
  "dispatch_one ev r =
     (case ev of (i, evs, x, y) \<Rightarrow>
        bnd (if evs AND EPOLLIN \<noteq> 0 \<and> events (g_events r ! i) AND EPOLLIN \<noteq> 0 then run_handler i x r else Inr r) (\<lambda>r.
        if evs AND EPOLLOUT \<noteq> 0 \<and> events (g_events r ! i) AND EPOLLOUT \<noteq> 0 then run_handler i y r else Inr r))"

fun dispatch :: "ready list \<Rightarrow> reactor \<Rightarrow> reactor result" where
  "dispatch [] r = Inr r"
| "dispatch (ev # evs) r = bnd (dispatch_one ev r) (dispatch evs)"

definition fresh_event :: myevent_s where
  "fresh_event = \<lparr>fd = 0, events = 0, arg = 0, call_back = No_handler, status = 0, buf = replicate BUFLEN 0,
     len = 0, last_active = 0\<rparr>"

text \<open>Descriptors 0 to 3 are the standard ones and the \<open>epoll\<close> instance.\<close>

definition reactor_start :: "bool \<Rightarrow> int \<Rightarrow> reactor" where
  "reactor_start ok t = initlistensocket ok t
     \<lparr>g_events = replicate (MAX_EVENTS + 1) fresh_event, interest = Map.empty, opened = [0, 1, 2, 3], wire = []\<rparr>"

text \<open>What \<open>epoll_wait\<close> returns: registered pointers, each once, with whatever events (errors and hang-ups are
  reported without being asked for).\<close>

definition batch_ok :: "ready list \<Rightarrow> reactor \<Rightarrow> bool" where
  "batch_ok b r \<longleftrightarrow> distinct (map fst b) \<and>
     (\<forall>(i, evs, x, y)\<in>set b. \<exists>f e. interest r f = Some (i, e))"

text \<open>\<open>sure\<close>: no \<open>epoll_ctl\<close> fails for lack of memory.\<close>

definition batch_sure :: "ready list \<Rightarrow> bool" where
  "batch_sure b \<longleftrightarrow> (\<forall>(i, evs, x, y)\<in>set b. del_ok x \<and> add_ok x \<and> del_ok y \<and> add_ok y)"

inductive reactor_step :: "bool \<Rightarrow> nat \<times> reactor \<Rightarrow> nat \<times> reactor \<Rightarrow> bool" for sure where
  round: "sweep 100 c t r = (c', r1) \<Longrightarrow> batch_ok b r1 \<Longrightarrow> (sure \<longrightarrow> batch_sure b) \<Longrightarrow> dispatch b r1 = Inr r2 \<Longrightarrow>
     reactor_step sure (c, r) (c', r2)"

end
