(* ===== verification/ReactorProps.thy ===== *)
theory ReactorProps
  imports Reactor
begin

text \<open>
  The reactor keeps its table of events in step with the interest list of the kernel (\<open>table_ok\<close>): shown for the
  two moves all callbacks are made of, taking an entry off the list (\<open>eventdel_ok\<close>, \<open>close_ok\<close>) and arming a
  free one (\<open>arm_ok\<close>), then for the callbacks, a round of the main loop and every run of it. From it follow that a
  round only faults on a chunk that fills the buffer, and that what is received is what is sent.
\<close>

subsection \<open>The invariant\<close>

definition mode_ok :: "nat \<Rightarrow> myevent_s \<Rightarrow> bool" where
  "mode_ok i e \<longleftrightarrow>
     (if i = MAX_EVENTS then call_back e = Acceptconn \<and> events e = EPOLLIN
      else call_back e = Recvdata \<and> events e = EPOLLIN \<or>
        call_back e = Senddata \<and> events e = EPOLLOUT \<and> 0 < len e \<and> len e < int BUFLEN)"

definition entry_ok :: "bool \<Rightarrow> (nat \<rightharpoonup> nat \<times> 32 word) \<Rightarrow> nat list \<Rightarrow> nat \<Rightarrow> myevent_s \<Rightarrow> bool" where
  "entry_ok sure m os i e \<longleftrightarrow> length (buf e) = BUFLEN \<and>
     (status e = 0 \<or> status e = 1 \<and> arg e = i \<and> mode_ok i e \<and> fd e \<in> set os \<and>
        (sure \<longrightarrow> m (fd e) = Some (i, events e)))"

definition live :: "reactor \<Rightarrow> nat \<Rightarrow> bool" where
  "live r i \<longleftrightarrow> i < Suc MAX_EVENTS \<and> status (g_events r ! i) = 1"

text \<open>With \<open>sure\<close> no \<open>epoll_ctl\<close> has failed; without, an entry that is marked may be missing in the list.\<close>

definition table_ok :: "bool \<Rightarrow> reactor \<Rightarrow> bool" where
  "table_ok sure r \<longleftrightarrow> length (g_events r) = Suc MAX_EVENTS \<and> status (g_events r ! MAX_EVENTS) = 1 \<and>
     (\<forall>i<Suc MAX_EVENTS. entry_ok sure (interest r) (opened r) i (g_events r ! i)) \<and>
     (\<forall>f i e. interest r f = Some (i, e) \<longrightarrow> live r i \<and> fd (g_events r ! i) = f) \<and>
     (\<forall>i j. live r i \<and> live r j \<and> fd (g_events r ! i) = fd (g_events r ! j) \<longrightarrow> i = j)"

lemma table_okI:
  assumes "length (g_events r) = Suc MAX_EVENTS" "status (g_events r ! MAX_EVENTS) = 1"
    "\<And>i. i < Suc MAX_EVENTS \<Longrightarrow> entry_ok sure (interest r) (opened r) i (g_events r ! i)"
    "\<And>f i e. interest r f = Some (i, e) \<Longrightarrow> live r i \<and> fd (g_events r ! i) = f"
    "\<And>i j. live r i \<Longrightarrow> live r j \<Longrightarrow> fd (g_events r ! i) = fd (g_events r ! j) \<Longrightarrow> i = j"
  shows "table_ok sure r"
  unfolding table_ok_def using assms by blast

lemma table_len: "table_ok sure r \<Longrightarrow> length (g_events r) = Suc MAX_EVENTS"
  by (simp add: table_ok_def)

lemma entryD: "table_ok sure r \<Longrightarrow> i < Suc MAX_EVENTS \<Longrightarrow> entry_ok sure (interest r) (opened r) i (g_events r ! i)"
  by (simp add: table_ok_def)

lemma interestD:
  "table_ok sure r \<Longrightarrow> interest r f = Some (i, e) \<Longrightarrow> live r i \<and> fd (g_events r ! i) = f"
  unfolding table_ok_def by blast

lemma liveD:
  assumes "table_ok sure r" "live r i"
  shows "mode_ok i (g_events r ! i)" "arg (g_events r ! i) = i" "fd (g_events r ! i) \<in> set (opened r)"
    "sure \<Longrightarrow> interest r (fd (g_events r ! i)) = Some (i, events (g_events r ! i))" "length (buf (g_events r ! i)) = BUFLEN"
  using entryD [OF assms(1), of i] assms(2) by (auto simp: live_def entry_ok_def)

lemma live_fd_inj:
  "table_ok sure r \<Longrightarrow> live r i \<Longrightarrow> live r j \<Longrightarrow> fd (g_events r ! i) = fd (g_events r ! j) \<Longrightarrow> i = j"
  unfolding table_ok_def by blast

lemma live_listener: "table_ok sure r \<Longrightarrow> live r MAX_EVENTS"
  by (simp add: live_def table_ok_def)

lemma lowest_fd_fresh: "lowest_fd r \<notin> set (opened r)"
  unfolding lowest_fd_def by (rule lowest_unused_fresh)

subsection \<open>The two moves\<close>

lemma upd_event_sel [simp]:
  "interest (upd_event i g r) = interest r" "opened (upd_event i g r) = opened r" "wire (upd_event i g r) = wire r"
  "length (g_events (upd_event i g r)) = length (g_events r)"
  by (simp_all add: upd_event_def)

lemma upd_event_nth:
  "i < length (g_events r) \<Longrightarrow> g_events (upd_event i g r) ! j = (if j = i then g (g_events r ! j) else g_events r ! j)"
  by (simp add: upd_event_def)

lemma table_upd:
  assumes "table_ok sure r" "i < Suc MAX_EVENTS"
    "\<And>e. e = g_events r ! i \<Longrightarrow> status (g e) = status e \<and> fd (g e) = fd e \<and> entry_ok sure (interest r) (opened r) i (g e)"
  shows "table_ok sure (upd_event i g r)"
proof -
  have i: "i < length (g_events r)"
    using assms(1,2) by (simp add: table_len)
  have l: "live (upd_event i g r) j = live r j" "fd (g_events (upd_event i g r) ! j) = fd (g_events r ! j)" for j
    using assms(3) [OF refl] i by (auto simp: live_def upd_event_nth)
  show ?thesis
  proof (rule table_okI)
    show "entry_ok sure (interest (upd_event i g r)) (opened (upd_event i g r)) j (g_events (upd_event i g r) ! j)"
      if "j < Suc MAX_EVENTS" for j
      using entryD [OF assms(1) that] assms(3) [OF refl] i by (simp add: upd_event_nth)
    show "live (upd_event i g r) j \<and> fd (g_events (upd_event i g r) ! j) = f" if "interest (upd_event i g r) f = Some (j, e)" for f j e
      using interestD [OF assms(1), of f j e] that by (simp add: l)
    show "j = k" if "live (upd_event i g r) j" "live (upd_event i g r) k"
      "fd (g_events (upd_event i g r) ! j) = fd (g_events (upd_event i g r) ! k)" for j k
      using live_fd_inj [OF assms(1), of j k] that by (simp add: l)
    show "status (g_events (upd_event i g r) ! MAX_EVENTS) = 1"
      using l(1) [of MAX_EVENTS] live_listener [OF assms(1)] by (simp add: live_def)
  qed (use table_len [OF assms(1)] in simp)
qed

text \<open>The two ways in which the table changes: an entry is released, or it is armed.\<close>

lemma release_ok:
  assumes t: "table_ok sure r" and l: "live r i" "i \<noteq> MAX_EVENTS"
    and g: "\<And>j. g_events r' ! j = (if j = i then e else g_events r ! j)" "length (g_events r') = length (g_events r)"
      "status e = 0" "length (buf e) = BUFLEN"
    and m: "interest r' = (interest r)(fd (g_events r ! i) := None)"
    and os: "set (opened r') = set (opened r) - {fd (g_events r ! i)}"
  shows "table_ok sure r'"
proof -
  have live: "live r' j \<longleftrightarrow> live r j \<and> j \<noteq> i" for j
    using g(1,3) by (auto simp: live_def)
  have other: "fd (g_events r ! j) \<noteq> fd (g_events r ! i)" if "live r j" "j \<noteq> i" for j
    using live_fd_inj [OF t that(1) l(1)] that(2) by blast
  have entries: "entry_ok sure (interest r') (opened r') j (g_events r' ! j)" if "j < Suc MAX_EVENTS" for j
    using entryD [OF t that] other [of j] that g m os by (auto simp: entry_ok_def live_def)
  have listed: "live r' j \<and> fd (g_events r' ! j) = f" if "interest r' f = Some (j, x)" for f j x
  proof -
    have f: "interest r f = Some (j, x)" "f \<noteq> fd (g_events r ! i)"
      using that m by (auto split: if_splits)
    then have "live r j" "fd (g_events r ! j) = f"
      using interestD [OF t] by auto
    then show ?thesis
      using live g(1) f(2) by auto
  qed
  have distinct: "j = k" if "live r' j" "live r' k" "fd (g_events r' ! j) = fd (g_events r' ! k)" for j k
    using live_fd_inj [OF t, of j k] that live g(1) by simp
  have listener: "status (g_events r' ! MAX_EVENTS) = 1"
    using live_listener [OF t] l(2) g(1) by (simp add: live_def)
  show ?thesis
  proof (rule table_okI)
    show "length (g_events r') = Suc MAX_EVENTS"
      using g(2) table_len [OF t] by simp
  qed (use entries listed distinct listener in blast)+
qed

lemma arm_entry_ok:
  assumes t: "table_ok sure r" and i: "i < MAX_EVENTS"
    and own: "live r i \<Longrightarrow> fd (g_events r ! i) = fd e" and other: "\<And>j. live r j \<Longrightarrow> j \<noteq> i \<Longrightarrow> fd (g_events r ! j) \<noteq> fd e"
    and g: "\<And>j. g_events r' ! j = (if j = i then e else g_events r ! j)" "length (g_events r') = length (g_events r)"
    and e: "status e = 1" "arg e = i" "mode_ok i e" "length (buf e) = BUFLEN" "fd e \<in> set (opened r)"
    and m: "\<And>f. f \<noteq> fd e \<Longrightarrow> interest r' f = interest r f" "\<And>j x. interest r' (fd e) = Some (j, x) \<Longrightarrow> j = i"
      "sure \<Longrightarrow> interest r' (fd e) = Some (i, events e)"
    and os: "set (opened r') = set (opened r)"
  shows "table_ok sure r'"
proof -
  have live: "live r' j \<longleftrightarrow> live r j \<or> j = i" for j
    using g(1) e(1) i by (auto simp: live_def)
  have entries: "entry_ok sure (interest r') (opened r') j (g_events r' ! j)" if "j < Suc MAX_EVENTS" for j
  proof (cases "j = i")
    case True
    then show ?thesis
      using g(1) e m(3) os by (simp add: entry_ok_def)
  next
    case False
    show ?thesis
    proof (cases "live r j")
      case True
      then have "interest r' (fd (g_events r ! j)) = interest r (fd (g_events r ! j))"
        using m(1) other False by blast
      then show ?thesis
        using entryD [OF t that] g(1) [of j] False os by (simp add: entry_ok_def)
    next
      case no: False
      then show ?thesis
        using entryD [OF t that] that g(1) [of j] False by (simp add: entry_ok_def live_def)
    qed
  qed
  have listed: "live r' j \<and> fd (g_events r' ! j) = f" if x: "interest r' f = Some (j, x)" for f j x
  proof (cases "f = fd e")
    case True
    then show ?thesis
      using m(2) [of j x] x live [of i] g(1) [of i] by simp
  next
    case False
    then have "live r j" "fd (g_events r ! j) = f"
      using interestD [OF t, of f j x] m(1) [OF False] x by simp_all
    moreover from this have "j \<noteq> i"
      using own False by blast
    ultimately show ?thesis
      using live [of j] g(1) [of j] by simp
  qed
  have distinct: "j = k" if "live r' j" "live r' k" "fd (g_events r' ! j) = fd (g_events r' ! k)" for j k
  proof (cases "j = i \<or> k = i")
    case True
    then show ?thesis
      using other [of j] other [of k] that live [of j] live [of k] g(1) [of j] g(1) [of k] by (cases "j = k") auto
  next
    case False
    then show ?thesis
      using live_fd_inj [OF t, of j k] that live [of j] live [of k] g(1) [of j] g(1) [of k] by simp
  qed
  have listener: "status (g_events r' ! MAX_EVENTS) = 1"
    using live_listener [OF t] g(1) [of MAX_EVENTS] i by (simp add: live_def)
  show ?thesis
  proof (rule table_okI)
    show "length (g_events r') = Suc MAX_EVENTS"
      using g(2) table_len [OF t] by simp
  qed (use entries listed distinct listener in blast)+
qed

lemma eventdel_eq:
  "live r i \<Longrightarrow> eventdel ok i r =
     epoll_del ok (fd (g_events r ! i)) (upd_event i (\<lambda>e. e\<lparr>status := 0\<rparr>) r)"
  by (simp add: eventdel_def live_def)

lemma eventdel_sel:
  assumes "table_ok sure r" "live r i"
  shows "g_events (eventdel ok i r) ! j = (if j = i then (g_events r ! j)\<lparr>status := 0\<rparr> else g_events r ! j)"
    "interest (eventdel ok i r) = (if ok then (interest r)(fd (g_events r ! i) := None) else interest r)"
    "opened (eventdel ok i r) = opened r" "wire (eventdel ok i r) = wire r"
    "length (g_events (eventdel ok i r)) = length (g_events r)"
  using assms(2) table_len [OF assms(1)]
  by (auto simp: eventdel_eq epoll_del_def upd_event_nth live_def)

lemma eventdel_live: "table_ok sure r \<Longrightarrow> live r i \<Longrightarrow> live (eventdel ok i r) j \<longleftrightarrow> live r j \<and> j \<noteq> i"
  by (auto simp: live_def [of "eventdel ok i r"] eventdel_sel) (auto simp: live_def)

lemma close_sel [simp]:
  "g_events (sys_close f r) = g_events r" "wire (sys_close f r) = wire r" "live (sys_close f r) = live r"
  "interest (sys_close f r) = (interest r)(f := None)" "set (opened (sys_close f r)) = set (opened r) - {f}"
  by (auto simp: sys_close_def live_def)

lemma arm_sel:
  assumes "i < length (g_events r)"
  shows "g_events (eventadd ok evs i (eventset i f cb a t r)) ! j =
      (if j = i then (g_events r ! j)\<lparr>fd := f, call_back := cb, events := evs, arg := a, status := 1, last_active := t\<rparr>
       else g_events r ! j)"
    "interest (eventadd ok evs i (eventset i f cb a t r)) =
      (if ok \<and> f \<in> set (opened r) \<and> interest r f = None then (interest r)(f \<mapsto> (i, evs)) else interest r)"
    "opened (eventadd ok evs i (eventset i f cb a t r)) = opened r"
    "wire (eventadd ok evs i (eventset i f cb a t r)) = wire r"
    "length (g_events (eventadd ok evs i (eventset i f cb a t r))) = length (g_events r)"
  using assms by (simp_all add: eventadd_def eventset_def Let_def upd_event_nth epoll_add_def)

lemma arm_live:
  "i < Suc MAX_EVENTS \<Longrightarrow> length (g_events r) = Suc MAX_EVENTS \<Longrightarrow>
    live (eventadd ok evs i (eventset i f cb a t r)) j \<longleftrightarrow> live r j \<or> j = i"
  by (auto simp: live_def arm_sel)

text \<open>A free entry is armed for a new descriptor.\<close>

lemma arm_ok:
  assumes t: "table_ok sure r" and i: "i < MAX_EVENTS" and n: "\<not> live r i"
    and f: "\<And>j. live r j \<Longrightarrow> fd (g_events r ! j) \<noteq> f" "f \<in> set (opened r)"
    and m: "mode_ok i ((g_events r ! i)\<lparr>fd := f, call_back := cb, events := evs, arg := i, status := 1, last_active := tm\<rparr>)"
    and ok: "sure \<longrightarrow> ok"
  shows "table_ok sure (eventadd ok evs i (eventset i f cb i tm r))"
proof -
  have i': "i < length (g_events r)" "i < Suc MAX_EVENTS"
    using table_len [OF t] i by simp_all
  have none: "interest r f = None"
  proof (rule ccontr)
    assume "interest r f \<noteq> None"
    then obtain j e where "interest r f = Some (j, e)"
      by auto
    then show False
      using interestD [OF t] f(1) by blast
  qed
  show ?thesis
    by (rule arm_entry_ok [OF t i, where e = "(g_events r ! i)\<lparr>fd := f, call_back := cb, events := evs, arg := i, status := 1,
        last_active := tm\<rparr>"])
      (use n f m ok none entryD [OF t i'(2)] in \<open>auto simp: arm_sel [OF i'(1)] entry_ok_def split: if_splits\<close>)
qed


subsection \<open>The callbacks\<close>

lemma find_free_spec:
  "find_free es i n \<le> i + n \<and> (find_free es i n < i + n \<longrightarrow> status (es ! find_free es i n) = 0)"
  by (induction es i n rule: find_free.induct) auto

text \<open>What a callback keeps: the invariant, and every armed entry but its own.\<close>

definition keeps :: "bool \<Rightarrow> nat \<Rightarrow> reactor \<Rightarrow> reactor \<Rightarrow> bool" where
  "keeps sure i r r' \<longleftrightarrow> table_ok sure r' \<and>
     (\<forall>j. live r j \<and> j \<noteq> i \<longrightarrow> live r' j \<and> g_events r' ! j = g_events r ! j)"

lemma keeps_refl: "table_ok sure r \<Longrightarrow> keeps sure i r r"
  by (simp add: keeps_def)

lemma keeps_trans: "keeps sure i r r1 \<Longrightarrow> keeps sure i r1 r2 \<Longrightarrow> keeps sure i r r2"
  by (simp add: keeps_def)

lemma mode_in [simp]: "i < MAX_EVENTS \<Longrightarrow> call_back e = Recvdata \<Longrightarrow> events e = EPOLLIN \<Longrightarrow> mode_ok i e"
  by (simp add: mode_ok_def)

lemma table_same:
  assumes t: "table_ok sure r" and g: "g_events r' = g_events r" "interest r' = interest r" "set (opened r) \<subseteq> set (opened r')"
  shows "table_ok sure r' \<and> live r' = live r"
proof -
  have l: "live r' = live r"
    by (simp add: live_def fun_eq_iff g(1))
  have "table_ok sure r'"
  proof (rule table_okI)
    show "entry_ok sure (interest r') (opened r') i (g_events r' ! i)" if "i < Suc MAX_EVENTS" for i
      using entryD [OF t that] g by (auto simp: entry_ok_def)
    show "live r' i \<and> fd (g_events r' ! i) = f" if "interest r' f = Some (i, e)" for f i e
      using interestD [OF t, of f i e] that by (simp add: g l)
    show "i = j" if "live r' i" "live r' j" "fd (g_events r' ! i) = fd (g_events r' ! j)" for i j
      using live_fd_inj [OF t, of i j] that by (simp add: g l)
    show "status (g_events r' ! MAX_EVENTS) = 1"
      using live_listener [OF t] by (simp add: live_def g)
  qed (simp add: g table_len [OF t])
  then show ?thesis
    using l by simp
qed

lemma live_opened: "table_ok sure r \<Longrightarrow> f \<notin> set (opened r) \<Longrightarrow> live r j \<Longrightarrow> fd (g_events r ! j) \<noteq> f"
  using liveD(3) [of sure r j] by auto

lemma acceptconn_keeps:
  assumes t: "table_ok sure r" and l: "live r i" and ok: "sure \<longrightarrow> add_ok x"
  shows "keeps sure i r (acceptconn x r) \<and> live (acceptconn x r) i"
proof -
  let ?r = "r\<lparr>opened := opened r @ [lowest_fd r]\<rparr>" and ?i = "find_free (g_events r) 0 MAX_EVENTS"
  have t1: "table_ok sure ?r" and l1: "live ?r = live r"
    using table_same [OF t, of ?r] by auto
  show ?thesis
  proof (cases "accepts_one x \<and> ?i \<noteq> MAX_EVENTS \<and> fcntl_ok x")
    case True
    then have i: "?i < MAX_EVENTS" "\<not> live r ?i"
      using find_free_spec [of "g_events r" 0 MAX_EVENTS] by (auto simp: live_def)
    let ?q = "eventadd (add_ok x) EPOLLIN ?i (eventset ?i (lowest_fd r) Recvdata ?i (now x) ?r)"
    have "table_ok sure ?q"
      by (rule arm_ok [OF t1 i(1)]) (use i l1 live_opened [OF t lowest_fd_fresh] ok in simp_all)
    moreover have "live ?q j \<and> g_events ?q ! j = g_events r ! j" if "live r j" for j
    proof -
      have "j \<noteq> ?i"
        using that i(2) by blast
      then show ?thesis
        using arm_live [of ?i ?r] arm_sel(1) [of ?i ?r] i(1) table_len [OF t] l1 that by simp
    qed
    ultimately have "keeps sure i r ?q \<and> live ?q i"
      unfolding keeps_def using l by blast
    then show ?thesis
      using True by (simp add: acceptconn_def Let_def)
  next
    case False
    then show ?thesis
      using t t1 l l1 by (auto simp: acceptconn_def Let_def keeps_def)
  qed
qed

lemma hang_up_keeps:
  assumes t: "table_ok sure r" and l: "live r i" and i: "i \<noteq> MAX_EVENTS"
  shows "keeps sure i r (sys_close (fd (g_events (eventdel ok i r) ! i)) (eventdel ok i r))"
proof -
  have "table_ok sure (sys_close (fd (g_events (eventdel ok i r) ! i)) (eventdel ok i r))"
    by (rule release_ok [OF t l i, where e = "(g_events r ! i)\<lparr>status := 0\<rparr>"])
      (use liveD(5) [OF t l] in \<open>simp_all add: eventdel_sel [OF t l]\<close>)
  then show ?thesis
    using eventdel_live [OF t l] by (auto simp: keeps_def eventdel_sel [OF t l])
qed

text \<open>Taking an entry off the list and arming it again for the other direction.\<close>

lemma rearm_sel:
  assumes t: "table_ok sure r" and l: "live r i" and f: "f = fd (g_events r ! i)"
  shows "g_events (eventadd add evs i (eventset i f cb i tm (eventdel del i r))) ! j =
      (if j = i then (g_events r ! i)\<lparr>fd := f, call_back := cb, events := evs, arg := i, status := 1, last_active := tm\<rparr>
       else g_events r ! j)"
    "length (g_events (eventadd add evs i (eventset i f cb i tm (eventdel del i r)))) = length (g_events r)"
    "opened (eventadd add evs i (eventset i f cb i tm (eventdel del i r))) = opened r"
    "wire (eventadd add evs i (eventset i f cb i tm (eventdel del i r))) = wire r"
    "interest (eventadd add evs i (eventset i f cb i tm (eventdel del i r))) =
      (let m = (if del then (interest r)(f := None) else interest r) in
       if add \<and> m f = None then m(f \<mapsto> (i, evs)) else m)"
proof -
  have i: "i < length (g_events (eventdel del i r))"
    using l table_len [OF t] by (simp add: eventdel_sel(5) [OF t l] live_def)
  note sel = arm_sel [OF i] eventdel_sel [OF t l]
  show "g_events (eventadd add evs i (eventset i f cb i tm (eventdel del i r))) ! j =
      (if j = i then (g_events r ! i)\<lparr>fd := f, call_back := cb, events := evs, arg := i, status := 1, last_active := tm\<rparr>
       else g_events r ! j)"
    "length (g_events (eventadd add evs i (eventset i f cb i tm (eventdel del i r)))) = length (g_events r)"
    "opened (eventadd add evs i (eventset i f cb i tm (eventdel del i r))) = opened r"
    "wire (eventadd add evs i (eventset i f cb i tm (eventdel del i r))) = wire r"
    by (simp_all add: sel)
  show "interest (eventadd add evs i (eventset i f cb i tm (eventdel del i r))) =
      (let m = (if del then (interest r)(f := None) else interest r) in
       if add \<and> m f = None then m(f \<mapsto> (i, evs)) else m)"
    using liveD(3) [OF t l] f by (simp add: sel Let_def)
qed

lemma rearm_live:
  assumes t: "table_ok sure r" and l: "live r i" and f: "f = fd (g_events r ! i)"
  shows "live (eventadd add evs i (eventset i f cb i tm (eventdel del i r))) j = live r j"
  using l by (auto simp: live_def rearm_sel(1) [OF t l f])

lemma rearm_keeps:
  assumes t: "table_ok sure r" and l: "live r i" and i: "i < MAX_EVENTS"
    and f: "f = fd (g_events r ! i)"
    and m: "mode_ok i ((g_events r ! i)\<lparr>fd := f, call_back := cb, events := evs, arg := i, status := 1, last_active := tm\<rparr>)"
    and ok: "sure \<longrightarrow> del \<and> add"
  shows "keeps sure i r (eventadd add evs i (eventset i f cb i tm (eventdel del i r)))"
proof -
  let ?q = "eventadd add evs i (eventset i f cb i tm (eventdel del i r))"
  note sel = rearm_sel [OF t l f, of add evs cb tm del]
  have "table_ok sure ?q"
  proof (rule arm_entry_ok [OF t i, where e = "(g_events r ! i)\<lparr>fd := f, call_back := cb, events := evs, arg := i, status := 1,
        last_active := tm\<rparr>"])
    show "fd (g_events r ! j) \<noteq> fd ((g_events r ! i)\<lparr>fd := f, call_back := cb, events := evs, arg := i, status := 1, last_active := tm\<rparr>)"
      if "live r j" "j \<noteq> i" for j
      using live_fd_inj [OF t that(1) l] that(2) f by auto
    show "j = i" if "interest ?q (fd ((g_events r ! i)\<lparr>fd := f, call_back := cb, events := evs, arg := i, status := 1,
        last_active := tm\<rparr>)) = Some (j, x)" for j x
    proof -
      have "j = i \<or> interest r f = Some (j, x)"
        using that by (auto simp: sel(5) Let_def split: if_splits)
      then show ?thesis
        using interestD [OF t, of f j x] live_fd_inj [OF t _ l, of j] f by auto
    qed
    show "interest ?q g = interest r g" if "g \<noteq> fd ((g_events r ! i)\<lparr>fd := f, call_back := cb, events := evs, arg := i,
        status := 1, last_active := tm\<rparr>)" for g
      using that by (simp add: sel(5) Let_def)
    show "interest ?q (fd ((g_events r ! i)\<lparr>fd := f, call_back := cb, events := evs, arg := i, status := 1, last_active := tm\<rparr>)) =
        Some (i, events ((g_events r ! i)\<lparr>fd := f, call_back := cb, events := evs, arg := i, status := 1, last_active := tm\<rparr>))"
      if sure
    proof -
      have "del" "add"
        using that ok by simp_all
      then show ?thesis
        using sel(5) by simp
    qed
    show "g_events ?q ! j = (if j = i then (g_events r ! i)\<lparr>fd := f, call_back := cb, events := evs, arg := i, status := 1,
        last_active := tm\<rparr> else g_events r ! j)" for j
      by (rule sel(1))
    show "length (g_events ?q) = length (g_events r)" "set (opened ?q) = set (opened r)"
      by (simp_all only: sel(2,3))
  qed (use m f liveD(3,5) [OF t l] in simp_all)
  then show ?thesis
    using rearm_live [OF t l f] sel(1) by (simp add: keeps_def)
qed


text \<open>The events of an entry say which callback is there.\<close>

lemma mode_event:
  assumes "mode_ok i e" "i < Suc MAX_EVENTS"
  shows "events e AND EPOLLIN \<noteq> 0 \<longleftrightarrow> call_back e = Acceptconn \<and> i = MAX_EVENTS \<or> call_back e = Recvdata \<and> i < MAX_EVENTS"
    "events e AND EPOLLOUT \<noteq> 0 \<longleftrightarrow> call_back e = Senddata \<and> i < MAX_EVENTS \<and> 0 < len e \<and> len e < int BUFLEN"
  using assms by (auto simp: mode_ok_def EPOLLIN_def EPOLLOUT_def split: if_splits)

definition overruns :: "io \<Rightarrow> bool" where
  "overruns x \<longleftrightarrow> (case received x of Got bs \<Rightarrow> BUFLEN \<le> length bs | _ \<Rightarrow> False)"

lemma upd_upd: "upd_event i g (upd_event i h r) = upd_event i (\<lambda>e. g (h e)) r"
  by (cases "i < length (g_events r)") (simp_all add: upd_event_def not_less list_update_beyond)

lemma upd_event_cong: "g (g_events r ! i) = h (g_events r ! i) \<Longrightarrow> upd_event i g r = upd_event i h r"
  by (simp add: upd_event_def)

lemma upd_epoll_del: "upd_event i g (epoll_del ok f r) = epoll_del ok f (upd_event i g r)"
  by (simp add: upd_event_def epoll_del_def)

lemma eventdel_upd:
  assumes "table_ok sure r" "live r i"
    "\<And>e. fd (g e) = fd e \<and> status (g e) = status e \<and> g (e\<lparr>status := 0\<rparr>) = (g e)\<lparr>status := 0\<rparr>"
  shows "eventdel ok i (upd_event i g r) = upd_event i g (eventdel ok i r)"
proof -
  have "live (upd_event i g r) i" "i < length (g_events r)"
    using assms table_len [OF assms(1)] by (simp_all add: live_def upd_event_nth)
  then show ?thesis
    using assms(2,3) by (simp add: eventdel_eq upd_epoll_del upd_upd upd_event_nth)
qed

text \<open>An entry after a chunk has been read into its buffer and terminated.\<close>

definition stored :: "8 word list \<Rightarrow> myevent_s \<Rightarrow> myevent_s" where
  "stored bs e = e\<lparr>len := int (length bs), buf := (bs @ drop (length bs) (buf e))[length bs := 0]\<rparr>"

lemma recvdata_got:
  assumes t: "table_ok sure r" and a: "live r i" and x: "received x = Got bs" and b: "bs \<noteq> []" "length bs < BUFLEN"
  shows "recvdata f i x r = Inr (eventadd (add_ok x) EPOLLOUT i (eventset i f Senddata i (now x) (eventdel (del_ok x) i (upd_event i
    (stored bs) r))))"
proof -
  define g where "g = (\<lambda>e :: myevent_s. e\<lparr>buf := bs @ drop (length bs) (buf e)\<rparr>)"
  let ?r = "eventdel (del_ok x) i (upd_event i g r)"
  have l: "length (buf (g_events r ! i)) = BUFLEN" "i < length (g_events r)"
    using liveD(5) [OF t a] table_len [OF t] a by (simp_all add: live_def)
  have r: "?r = upd_event i g (eventdel (del_ok x) i r)" "eventdel (del_ok x) i (upd_event i (stored bs) r) = upd_event i (stored bs) (eventdel (del_ok x) i r)"
    by (rule eventdel_upd [OF t a]; simp add: g_def stored_def)+
  have "g_events ?r ! i = g (g_events (eventdel (del_ok x) i r) ! i)"
    using l eventdel_sel(5) [OF t a] by (simp add: r upd_event_nth)
  then have b1: "buf (g_events ?r ! i) = bs @ drop (length bs) (buf (g_events r ! i))"
    using eventdel_sel(1) [OF t a, of _ i] by (simp add: g_def)
  have "upd_event i (\<lambda>e. e\<lparr>len := int (length bs), buf := (buf (g_events ?r ! i))[length bs := 0]\<rparr>) ?r =
      eventdel (del_ok x) i (upd_event i (stored bs) r)"
    unfolding r upd_upd by (rule upd_event_cong) (use b1 r(1) in \<open>simp add: g_def stored_def eventdel_sel(1) [OF t a]\<close>)
  moreover have "aset (buf (g_events ?r ! i)) (length bs) 0 = Inr ((buf (g_events ?r ! i))[length bs := 0])"
    using b l by (simp add: aset_def b1)
  moreover have "take BUFLEN bs = bs"
    using b by simp
  ultimately show ?thesis
    using b by (simp add: recvdata_def x Let_def g_def [symmetric])
qed

lemma upd_data_ok:
  assumes t: "table_ok sure r" and l: "live r i" and c: "call_back (g_events r ! i) = Recvdata"
    and b: "bs \<noteq> []" "length bs < BUFLEN"
  shows "table_ok sure (upd_event i (stored bs) r)" "live (upd_event i (stored bs) r) = live r"
    "j \<noteq> i \<Longrightarrow> g_events (upd_event i (stored bs) r) ! j = g_events r ! j"
proof -
  have i: "i < Suc MAX_EVENTS" "i < length (g_events r)"
    using table_len [OF t] l by (auto simp: live_def)
  show "live (upd_event i (stored bs) r) = live r"
    using i by (auto simp: stored_def live_def upd_event_nth fun_eq_iff)
  show "j \<noteq> i \<Longrightarrow> g_events (upd_event i (stored bs) r) ! j = g_events r ! j"
    using i by (simp add: upd_event_nth)
  show "table_ok sure (upd_event i (stored bs) r)"
    by (rule table_upd [OF t i(1)]) (use entryD [OF t i(1)] c b in \<open>auto simp: stored_def entry_ok_def mode_ok_def\<close>)
qed

lemma recvdata_arms:
  assumes t: "table_ok sure r" and l: "live r i" and i: "i < MAX_EVENTS" and c: "call_back (g_events r ! i) = Recvdata"
    and b: "bs \<noteq> []" "length bs < BUFLEN" and f: "f = fd (g_events r ! i)"
    and q: "q = eventadd add EPOLLOUT i (eventset i f Senddata i tm (eventdel del i (upd_event i (stored bs) r)))"
    and ok: "sure \<longrightarrow> del \<and> add"
  shows "keeps sure i r q" "live q i"
proof -
  let ?r = "upd_event i (stored bs) r"
  note u = upd_data_ok [OF t l c b]
  have g: "g_events ?r ! i = stored bs (g_events r ! i)"
    using table_len [OF t] i by (simp add: upd_event_nth)
  have m: "live ?r i" "f = fd (g_events ?r ! i)" "mode_ok i ((g_events ?r ! i)\<lparr>fd := f, call_back := Senddata,
      events := EPOLLOUT, arg := i, status := 1, last_active := tm\<rparr>)"
    using l u(2) g f i b by (simp_all add: mode_ok_def stored_def)
  show "keeps sure i r q" "live q i"
    using rearm_keeps [OF u(1) m(1) i m(2,3) ok] rearm_live [OF u(1) m(1) m(2)] m(1) u(2,3) by (simp_all add: keeps_def q)
qed

lemma recvdata_keeps:
  assumes t: "table_ok sure r" and l: "live r i" and i: "i < MAX_EVENTS" and c: "call_back (g_events r ! i) = Recvdata"
    and f: "f = fd (g_events r ! i)" and o: "\<not> overruns x" and ok: "sure \<longrightarrow> del_ok x \<and> add_ok x"
  shows "\<exists>r'. recvdata f i x r = Inr r' \<and> keeps sure i r r' \<and> (live r' i \<or> events (g_events r' ! i) AND EPOLLOUT = 0)"
proof -
  have "events (g_events (eventdel (del_ok x) i r) ! i) AND EPOLLOUT = 0"
    using mode_event(2) [OF liveD(1) [OF t l]] c i by (auto simp: eventdel_sel [OF t l])
  then have h: "keeps sure i r (sys_close (fd (g_events (eventdel (del_ok x) i r) ! i)) (eventdel (del_ok x) i r)) \<and>
      events (g_events (sys_close (fd (g_events (eventdel (del_ok x) i r) ! i)) (eventdel (del_ok x) i r)) ! i) AND EPOLLOUT = 0"
    using hang_up_keeps [OF t l] i by simp
  show ?thesis
  proof (cases "received x")
    case (Got bs)
    show ?thesis
    proof (cases "bs = []")
      case True
      have "upd_event i (\<lambda>e. e\<lparr>buf := [] @ drop (length []) (buf e)\<rparr>) r = r"
        by (simp add: upd_event_def)
      then show ?thesis
        using Got True h by (simp add: recvdata_def Let_def)
    next
      case False
      have b: "length bs < BUFLEN"
        using o Got by (simp add: overruns_def)
      show ?thesis
        using recvdata_got [OF t l Got False b] recvdata_arms [OF t l i c False b f refl ok] by simp
    qed
  qed (use h in \<open>simp_all add: recvdata_def Let_def\<close>)
qed


lemma senddata_keeps:
  assumes t: "table_ok sure r" and l: "live r i" and i: "i < MAX_EVENTS" and f: "f = fd (g_events r ! i)" and ok: "sure \<longrightarrow> del_ok x \<and> add_ok x"
  shows "keeps sure i r (senddata f i x r)"
proof -
  let ?w = "\<lambda>ws. r\<lparr>wire := ws\<rparr>"
  have w: "table_ok sure (?w ws)" "live (?w ws) i" "f = fd (g_events (?w ws) ! i)" "keeps sure i r (?w ws)" for ws
    using table_same [OF t, of "?w ws"] l f by (simp_all add: keeps_def)
  have "keeps sure i (?w ws) (eventadd (add_ok x) EPOLLIN i (eventset i f Recvdata i (now x) (eventdel (del_ok x) i (?w ws))))" for ws
    by (rule rearm_keeps [OF w(1,2) i w(3) _ ok]) (use i in simp)
  then have "keeps sure i r (eventadd (add_ok x) EPOLLIN i (eventset i f Recvdata i (now x) (eventdel (del_ok x) i (?w ws))))" for ws
    using keeps_trans [OF w(4)] by blast
  moreover have "keeps sure i r (sys_close (fd (g_events (eventdel (del_ok x) i (?w ws)) ! i)) (eventdel (del_ok x) i (?w ws)))" for ws
    using keeps_trans [OF w(4) hang_up_keeps [OF w(1,2)]] i by blast
  moreover define n where "n = (if sends x < 0 then -1 else min (sends x) (len (g_events r ! i)))"
  moreover define ws where "ws = (if 0 \<le> n then wire r @ [(f, take (nat n) (buf (g_events r ! i)))] else wire r)"
  have "(if 0 \<le> n then r\<lparr>wire := wire r @ [(f, take (nat n) (buf (g_events r ! i)))]\<rparr> else r) = ?w ws"
    by (simp add: ws_def)
  then have "senddata f i x r = (if 0 < n then eventadd (add_ok x) EPOLLIN i (eventset i f Recvdata i (now x) (eventdel (del_ok x) i (?w ws)))
      else sys_close (fd (g_events (eventdel (del_ok x) i (?w ws)) ! i)) (eventdel (del_ok x) i (?w ws)))"
    by (simp only: senddata_def Let_def n_def)
  ultimately show ?thesis
    by simp
qed

text \<open>The events that hand a callback a chunk which fills the buffer.\<close>

definition fills :: "reactor \<Rightarrow> ready \<Rightarrow> bool" where
  "fills r ev \<longleftrightarrow> (case ev of (i, evs, x, y) \<Rightarrow>
     overruns x \<and> evs AND EPOLLIN \<noteq> 0 \<and> call_back (g_events r ! i) = Recvdata)"

lemma recvdata_overrun:
  assumes t: "table_ok sure r" and l: "live r i" and o: "overruns x"
  shows "recvdata f i x r = Inl OutOfBounds"
proof -
  obtain bs where bs: "received x = Got bs" "BUFLEN \<le> length bs"
    using o by (auto simp: overruns_def split: recv_result.splits)
  define ts where "ts = take BUFLEN bs"
  define g where "g = (\<lambda>e :: myevent_s. e\<lparr>buf := ts @ drop (length ts) (buf e)\<rparr>)"
  have b: "length ts = BUFLEN"
    using bs by (simp add: ts_def)
  have l': "length (buf (g_events r ! i)) = BUFLEN" "i < length (g_events r)"
    using liveD(5) [OF t l] table_len [OF t] l by (simp_all add: live_def)
  have "eventdel (del_ok x) i (upd_event i g r) = upd_event i g (eventdel (del_ok x) i r)"
    by (rule eventdel_upd [OF t l]) (simp add: g_def)
  then have "length (buf (g_events (eventdel (del_ok x) i (upd_event i g r)) ! i)) = BUFLEN"
    using l' b eventdel_sel(1) [OF t l, of _ i] eventdel_sel(5) [OF t l]
    by (simp add: upd_event_nth g_def)
  then have "aset (buf (g_events (eventdel (del_ok x) i (upd_event i g r)) ! i)) (length ts) 0 = Inl OutOfBounds"
    using b by (simp add: aset_def)
  moreover have "ts \<noteq> []"
    using b by (auto simp: BUFLEN_def)
  ultimately show ?thesis
    by (simp add: recvdata_def bs(1) Let_def ts_def [symmetric] g_def [symmetric])
qed

lemma dispatch_one_overrun:
  assumes t: "table_ok sure r" and l: "live r i" and o: "fills r (i, evs, x, y)"
  shows "dispatch_one (i, evs, x, y) r = Inl OutOfBounds"
proof -
  have "i < Suc MAX_EVENTS" "call_back (g_events r ! i) = Recvdata"
    using l o by (auto simp: live_def fills_def)
  then have "events (g_events r ! i) AND EPOLLIN \<noteq> 0"
    using mode_event(1) [OF liveD(1) [OF t l]] liveD(1) [OF t l] by (auto simp: mode_ok_def split: if_splits)
  then show ?thesis
    using o recvdata_overrun [OF t l] liveD(2) [OF t l] by (auto simp: fills_def dispatch_one_def run_handler_def)
qed

lemma dispatch_one_keeps:
  assumes t: "table_ok sure r" and l: "live r i" and o: "\<not> fills r (i, evs, x, y)"
    and ok: "sure \<longrightarrow> del_ok x \<and> add_ok x \<and> del_ok y \<and> add_ok y"
  shows "\<exists>r'. dispatch_one (i, evs, x, y) r = Inr r' \<and> keeps sure i r r'"
proof -
  note e = mode_event [OF liveD(1) [OF t l]] and a = liveD(2) [OF t l]
  have i: "i < Suc MAX_EVENTS"
    using l by (simp add: live_def)
  let ?in = "evs AND EPOLLIN \<noteq> 0 \<and> events (g_events r ! i) AND EPOLLIN \<noteq> 0"
  have "\<exists>r1. (if ?in then run_handler i x r else Inr r) = Inr r1 \<and> keeps sure i r r1 \<and>
      (events (g_events r1 ! i) AND EPOLLOUT \<noteq> 0 \<longrightarrow> live r1 i)"
  proof (cases ?in)
    case True
    then show ?thesis
    proof (cases "i = MAX_EVENTS")
      case True
      then have "run_handler i x r = Inr (acceptconn x r)"
        using \<open>?in\<close> e(1) [OF i] by (simp add: run_handler_def)
      then show ?thesis
        using \<open>?in\<close> acceptconn_keeps [OF t l, of x] ok by auto
    next
      case False
      then have c: "call_back (g_events r ! i) = Recvdata" "i < MAX_EVENTS"
        using \<open>?in\<close> e(1) [OF i] by auto
      then have h: "run_handler i x r = recvdata (fd (g_events r ! i)) i x r"
        by (simp add: run_handler_def a)
      obtain r1 where r1: "recvdata (fd (g_events r ! i)) i x r = Inr r1" "keeps sure i r r1"
          "events (g_events r1 ! i) AND EPOLLOUT \<noteq> 0 \<longrightarrow> live r1 i"
        using recvdata_keeps [OF t l c(2,1) refl, of x] ok o c \<open>?in\<close> by (auto simp: fills_def)
      then show ?thesis
        using \<open>?in\<close> h r1 by simp
    qed
  next
    case False
    then show ?thesis
      using keeps_refl [OF t] l by auto
  qed
  then obtain r1 where r1: "(if ?in then run_handler i x r else Inr r) = Inr r1" "keeps sure i r r1"
      "events (g_events r1 ! i) AND EPOLLOUT \<noteq> 0 \<longrightarrow> live r1 i"
    by blast
  show ?thesis
  proof (cases "evs AND EPOLLOUT \<noteq> 0 \<and> events (g_events r1 ! i) AND EPOLLOUT \<noteq> 0")
    case True
    have k: "table_ok sure r1" "live r1 i"
      using r1 True by (auto simp: keeps_def)
    then have "call_back (g_events r1 ! i) = Senddata" "i < MAX_EVENTS"
      using mode_event(2) [OF liveD(1) [OF k] i] True by auto
    then show ?thesis
      using r1 True senddata_keeps [OF k _ refl, of y] ok liveD(2) [OF k]
      by (auto simp: dispatch_one_def run_handler_def intro: keeps_trans)
  next
    case False
    then show ?thesis
      using r1 by (auto simp: dispatch_one_def)
  qed
qed


subsection \<open>The main loop\<close>

lemma fills_frame: "g_events r' ! fst ev = g_events r ! fst ev \<Longrightarrow> fills r' ev = fills r ev"
  by (auto simp: fills_def split: prod.splits)

lemma dispatch_cases:
  "table_ok sure r \<Longrightarrow> (sure \<longrightarrow> batch_sure b) \<Longrightarrow> distinct (map fst b) \<Longrightarrow> \<forall>i\<in>fst ` set b. live r i \<Longrightarrow>
    (if \<exists>ev\<in>set b. fills r ev then dispatch b r = Inl OutOfBounds else \<exists>r'. dispatch b r = Inr r' \<and> table_ok sure r')"
proof (induction b arbitrary: r)
  case (Cons ev b)
  obtain i evs x y where ev: "ev = (i, evs, x, y)"
    by (cases ev) auto
  have l: "live r i"
    using Cons.prems(4) by (simp add: ev)
  have sr: "sure \<longrightarrow> del_ok x \<and> add_ok x \<and> del_ok y \<and> add_ok y" "sure \<longrightarrow> batch_sure b"
    using Cons.prems(2) by (auto simp: batch_sure_def ev)
  show ?case
  proof (cases "fills r ev")
    case True
    then show ?thesis
      using dispatch_one_overrun [OF Cons.prems(1) l] by (auto simp: ev)
  next
    case False
    then obtain r1 where r1: "dispatch_one ev r = Inr r1" "table_ok sure r1"
      and k: "live r j \<Longrightarrow> j \<noteq> i \<Longrightarrow> live r1 j \<and> g_events r1 ! j = g_events r ! j" for j
      using dispatch_one_keeps [OF Cons.prems(1) l _ sr(1)] unfolding ev keeps_def by blast
    have f: "live r1 (fst e) \<and> fills r1 e = fills r e" if "e \<in> set b" for e
    proof -
      have "live r (fst e)" "fst e \<noteq> i"
        using that Cons.prems(3,4) by (auto simp: ev)
      then show ?thesis
        using k fills_frame [of r1 e r] by simp
    qed
    then have "\<forall>j\<in>fst ` set b. live r1 j" "(\<exists>e\<in>set b. fills r1 e) = (\<exists>e\<in>set (ev # b). fills r e)"
      using False by auto
    then show ?thesis
      using Cons.IH [OF r1(2) sr(2)] Cons.prems(3) r1(1) by (simp del: list.set)
  qed
qed simp

lemma sweep_ok: "table_ok sure r \<Longrightarrow> c \<le> MAX_EVENTS \<Longrightarrow> table_ok sure (snd (sweep n c t r)) \<and> fst (sweep n c t r) \<le> MAX_EVENTS"
proof (induction n c t r rule: sweep.induct)
  case (2 n c t r)
  let ?c = "if c = MAX_EVENTS then 0 else c"
  have c: "?c < MAX_EVENTS"
    using "2.prems" by (simp add: MAX_EVENTS_def)
  have "table_ok sure (eventdel False ?c (sys_close (fd (g_events r ! ?c)) r))" if "status (g_events r ! ?c) = 1"
  proof -
    have l: "live r ?c" "live (sys_close (fd (g_events r ! ?c)) r) ?c"
      using that c by (simp_all add: live_def)
    show ?thesis
      by (rule release_ok [OF "2.prems"(1) l(1), where e = "(g_events r ! ?c)\<lparr>status := 0\<rparr>"])
        (use liveD(5) [OF "2.prems"(1) l(1)] l table_len [OF "2.prems"(1)] c in
          \<open>simp_all add: eventdel_eq [OF l(2)] epoll_del_def upd_event_nth\<close>)
  qed
  then show ?case
    using "2.IH"(1,2,3) [OF refl refl] "2.prems" c by (auto simp: Let_def simp del: not_less)
qed simp

lemma table_start:
  assumes "sure \<longrightarrow> ok"
  shows "table_ok sure (reactor_start ok t)"
proof (rule table_okI)
  let ?r = "reactor_start ok t"
  note d = reactor_start_def initlistensocket_def Let_def
  have e: "g_events ?r ! i = (if i = MAX_EVENTS then fresh_event\<lparr>fd := lowest_fd \<lparr>g_events = replicate (MAX_EVENTS + 1) fresh_event,
      interest = Map.empty, opened = [0, 1, 2, 3], wire = []\<rparr>, call_back := Acceptconn, events := EPOLLIN, arg := MAX_EVENTS,
      status := 1, last_active := t\<rparr> else fresh_event)" if "i < Suc MAX_EVENTS" for i
    using that by (simp add: d arm_sel nth_append del: replicate_Suc)
  have live: "live ?r i \<longleftrightarrow> i = MAX_EVENTS" for i
  proof (cases "i < Suc MAX_EVENTS")
    case True
    then show ?thesis
      using e [OF True] by (simp add: live_def fresh_event_def)
  qed (simp add: live_def)
  let ?l = "lowest_fd \<lparr>g_events = replicate (MAX_EVENTS + 1) fresh_event, interest = Map.empty, opened = [0, 1, 2, 3],
    wire = []\<rparr>"
  have m: "interest ?r = (if ok then [?l \<mapsto> (MAX_EVENTS, EPOLLIN)] else Map.empty)"
    by (simp add: d arm_sel)
  show "length (g_events ?r) = Suc MAX_EVENTS"
    by (simp add: d arm_sel)
  show "status (g_events ?r ! MAX_EVENTS) = 1"
    by (simp add: e)
  show "entry_ok sure (interest ?r) (opened ?r) i (g_events ?r ! i)" if "i < Suc MAX_EVENTS" for i
    using e [OF that] assms by (auto simp: entry_ok_def mode_ok_def fresh_event_def d arm_sel)
  show "live ?r i \<and> fd (g_events ?r ! i) = f" if "interest ?r f = Some (i, x)" for f i x
  proof -
    have "i = MAX_EVENTS" "f = ?l"
      using that unfolding m by (auto split: if_splits)
    then show ?thesis
      by (simp add: live e)
  qed
  show "i = j" if "live ?r i" "live ?r j" for i j
    using that by (simp add: live)
qed

inductive_cases reactor_stepE: "reactor_step sure (c, r) s"

lemma batch_live: "table_ok sure r \<Longrightarrow> batch_ok b r \<Longrightarrow> distinct (map fst b) \<and> (\<forall>i\<in>fst ` set b. live r i)"
  by (fastforce simp: batch_ok_def dest: interestD)

lemma round_dispatch:
  assumes "table_ok sure r" "c \<le> MAX_EVENTS" "sweep 100 c t r = (c', r1)" "batch_ok b r1" "sure \<longrightarrow> batch_sure b"
  shows "if \<exists>ev\<in>set b. fills r1 ev then dispatch b r1 = Inl OutOfBounds else \<exists>s. dispatch b r1 = Inr s \<and> table_ok sure s"
proof -
  have t: "table_ok sure r1"
    using sweep_ok [OF assms(1,2), of 100 t] assms(3) by simp
  show ?thesis
    using dispatch_cases [OF t assms(5)] batch_live [OF t assms(4)] by blast
qed

lemma step_ok: "reactor_step sure s s' \<Longrightarrow> table_ok sure (snd s) \<and> fst s \<le> MAX_EVENTS \<Longrightarrow> table_ok sure (snd s') \<and> fst s' \<le> MAX_EVENTS"
proof (induction rule: reactor_step.induct)
  case (round c t r c' r1 b r2)
  then show ?case
    using round_dispatch [of sure r c t c' r1 b] sweep_ok [of sure r c 100 t] by (auto split: if_splits)
qed

lemma reachable_ok: "(reactor_step sure)\<^sup>*\<^sup>* (0, reactor_start ok t) (c, r) \<Longrightarrow> sure \<longrightarrow> ok \<Longrightarrow> table_ok sure r \<and> c \<le> MAX_EVENTS"
proof -
  have "(reactor_step sure)\<^sup>*\<^sup>* s s' \<Longrightarrow> table_ok sure (snd s) \<and> fst s \<le> MAX_EVENTS \<Longrightarrow> table_ok sure (snd s') \<and> fst s' \<le> MAX_EVENTS" for s s'
    by (induction rule: rtranclp_induct) (simp, metis step_ok)
  then show "(reactor_step sure)\<^sup>*\<^sup>* (0, reactor_start ok t) (c, r) \<Longrightarrow> sure \<longrightarrow> ok \<Longrightarrow> ?thesis"
    using table_start [of sure ok t] by fastforce
qed

subsection \<open>A run with one client\<close>

definition input :: "recv_result \<Rightarrow> io" where
  "input v = \<lparr>accepts_one = True, fcntl_ok = True, received = v, sends = 100, now = 0, del_ok = True, add_ok = True\<rparr>"

definition one_client :: reactor where
  "one_client = acceptconn (input Peer_closed) (reactor_start True 0)"

lemma start_sel:
  "g_events (reactor_start True t) ! j = (if j = MAX_EVENTS then fresh_event\<lparr>fd := 4, call_back := Acceptconn,
     events := EPOLLIN, arg := MAX_EVENTS, status := 1, last_active := t\<rparr> else if j < MAX_EVENTS then fresh_event
     else g_events (reactor_start True t) ! j)"
  "opened (reactor_start True t) = [0, 1, 2, 3, 4]" "interest (reactor_start True t) = [4 \<mapsto> (MAX_EVENTS, EPOLLIN)]"
  "length (g_events (reactor_start True t)) = Suc MAX_EVENTS"
proof -
  let ?r = "\<lparr>g_events = replicate (MAX_EVENTS + 1) fresh_event, interest = Map.empty, opened = [0, 1, 2, 3],
    wire = []\<rparr> :: reactor"
  have l: "lowest_fd ?r = 4"
    by (simp add: lowest_fd_def lowest_unused_def upt_rec)
  show "g_events (reactor_start True t) ! j = (if j = MAX_EVENTS then fresh_event\<lparr>fd := 4, call_back := Acceptconn,
     events := EPOLLIN, arg := MAX_EVENTS, status := 1, last_active := t\<rparr> else if j < MAX_EVENTS then fresh_event
     else g_events (reactor_start True t) ! j)"
    "opened (reactor_start True t) = [0, 1, 2, 3, 4]" "interest (reactor_start True t) = [4 \<mapsto> (MAX_EVENTS, EPOLLIN)]"
    "length (g_events (reactor_start True t)) = Suc MAX_EVENTS"
    unfolding reactor_start_def initlistensocket_def Let_def l
    by (simp_all add: arm_sel nth_append del: replicate_Suc)
qed


lemma sweep_idle: "\<forall>j<MAX_EVENTS. status (g_events r ! j) \<noteq> 1 \<Longrightarrow> c \<le> MAX_EVENTS \<Longrightarrow> snd (sweep n c t r) = r"
  by (induction n c t r rule: sweep.induct) (auto simp: Let_def MAX_EVENTS_def)

lemma find_free_now: "status (es ! i) = 0 \<Longrightarrow> find_free es i n = i"
  by (cases n) simp_all

lemma one_client_eq: "one_client = eventadd True EPOLLIN 0 (eventset 0 5 Recvdata 0 0
    ((reactor_start True 0)\<lparr>opened := [0, 1, 2, 3, 4, 5]\<rparr>))"
proof -
  have "lowest_fd (reactor_start True 0) = 5"
    by (simp add: lowest_fd_def lowest_unused_def start_sel upt_rec)
  moreover have "find_free (g_events (reactor_start True 0)) 0 MAX_EVENTS = 0"
    using start_sel(1) [of 0 0] find_free_now [of "g_events (reactor_start True 0)" 0 MAX_EVENTS]
    by (simp add: fresh_event_def MAX_EVENTS_def)
  ultimately show ?thesis
    by (simp add: one_client_def acceptconn_def input_def Let_def start_sel(2) MAX_EVENTS_def)
qed

lemma one_client_sel:
  "interest one_client = [4 \<mapsto> (MAX_EVENTS, EPOLLIN), 5 \<mapsto> (0, EPOLLIN)]" "live one_client 0"
  "call_back (g_events one_client ! 0) = Recvdata" "fd (g_events one_client ! 0) = 5" "last_active (g_events one_client ! 0) = 0"
  using start_sel(1) [of 0 0]
  by (simp_all add: one_client_eq live_def arm_sel start_sel(2-) fresh_event_def MAX_EVENTS_def)

lemma one_client_reachable: "\<exists>c. (reactor_step sure)\<^sup>*\<^sup>* (0, reactor_start True 0) (c, one_client)"
proof -
  have n: "0 < MAX_EVENTS"
    by (simp add: MAX_EVENTS_def)
  let ?r = "reactor_start True 0" and ?ev = "(MAX_EVENTS, EPOLLIN, input Peer_closed, input Peer_closed)"
  have s: "snd (sweep 100 0 0 ?r) = ?r"
    by (rule sweep_idle) (simp_all add: start_sel(1) fresh_event_def)
  have b: "batch_ok [?ev] ?r"
    by (simp add: batch_ok_def start_sel(3) exI [of _ 4])
  have "dispatch_one ?ev ?r = Inr one_client"
  proof -
    have "run_handler MAX_EVENTS (input Peer_closed) ?r = Inr one_client"
      by (simp add: run_handler_def start_sel(1) one_client_def)
    moreover have "events (g_events one_client ! MAX_EVENTS) = EPOLLIN"
      using n by (simp add: one_client_eq arm_sel start_sel)
    ultimately show ?thesis
      by (simp add: dispatch_one_def start_sel(1) EPOLLIN_def EPOLLOUT_def)
  qed
  then have "reactor_step sure (0, ?r) (fst (sweep 100 0 0 ?r), one_client)"
    by (intro reactor_step.round [OF _ b]) (use s in \<open>auto simp: prod_eq_iff batch_sure_def input_def\<close>)
  then show ?thesis
    by blast
qed

subsection \<open>The properties\<close>

text \<open>
  C38. The table and the interest list, with and without failures of \<open>epoll_ctl\<close>. In every state that the main loop
  reaches: what is on the list points to an entry that is marked as being there and has that descriptor; different
  marked entries have different, open descriptors; a marked entry's argument is the entry itself, its callback is the
  one for its direction, and the listening entry is always marked. If no \<open>epoll_ctl\<close> fails (\<open>sure\<close>), every marked
  entry is on the list, with the events it records. If one fails, \<open>eventadd\<close> leaves the mark that it set before, and
  the entry may be missing from the list: then nothing is dispatched to it any more.
\<close>

theorem reactor_table:
  assumes "(reactor_step sure)\<^sup>*\<^sup>* (0, reactor_start ok t) (c, r)" "sure \<longrightarrow> ok"
  shows "table_ok sure r \<and> c \<le> MAX_EVENTS"
  by (rule reachable_ok [OF assms])

theorem reactor_table_witness: "table_ok True one_client \<and> live one_client 0"
proof -
  obtain c where "(reactor_step True)\<^sup>*\<^sup>* (0, reactor_start True 0) (c, one_client)"
    using one_client_reachable by blast
  then show ?thesis
    using reactor_table [of True True 0 c one_client] one_client_sel(2) by simp
qed

text \<open>
  What such a failure costs: if the first \<open>epoll_ctl\<close> fails, the server runs on for ever without a listening socket
  on the list, and no client is ever accepted.
\<close>

theorem listener_lost:
  assumes "(reactor_step sure)\<^sup>*\<^sup>* (0, reactor_start False t) (c, r)"
  shows "r = reactor_start False t \<and> interest r = Map.empty \<and> live r MAX_EVENTS"
proof -
  let ?r = "reactor_start False t"
  have i: "interest ?r = Map.empty" and "live ?r MAX_EVENTS"
    using live_listener [OF table_start [of False False t]]
    by (simp_all add: reactor_start_def initlistensocket_def Let_def arm_sel)
  have idle: "\<forall>j<MAX_EVENTS. status (g_events ?r ! j) \<noteq> 1"
    by (simp add: reactor_start_def initlistensocket_def Let_def arm_sel nth_append fresh_event_def del: replicate_Suc)
  have step: "snd s' = ?r \<and> fst s' \<le> MAX_EVENTS" if "reactor_step sure s s'" "snd s = ?r \<and> fst s \<le> MAX_EVENTS" for s s'
    using that
  proof (induction rule: reactor_step.induct)
    case (round c t' r c' r1 b r2)
    then have "r1 = ?r" "c' \<le> MAX_EVENTS"
      using sweep_idle [OF idle, of c 100 t'] sweep_ok [OF table_start [of False False t], of c 100 t'] by auto
    moreover from this have "b = []"
    proof -
      have "q \<notin> set b" for q
        using round.hyps(2) \<open>r1 = ?r\<close> by (cases q) (auto simp: batch_ok_def i)
      then show ?thesis
        by (cases b) auto
    qed
    ultimately show ?case
      using round.hyps(4) by simp
  qed
  have "snd s' = ?r \<and> fst s' \<le> MAX_EVENTS" if "(reactor_step sure)\<^sup>*\<^sup>* (0, ?r) s'" for s'
    using that by (induction rule: rtranclp_induct) (simp, rule step)
  then show ?thesis
    using assms i \<open>live ?r MAX_EVENTS\<close> by force
qed

text \<open>
  C39. The only fault of the server is its buffer: in a round from a reachable state, with any events for any armed
  entries, the dispatch ends normally unless some event hands \<open>recvdata\<close> a chunk that fills the buffer, and then
  the terminating zero is written one byte past it.
\<close>

theorem reactor_faults_exactly:
  assumes "(reactor_step False)\<^sup>*\<^sup>* (0, reactor_start ok t0) (c, r)" "sweep 100 c t r = (c', r1)" "batch_ok b r1"
  shows "if \<exists>ev\<in>set b. fills r1 ev then dispatch b r1 = Inl OutOfBounds else \<exists>s. dispatch b r1 = Inr s"
  proof -
  have "table_ok False r" "c \<le> MAX_EVENTS"
    using reachable_ok [OF assms(1)] by blast+
  then show ?thesis
    using round_dispatch [OF _ _ assms(2,3), of False] by (simp split: if_splits) blast
qed

text \<open>
  The server echoes: a chunk of at least one and less than 128 bytes is kept and the entry waits to send; the
  callback run next puts the bytes on the wire of the same descriptor, as many as the kernel takes, and the entry
  waits for input again. With a kernel that takes them all nothing is lost. (No \<open>epoll_ctl\<close> fails.)
\<close>

theorem reactor_echoes:
  assumes "(reactor_step True)\<^sup>*\<^sup>* (0, reactor_start True t) (c, r)" "live r i" "call_back (g_events r ! i) = Recvdata"
    "received x = Got bs" "bs \<noteq> []" "length bs < BUFLEN" "0 < sends y"
    "del_ok x" "add_ok x" "del_ok y" "add_ok y"
  shows "\<exists>r1 r2. run_handler i x r = Inr r1 \<and> interest r1 (fd (g_events r ! i)) = Some (i, EPOLLOUT) \<and>
    run_handler i y r1 = Inr r2 \<and> interest r2 (fd (g_events r ! i)) = Some (i, EPOLLIN) \<and>
    call_back (g_events r2 ! i) = Recvdata \<and>
    wire r2 = wire r @ [(fd (g_events r ! i), take (nat (sends y)) bs)]"
proof -
  let ?f = "fd (g_events r ! i)" and ?r = "upd_event i (stored bs) r"
  have t: "table_ok True r"
    using reachable_ok [OF assms(1)] by simp
  note l = assms(2) and u = upd_data_ok [OF t assms(2,3,5,6)]
  have i: "i < Suc MAX_EVENTS" "i < length (g_events r)"
    using l table_len [OF t] by (simp_all add: live_def)
  have l1: "live ?r i" and f: "?f = fd (g_events ?r ! i)"
    using u(2) l i by (simp_all add: upd_event_nth stored_def)
  let ?r1 = "eventadd True EPOLLOUT i (eventset i ?f Senddata i (now x) (eventdel True i ?r))"
  note d = rearm_sel [OF u(1) l1 f, of True EPOLLOUT Senddata "now x" True]
  have g: "g_events ?r1 ! i = (stored bs (g_events r ! i))\<lparr>fd := ?f, call_back := Senddata, events := EPOLLOUT, arg := i,
      status := 1, last_active := now x\<rparr>"
    using d(1) [of i] i by (simp add: upd_event_nth)
  have r1: "run_handler i x r = Inr ?r1" "interest ?r1 ?f = Some (i, EPOLLOUT)" "wire ?r1 = wire r"
    using recvdata_got [OF t l assms(4,5,6)] liveD(2) [OF t l] assms(3,8,9) d(4,5) by (simp_all add: run_handler_def)
  let ?n = "min (sends y) (int (length bs))"
  let ?w = "?r1\<lparr>wire := wire r @ [(?f, take (nat ?n) (buf (g_events ?r1 ! i)))]\<rparr>"
  have n: "0 < ?n"
    using assms(5,7) by simp
  have "length (buf (g_events r ! i)) = BUFLEN"
    by (rule liveD(5) [OF t l])
  then have b: "take (nat ?n) (buf (g_events ?r1 ! i)) = take (nat (sends y)) bs"
    using assms(6,7) by (simp add: g stored_def min_def take_update_cancel)
  have i': "i < MAX_EVENTS"
    using liveD(1) [OF t l] assms(3) i(1) by (auto simp: mode_ok_def split: if_splits)
  have k: "table_ok True ?r1" "live ?r1 i"
    using recvdata_arms [OF t l i' assms(3,5,6) refl refl] by (simp_all add: keeps_def)
  have w: "table_ok True ?w" "live ?w i" "?f = fd (g_events ?w ! i)"
    using table_same [OF k(1), of ?w] k(2) g by simp_all
  note d2 = rearm_sel [OF w, of True EPOLLIN Recvdata "now y" True]
  have "run_handler i y ?r1 = Inr (eventadd True EPOLLIN i (eventset i ?f Recvdata i (now y) (eventdel True i ?w)))"
    using n assms(7,10,11) r1(3) by (simp add: run_handler_def g senddata_def Let_def stored_def)
  then show ?thesis
    using r1 b d2(1) [of i] d2(4,5) by auto
qed


theorem reactor_faults_exactly_witness:
  "(let q = (0, EPOLLIN, input (Got (replicate 128 7)), input Peer_closed); b = [q] in
     batch_ok b one_client \<and> dispatch b one_client = Inl OutOfBounds) \<and>
   (let b = [(0, EPOLLIN, input (Got (replicate 127 7)), input Peer_closed)] in \<exists>s. dispatch b one_client = Inr s)"
proof -
  obtain c where c: "(reactor_step False)\<^sup>*\<^sup>* (0, reactor_start True 0) (c, one_client)"
    using one_client_reachable by blast
  have e: "last_active (g_events one_client ! j) = 0" if "live one_client j" for j
    using that start_sel(1) [of 0 j] by (simp add: one_client_eq live_def arm_sel start_sel(2-) fresh_event_def split: if_splits)
  have "snd (sweep n c 0 one_client) = one_client" if "c \<le> MAX_EVENTS" for n c
    using that by (induction n c "0 :: int" one_client rule: sweep.induct) (auto simp: Let_def live_def e MAX_EVENTS_def)
  then obtain c' where s: "sweep 100 c 0 one_client = (c', one_client)"
    using reachable_ok [OF c] by (metis prod.collapse)
  have b: "batch_ok [(0, EPOLLIN, x, y)] one_client" for x y
    by (simp add: batch_ok_def one_client_sel(1) exI [of _ 5])
  have "fills one_client (0, EPOLLIN, input (Got (replicate n 7)), y) \<longleftrightarrow> BUFLEN \<le> n" for n y
    by (simp add: fills_def overruns_def one_client_sel(3) input_def EPOLLIN_def)
  then show ?thesis
    unfolding Let_def
    using reactor_faults_exactly [OF c s b, of "input (Got (replicate 128 7))" "input Peer_closed"]
      reactor_faults_exactly [OF c s b, of "input (Got (replicate 127 7))" "input Peer_closed"] b
    by (simp add: BUFLEN_def del: dispatch.simps)
qed

theorem reactor_echoes_witness:
  "\<exists>r1 r2. run_handler 0 (input (Got [104, 105])) one_client = Inr r1 \<and>
    run_handler 0 (input Peer_closed) r1 = Inr r2 \<and> wire r2 = wire one_client @ [(5, [104, 105])]"
proof -
  obtain c where c: "(reactor_step True)\<^sup>*\<^sup>* (0, reactor_start True 0) (c, one_client)"
    using one_client_reachable by blast
  show ?thesis
    using reactor_echoes [OF c one_client_sel(2,3), of "input (Got [104, 105])" "[104, 105]" "input Peer_closed"]
    by (auto simp: input_def BUFLEN_def one_client_sel(4))
qed

end
