(* ===== verification/EchoWorld.thy ===== *)
theory EchoWorld
  imports Prelude "HOL-Library.Word" "HOL-Library.Multiset"
begin

text \<open>
  What the multiplexing echo servers of \<open>network/socket/codes/echo\<close> share.

  \<^item> \<open>world\<close>: the open descriptors, what was sent on which of them (\<open>wire\<close>) and what the screen shows.
    A new descriptor is the lowest unused one.
  \<^item> \<open>round_in\<close>: the inputs of one round of a main loop: what the waiting call returns (\<open>Returned\<close> with the set
    of readable descriptors, an interruption or an error), whether \<open>accept\<close> succeeds, what \<open>read\<close> returns for a
    descriptor (\<open>None\<close> is \<open>-1\<close>, \<open>Some []\<close> is 0) and what an uninitialised buffer holds.
  \<^item> \<open>setup_calls\<close>: which of the calls in front of the loop succeed.
  \<^item> \<open>halt\<close>: how a server ends: one constructor for the \<open>ERR_EXIT\<close>s of the set-up and one for each of the others, a descriptor that does not fit an \<open>fd_set\<close>, and
    a string printed without its end (the last two are undefined behaviour).
  \<^item> \<open>answer\<close>: the lines every server has for a chunk: print the buffer, write all of it back.
\<close>

datatype shown = Peer | Client_close | Text "8 word list"

record world =
  opened :: "nat list"
  wire :: "(nat \<times> 8 word list) list"
  screen :: "shown list"

datatype wait_result = Interrupted | Wait_failed | Returned

record round_in =
  outcome :: wait_result
  readable :: "nat \<Rightarrow> bool"
  accept_ok :: bool
  reads :: "nat \<Rightarrow> 8 word list option"
  junk :: "nat \<Rightarrow> 8 word list"

datatype halt = Setup_exit | Wait_exit | Accept_exit | Full_exit | Read_exit | Fd_out_of_set | Unterminated

record setup_calls =
  limit_ok :: bool
  socket_ok :: bool
  reuse_ok :: bool
  bind_ok :: bool
  listen_ok :: bool
  epoll_create_ok :: bool
  epoll_add_ok :: bool

definition RECV_BUF :: nat where
  "RECV_BUF = 1024"

definition open_peer :: "world \<Rightarrow> nat \<times> world" where
  "open_peer w = (let c = lowest_unused (opened w) in (c, w\<lparr>opened := opened w @ [c], screen := screen w @ [Peer]\<rparr>))"

definition close_peer :: "nat \<Rightarrow> world \<Rightarrow> world" where
  "close_peer c w = w\<lparr>opened := filter (\<lambda>n. n \<noteq> c) (opened w), screen := screen w @ [Client_close]\<rparr>"

text \<open>The buffer after \<open>read\<close> has put at most its size into it.\<close>

definition filled :: "8 word list \<Rightarrow> 8 word list \<Rightarrow> 8 word list" where
  "filled bs old = take RECV_BUF bs @ drop (length (take RECV_BUF bs)) old"

definition answer :: "nat \<Rightarrow> 8 word list \<Rightarrow> world \<Rightarrow> halt + world" where
  "answer c b w =
     (if 0 \<notin> set b then Inl Unterminated
      else Inr (w\<lparr>screen := screen w @ [Text (takeWhile (\<lambda>x. x \<noteq> 0) b)], wire := wire w @ [(c, b)]\<rparr>))"

text \<open>The search for a free place, from place \<open>i\<close>, over at most \<open>n\<close>; \<open>i + n\<close> when there is none.\<close>

fun free_place :: "nat option list \<Rightarrow> nat \<Rightarrow> nat \<Rightarrow> nat" where
  "free_place ts i 0 = i"
| "free_place ts i (Suc n) = (if ts ! i = None then i else free_place ts (Suc i) n)"

subsection \<open>Lemmas\<close>

lemma free_place_bounds: "i \<le> free_place ts i n \<and> free_place ts i n \<le> i + n"
  by (induction ts i n rule: free_place.induct) auto

lemma free_place_found: "free_place ts i n < i + n \<Longrightarrow> ts ! free_place ts i n = None"
  by (induction ts i n rule: free_place.induct) (auto split: if_splits)

lemma free_place_first: "i \<le> j \<Longrightarrow> j < free_place ts i n \<Longrightarrow> ts ! j \<noteq> None"
proof (induction ts i n rule: free_place.induct)
  case (2 ts i n)
  then show ?case
    by (cases "i = j") (auto split: if_splits)
qed simp

lemma free_place_eqI:
  "ts ! k = None \<Longrightarrow> \<forall>j\<in>{i..<k}. ts ! j \<noteq> None \<Longrightarrow> i \<le> k \<Longrightarrow> k < i + n \<Longrightarrow> free_place ts i n = k"
proof (induction ts i n rule: free_place.induct)
  case (2 ts i n)
  then show ?case
    by (cases "i = k") auto
qed simp

lemma open_peer_sel [simp]:
  "fst (open_peer w) = lowest_unused (opened w)" "opened (snd (open_peer w)) = opened w @ [lowest_unused (opened w)]"
  "wire (snd (open_peer w)) = wire w" "screen (snd (open_peer w)) = screen w @ [Peer]"
  by (simp_all add: open_peer_def Let_def)

lemma close_peer_sel [simp]:
  "opened (close_peer c w) = filter (\<lambda>n. n \<noteq> c) (opened w)" "wire (close_peer c w) = wire w"
  by (simp_all add: close_peer_def)

lemma answer_Inr:
  "answer c b w = Inr w' \<Longrightarrow> opened w' = opened w \<and> wire w' = wire w @ [(c, b)] \<and> 0 \<in> set b"
  by (auto simp: answer_def split: if_splits)

text \<open>What went out: buffers of full size that begin with a chunk read from the same descriptor.\<close>

definition padded :: "round_in list \<Rightarrow> (nat \<times> 8 word list) list \<Rightarrow> bool" where
  "padded xs ws \<longleftrightarrow> (\<forall>(c, b)\<in>set ws. length b = RECV_BUF \<and>
     (\<exists>x\<in>set xs. \<exists>bs. reads x c = Some bs \<and> bs \<noteq> [] \<and> take (length bs) b = take RECV_BUF bs))"

lemma padded_answer:
  assumes "answer c (filled bs old) w = Inr w'" "padded xs (wire w)" "x \<in> set xs" "reads x c = Some bs" "bs \<noteq> []"
    "length old = RECV_BUF"
  shows "padded xs (wire w')"
proof -
  have "length (filled bs old) = RECV_BUF" "take (length bs) (filled bs old) = take RECV_BUF bs"
    using assms(6) by (auto simp: filled_def min_def)
  then have "padded xs [(c, filled bs old)]"
    using assms(3,4,5) by (auto simp: padded_def)
  then show ?thesis
    using assms(2) answer_Inr [OF assms(1)] by (simp add: padded_def ball_Un)
qed

end
