(* ===== verification/SelectServer.thy ===== *)
theory SelectServer
  imports EchoWorld
begin

text \<open>
  \<open>network/socket/codes/echo/select_server.c\<close>: the echo server that waits with \<open>select\<close>. \<open>allset\<close> holds the
  members of the \<open>fd_set\<close> of that name, \<open>client_sockets\<close> the array (\<open>None\<close> is \<open>-1\<close>). The program does not clear
  \<open>allset\<close> before its first use: what the memory held is an argument of \<open>sel_start\<close>. The address of the peer and
  the signal handler for processes that never exist are left out.
\<close>

definition FD_SETSIZE :: nat where
  "FD_SETSIZE = 1024"

record sel_server =
  sockfd :: nat
  allset :: "nat list"
  client_sockets :: "nat option list"
  max_pos :: nat
  maxfd :: nat
  wld :: world

definition sel_start :: "nat list \<Rightarrow> sel_server" where
  "sel_start stale = \<lparr>sockfd = 3, allset = List.insert 3 stale, client_sockets = replicate FD_SETSIZE None, max_pos = 0,
     maxfd = 3, wld = \<lparr>opened = [0, 1, 2, 3], wire = [], screen = []\<rparr>\<rparr>"

definition sel_accept :: "bool \<Rightarrow> sel_server \<Rightarrow> halt + sel_server" where
  "sel_accept ok s =
     (if \<not> ok then Inl Accept_exit
      else let (c, w) = open_peer (wld s);
               s = s\<lparr>wld := w\<rparr>;
               i = free_place (client_sockets s) 0 FD_SETSIZE;
               s = (if i < FD_SETSIZE
                    then s\<lparr>client_sockets := (client_sockets s)[i := Some c], max_pos := max (max_pos s) i\<rparr> else s)
        in if i = FD_SETSIZE then Inl Full_exit
           else if FD_SETSIZE \<le> c then Inl Fd_out_of_set
           else Inr (s\<lparr>allset := List.insert c (allset s), maxfd := max (maxfd s) c\<rparr>))"

text \<open>The inner loop that takes a closed descriptor out of the array.\<close>

fun forget :: "nat \<Rightarrow> nat option list \<Rightarrow> nat \<Rightarrow> nat \<Rightarrow> nat option list" where
  "forget c ts i 0 = ts"
| "forget c ts i (Suc n) = (if ts ! i = Some c then ts[i := None] else forget c ts (Suc i) n)"

definition sel_drop :: "nat \<Rightarrow> sel_server \<Rightarrow> sel_server" where
  "sel_drop c s = s\<lparr>allset := removeAll c (allset s), client_sockets := forget c (client_sockets s) 0 (Suc (max_pos s)),
     wld := close_peer c (wld s)\<rparr>"

text \<open>The loop over the clients: the first argument is the number of places still to be looked at.\<close>

fun sel_clients :: "nat \<Rightarrow> nat \<Rightarrow> nat \<Rightarrow> nat list \<Rightarrow> round_in \<Rightarrow> sel_server \<Rightarrow> halt + sel_server" where
  "sel_clients 0 i nready rset x s = Inr s"
| "sel_clients (Suc n) i nready rset x s =
     (case client_sockets s ! i of
        None \<Rightarrow> sel_clients n (Suc i) nready rset x s
      | Some c \<Rightarrow>
          if c \<notin> set rset then sel_clients n (Suc i) nready rset x s
          else case reads x c of
            None \<Rightarrow> Inl Read_exit
          | Some bs \<Rightarrow>
              if bs = [] then Inr (sel_drop c s)
              else bnd (answer c (filled bs (junk x c)) (wld s)) (\<lambda>w.
                let s = s\<lparr>wld := w\<rparr> in
                if nready - 1 = 0 then Inr s else sel_clients n (Suc i) (nready - 1) rset x s))"

definition sel_round :: "round_in \<Rightarrow> sel_server \<Rightarrow> halt + sel_server" where
  "sel_round x s =
     (case outcome x of
        Interrupted \<Rightarrow> Inr s
      | Wait_failed \<Rightarrow> Inl Wait_exit
      | Returned \<Rightarrow>
          let rset = filter (\<lambda>c. c < Suc (maxfd s) \<and> readable x c) (allset s); nready = length rset in
          if nready = 0 then Inr s
          else if sockfd s \<in> set rset
          then bnd (sel_accept (accept_ok x) s) (\<lambda>s.
            if nready - 1 = 0 then Inr s else sel_clients (Suc (max_pos s)) 0 (nready - 1) rset x s)
          else sel_clients (Suc (max_pos s)) 0 nready rset x s)"

fun sel_run :: "round_in list \<Rightarrow> sel_server \<Rightarrow> halt + sel_server" where
  "sel_run [] s = Inr s"
| "sel_run (x # xs) s = bnd (sel_round x s) (sel_run xs)"

definition select_main :: "setup_calls \<Rightarrow> nat list \<Rightarrow> round_in list \<Rightarrow> halt + sel_server" where
  "select_main calls stale xs =
     (if \<not> socket_ok calls then Inl Setup_exit
      else if \<not> reuse_ok calls then Inl Setup_exit
      else if \<not> bind_ok calls then Inl Setup_exit
      else if \<not> listen_ok calls then Inl Setup_exit
      else sel_run xs (sel_start stale))"

end
