(* ===== verification/PollServer.thy ===== *)
theory PollServer
  imports EchoWorld
begin

text \<open>
  \<open>network/socket/codes/echo/poll_server.c\<close>: the echo server that waits with \<open>poll\<close>. The array
  \<open>client_sockets\<close> holds the listening descriptor at place 0 and the clients behind it. \<open>pfd\<close>, \<open>wants\<close> and
  \<open>revents\<close> are the members of a \<open>struct pollfd\<close>: the descriptor (\<open>None\<close> is \<open>-1\<close>) and the \<open>POLLIN\<close> bits of
  \<open>events\<close> and \<open>revents\<close>. The program sets the descriptors only: what the memory held in the other members is an
  argument of \<open>poll_start\<close>. The variables of the program carry a prefix \<open>p_\<close>, since \<open>select_server.c\<close> uses the
  same names.
\<close>

definition MAX_TOTAL :: nat where
  "MAX_TOTAL = 2048"

record pollfd =
  pfd :: "nat option"
  wants :: bool
  revents :: bool

record poll_server =
  p_sockfd :: nat
  p_client_sockets :: "pollfd list"
  p_max_pos :: nat
  p_wld :: world

definition poll_start :: "(nat \<Rightarrow> bool \<times> bool) \<Rightarrow> poll_server" where
  "poll_start stale = \<lparr>p_sockfd = 3,
     p_client_sockets = (map (\<lambda>i. \<lparr>pfd = None, wants = fst (stale i), revents = snd (stale i)\<rparr>) [0..<MAX_TOTAL])
       [0 := \<lparr>pfd = Some 3, wants = True, revents = snd (stale 0)\<rparr>],
     p_max_pos = 0, p_wld = \<lparr>opened = [0, 1, 2, 3], wire = [], screen = []\<rparr>\<rparr>"

text \<open>The call: it looks at the first \<open>n\<close> places, and a negative descriptor gets no events.\<close>

definition sys_poll :: "round_in \<Rightarrow> nat \<Rightarrow> pollfd list \<Rightarrow> nat \<times> pollfd list" where
  "sys_poll x n ts =
     (let seen = map (\<lambda>p. p\<lparr>revents := (case pfd p of None \<Rightarrow> False | Some c \<Rightarrow> wants p \<and> readable x c)\<rparr>) (take n ts)
      in (length (filter revents seen), seen @ drop n ts))"

definition poll_accept :: "bool \<Rightarrow> poll_server \<Rightarrow> halt + poll_server" where
  "poll_accept ok s =
     (if \<not> ok then Inl Accept_exit
      else let (c, w) = open_peer (p_wld s);
               s = s\<lparr>p_wld := w\<rparr>;
               i = free_place (map pfd (p_client_sockets s)) 0 MAX_TOTAL
        in if i < MAX_TOTAL
           then Inr (s\<lparr>p_client_sockets := (p_client_sockets s)[i := (p_client_sockets s ! i)\<lparr>pfd := Some c, wants := True\<rparr>],
             p_max_pos := max (p_max_pos s) i\<rparr>)
           else Inr s)"

definition poll_drop :: "nat \<Rightarrow> nat \<Rightarrow> poll_server \<Rightarrow> poll_server" where
  "poll_drop i c s = s\<lparr>p_client_sockets := (p_client_sockets s)[i := (p_client_sockets s ! i)\<lparr>pfd := None\<rparr>],
     p_wld := close_peer c (p_wld s)\<rparr>"

text \<open>The loop over the clients: the first argument is the number of places still to be looked at.\<close>

fun poll_clients :: "nat \<Rightarrow> nat \<Rightarrow> nat \<Rightarrow> round_in \<Rightarrow> poll_server \<Rightarrow> halt + poll_server" where
  "poll_clients 0 i nready x s = Inr s"
| "poll_clients (Suc n) i nready x s =
     (case pfd (p_client_sockets s ! i) of
        None \<Rightarrow> poll_clients n (Suc i) nready x s
      | Some c \<Rightarrow>
          if \<not> revents (p_client_sockets s ! i) then poll_clients n (Suc i) nready x s
          else case reads x c of
            None \<Rightarrow> Inl Read_exit
          | Some bs \<Rightarrow>
              if bs = [] then Inr (poll_drop i c s)
              else bnd (answer c (filled bs (junk x c)) (p_wld s)) (\<lambda>w.
                let s = s\<lparr>p_wld := w\<rparr> in
                if nready - 1 = 0 then Inr s else poll_clients n (Suc i) (nready - 1) x s))"

definition poll_round :: "round_in \<Rightarrow> poll_server \<Rightarrow> halt + poll_server" where
  "poll_round x s =
     (case outcome x of
        Interrupted \<Rightarrow> Inr s
      | Wait_failed \<Rightarrow> Inl Wait_exit
      | Returned \<Rightarrow>
          let (nready, ts) = sys_poll x (Suc (p_max_pos s)) (p_client_sockets s); s = s\<lparr>p_client_sockets := ts\<rparr> in
          if nready = 0 then Inr s
          else if revents (p_client_sockets s ! 0)
          then bnd (poll_accept (accept_ok x) s) (\<lambda>s.
            if nready - 1 = 0 then Inr s else poll_clients (p_max_pos s) 1 (nready - 1) x s)
          else poll_clients (p_max_pos s) 1 nready x s)"

fun poll_run :: "round_in list \<Rightarrow> poll_server \<Rightarrow> halt + poll_server" where
  "poll_run [] s = Inr s"
| "poll_run (x # xs) s = bnd (poll_round x s) (poll_run xs)"

definition poll_main :: "setup_calls \<Rightarrow> (nat \<Rightarrow> bool \<times> bool) \<Rightarrow> round_in list \<Rightarrow> halt + poll_server" where
  "poll_main calls stale xs =
     (if \<not> limit_ok calls then Inl Setup_exit
      else if \<not> socket_ok calls then Inl Setup_exit
      else if \<not> reuse_ok calls then Inl Setup_exit
      else if \<not> bind_ok calls then Inl Setup_exit
      else if \<not> listen_ok calls then Inl Setup_exit
      else poll_run xs (poll_start stale))"

end
