(* ===== verification/SelectPoll.thy ===== *)
theory SelectPoll
  imports SelectServer PollServer
begin

text \<open>
  The two servers do the same. \<open>agree\<close> relates their states: same descriptors and effects, and the clients of the one
  array are those of the other, one place further on. Given the same inputs, each step of the one is matched by the
  other (\<open>accept_agrees\<close>, \<open>drop_agrees\<close>, \<open>clients_agree\<close>, \<open>round_agrees\<close>), as long as the descriptors fit an
  \<open>fd_set\<close>.
\<close>

subsection \<open>The clients of an array\<close>

fun members :: "nat option list \<Rightarrow> nat list" where
  "members [] = []"
| "members (None # ts) = members ts"
| "members (Some c # ts) = c # members ts"

lemma members_append: "members (xs @ ys) = members xs @ members ys"
  by (induction xs rule: members.induct) auto

lemma set_members: "c \<in> set (members ts) \<longleftrightarrow> Some c \<in> set ts"
  by (induction ts rule: members.induct) auto

lemma members_none: "\<forall>t\<in>set ts. t = None \<Longrightarrow> members ts = []"
  by (induction ts rule: members.induct) auto

lemma members_split: "i < length ts \<Longrightarrow> members ts = members (take i ts) @ members [ts ! i] @ members (drop (Suc i) ts)"
  by (metis Cons_nth_drop_Suc append_Cons append_Nil append_take_drop_id members_append)

lemma members_put: "i < length ts \<Longrightarrow> ts ! i = None \<Longrightarrow> mset (members (ts[i := Some c])) = add_mset c (mset (members ts))"
  by (simp add: members_split [of i ts] members_split [of i "ts[i := Some c]"])

lemma members_take_out: "i < length ts \<Longrightarrow> ts ! i = Some c \<Longrightarrow> add_mset c (mset (members (ts[i := None]))) = mset (members ts)"
  by (simp add: members_split [of i ts] members_split [of i "ts[i := None]"])

lemma members_distinct_nth:
  assumes "distinct (members ts)" "i < length ts" "j < length ts" "ts ! i = Some c" "ts ! j = Some c"
  shows "i = j"
proof (rule ccontr)
  assume "i \<noteq> j"
  then have "ts[i := None] ! j = Some c"
    using assms(5) by simp
  then have "c \<in> set (members (ts[i := None]))"
    using assms(3) by (metis length_list_update nth_mem set_members)
  moreover have "c \<notin> set (members (ts[i := None]))"
    using assms(1) mset_eq_imp_distinct_iff [of "c # members (ts[i := None])" "members ts"] members_take_out [OF assms(2,4)]
    by simp
  ultimately show False
    by simp
qed

lemma forget_eq:
  "ts ! k = Some c \<Longrightarrow> \<forall>j\<in>{i..<k}. ts ! j \<noteq> Some c \<Longrightarrow> i \<le> k \<Longrightarrow> k < i + n \<Longrightarrow> forget c ts i n = ts[k := None]"
proof (induction c ts i n rule: forget.induct)
  case (2 c ts i n)
  then show ?case
    by (cases "i = k") auto
qed simp

subsection \<open>The relation\<close>

definition table_agrees :: "nat option list \<Rightarrow> pollfd list \<Rightarrow> nat \<Rightarrow> bool" where
  "table_agrees cs ts l \<longleftrightarrow> length cs = FD_SETSIZE \<and> length ts = MAX_TOTAL \<and>
     pfd (ts ! 0) = Some l \<and> wants (ts ! 0) \<and>
     (\<forall>i<FD_SETSIZE. pfd (ts ! Suc i) = cs ! i) \<and> (\<forall>i<MAX_TOTAL. FD_SETSIZE < i \<longrightarrow> pfd (ts ! i) = None) \<and>
     (\<forall>i<MAX_TOTAL. pfd (ts ! i) \<noteq> None \<longrightarrow> wants (ts ! i))"

definition allset_ok :: "sel_server \<Rightarrow> bool" where
  "allset_ok s \<longleftrightarrow> mset (allset s) = add_mset (sockfd s) (mset (members (client_sockets s))) \<and> distinct (allset s) \<and>
     set (allset s) \<subseteq> set (opened (wld s)) \<and> (\<forall>c\<in>set (allset s). c \<le> maxfd s) \<and>
     (\<forall>i<FD_SETSIZE. max_pos s < i \<longrightarrow> client_sockets s ! i = None)"

definition agree :: "sel_server \<Rightarrow> poll_server \<Rightarrow> bool" where
  "agree s p \<longleftrightarrow> p_sockfd p = sockfd s \<and> p_wld p = wld s \<and> allset_ok s \<and>
     table_agrees (client_sockets s) (p_client_sockets p) (sockfd s) \<and>
     (p_max_pos p = Suc (max_pos s) \<or> p_max_pos p = 0 \<and> max_pos s = 0 \<and> client_sockets s ! 0 = None) \<and>
     p_max_pos p \<le> FD_SETSIZE \<and>
     (\<forall>i<MAX_TOTAL. p_max_pos p < i \<longrightarrow> \<not> revents (p_client_sockets p ! i))"

text \<open>During the loop over the clients: the events of the one are the set of the other.\<close>

definition marked :: "sel_server \<Rightarrow> poll_server \<Rightarrow> nat list \<Rightarrow> bool" where
  "marked s p rset \<longleftrightarrow> (\<forall>i<FD_SETSIZE. \<forall>c. client_sockets s ! i = Some c \<longrightarrow>
     (revents (p_client_sockets p ! Suc i) \<longleftrightarrow> c \<in> set rset))"

definition quiet :: "poll_server \<Rightarrow> bool" where
  "quiet p \<longleftrightarrow> (\<forall>i<MAX_TOTAL. pfd (p_client_sockets p ! i) = None \<longrightarrow> \<not> revents (p_client_sockets p ! i))"

lemma sizes: "Suc FD_SETSIZE < MAX_TOTAL" "0 < FD_SETSIZE"
  by (simp_all add: FD_SETSIZE_def MAX_TOTAL_def)

lemma allset_members: "allset_ok s \<Longrightarrow> set (allset s) = insert (sockfd s) (set (members (client_sockets s)))"
  unfolding allset_ok_def by (metis set_mset_add_mset_insert set_mset_mset)

lemma members_distinct: "allset_ok s \<Longrightarrow> distinct (members (client_sockets s)) \<and> sockfd s \<notin> set (members (client_sockets s))"
  using mset_eq_imp_distinct_iff [of "allset s" "sockfd s # members (client_sockets s)"] by (simp add: allset_ok_def)


subsection \<open>The steps\<close>

lemma drop_agrees:
  assumes a: "agree s p" and i: "i < FD_SETSIZE" "i \<le> max_pos s" and c: "client_sockets s ! i = Some c"
  shows "agree (sel_drop c s) (poll_drop (Suc i) c p)"
proof -
  note ok = a [unfolded agree_def, THEN conjunct2, THEN conjunct2, THEN conjunct1]
  have len: "length (client_sockets s) = FD_SETSIZE" and t: "table_agrees (client_sockets s) (p_client_sockets p) (sockfd s)"
    using a by (simp_all add: agree_def table_agrees_def)
  have si: "Suc i < MAX_TOTAL"
    using i sizes by simp
  have "client_sockets s ! j \<noteq> Some c" if "j < i" for j
    using members_distinct_nth [OF members_distinct [OF ok, THEN conjunct1], of j i c] that i c len by auto
  then have f: "forget c (client_sockets s) 0 (Suc (max_pos s)) = (client_sockets s)[i := None]"
    using forget_eq [OF c, of 0 "Suc (max_pos s)"] i by auto
  let ?cs = "(client_sockets s)[i := None]"
  have drop: "sel_drop c s = s\<lparr>allset := removeAll c (allset s), client_sockets := ?cs, wld := close_peer c (wld s)\<rparr>"
    by (simp only: sel_drop_def f)
  have m: "add_mset c (mset (members ?cs)) = mset (members (client_sockets s))"
    using members_take_out [of i "client_sockets s" c] i c len by simp
  have d: "distinct (allset s)" "mset (allset s) = add_mset (sockfd s) (mset (members (client_sockets s)))"
    using ok by (simp_all add: allset_ok_def)
  have "c \<in> set (allset s)"
    using m allset_members [OF ok] by (metis insertCI set_mset_add_mset_insert set_mset_mset)
  then have "add_mset c (mset (removeAll c (allset s))) = mset (allset s)"
    using d(1) by (simp add: distinct_remove1_removeAll [symmetric])
  then have "mset (removeAll c (allset s)) = add_mset (sockfd s) (mset (members ?cs))"
    using d(2) m by (metis add_mset_add_mset_same_iff add_mset_commute)
  moreover have "sockfd s \<noteq> c"
    using members_distinct [OF ok] m by (metis set_mset_add_mset_insert set_mset_mset insertI1)
  ultimately have "allset_ok (sel_drop c s)"
    using ok i len by (auto simp: allset_ok_def drop nth_list_update distinct_removeAll)
  moreover have "table_agrees ?cs (p_client_sockets (poll_drop (Suc i) c p)) (sockfd s)"
    using t i si len by (auto simp: table_agrees_def poll_drop_def nth_list_update)
  ultimately show ?thesis
    using a i si len t c by (auto simp: agree_def drop poll_drop_def nth_list_update)
qed

lemma clients_agree:
  "agree s p \<Longrightarrow> marked s p rset \<Longrightarrow> i + n \<le> Suc (max_pos s) \<Longrightarrow> i + n \<le> FD_SETSIZE \<Longrightarrow>
    rel_sum (=) agree (sel_clients n i nready rset x s) (poll_clients n (Suc i) nready x p)"
proof (induction n i nready rset x s arbitrary: p rule: sel_clients.induct)
  case (2 n i nready rset x s)
  have i: "i < FD_SETSIZE" "i \<le> max_pos s"
    using "2.prems"(3,4) by simp_all
  have c: "pfd (p_client_sockets p ! Suc i) = client_sockets s ! i" "p_wld p = wld s"
    using "2.prems"(1) i by (simp_all add: agree_def table_agrees_def)
  show ?case
  proof (cases "client_sockets s ! i")
    case None
    then show ?thesis
      using "2.IH"(1) [OF None "2.prems"(1,2)] "2.prems"(3,4) c by simp
  next
    case (Some c')
    then have r: "revents (p_client_sockets p ! Suc i) \<longleftrightarrow> c' \<in> set rset"
      using "2.prems"(2) i by (simp add: marked_def)
    show ?thesis
    proof (cases "c' \<in> set rset")
      case False
      then show ?thesis
        using "2.IH"(2) [OF Some False "2.prems"(1,2)] "2.prems"(3,4) c Some r by simp
    next
      case True
      have w: "agree (s\<lparr>wld := w\<rparr>) (p\<lparr>p_wld := w\<rparr>) \<and> marked (s\<lparr>wld := w\<rparr>) (p\<lparr>p_wld := w\<rparr>) rset"
        if "opened w = opened (wld s)" for w
        using "2.prems"(1,2) that by (simp add: agree_def allset_ok_def marked_def)
      show ?thesis
      proof (cases "reads x c'")
        case None
        then show ?thesis
          using Some True r c by simp
      next
        case (Some bs)
        note bs = this
        show ?thesis
        proof (cases "bs = [] \<or> (\<exists>e. answer c' (filled bs (junk x c')) (wld s) = Inl e)")
          case True
          then show ?thesis
            using \<open>client_sockets s ! i = Some c'\<close> \<open>c' \<in> set rset\<close> r c bs drop_agrees [OF "2.prems"(1) i] by auto
        next
          case False
          then obtain w where ans: "answer c' (filled bs (junk x c')) (wld s) = Inr w"
            by (metis sum.exhaust)
          then have ag: "agree (s\<lparr>wld := w\<rparr>) (p\<lparr>p_wld := w\<rparr>)" "marked (s\<lparr>wld := w\<rparr>) (p\<lparr>p_wld := w\<rparr>) rset"
            using w answer_Inr by blast+
          have "rel_sum (=) agree (sel_clients n (Suc i) (nready - 1) rset x (s\<lparr>wld := w\<rparr>))
              (poll_clients n (Suc (Suc i)) (nready - 1) x (p\<lparr>p_wld := w\<rparr>))" if "nready - 1 \<noteq> 0"
            using "2.IH"(3) [OF \<open>client_sockets s ! i = Some c'\<close> _ bs _ ans refl _ ag] \<open>c' \<in> set rset\<close> False "2.prems"(3,4) that
            by simp
          then show ?thesis
            using \<open>client_sockets s ! i = Some c'\<close> \<open>c' \<in> set rset\<close> r c bs False ans ag(1) by (simp add: Let_def)
        qed
      qed
    qed
  qed
qed simp


lemma sel_accept_eq:
  assumes "i = free_place (client_sockets s) 0 FD_SETSIZE" "i < FD_SETSIZE" "c = lowest_unused (opened (wld s))"
  shows "sel_accept ok s = (if \<not> ok then Inl Accept_exit else if FD_SETSIZE \<le> c then Inl Fd_out_of_set
    else Inr (s\<lparr>wld := snd (open_peer (wld s)), client_sockets := (client_sockets s)[i := Some c],
      max_pos := max (max_pos s) i, allset := List.insert c (allset s), maxfd := max (maxfd s) c\<rparr>))"
proof -
  obtain w where "open_peer (wld s) = (c, w)"
    using assms(3) by (metis open_peer_sel(1) prod.collapse)
  then show ?thesis
    using assms(1,2) unfolding sel_accept_def by (simp add: Let_def)
qed

lemma poll_accept_eq:
  assumes "i = free_place (map pfd (p_client_sockets p)) 0 MAX_TOTAL" "i < MAX_TOTAL" "c = lowest_unused (opened (p_wld p))"
  shows "poll_accept ok p = (if \<not> ok then Inl Accept_exit
    else Inr (p\<lparr>p_wld := snd (open_peer (p_wld p)),
      p_client_sockets := (p_client_sockets p)[i := (p_client_sockets p ! i)\<lparr>pfd := Some c, wants := True\<rparr>],
      p_max_pos := max (p_max_pos p) i\<rparr>))"
proof -
  obtain w where "open_peer (p_wld p) = (c, w)"
    using assms(3) by (metis open_peer_sel(1) prod.collapse)
  then show ?thesis
    using assms(1,2) unfolding poll_accept_def by (simp add: Let_def)
qed

lemma accept_agrees:
  assumes a: "agree s p" and q: "quiet p" and m: "marked s p rset" "set rset \<subseteq> set (opened (wld s))"
  shows "sel_accept ok s \<in> {Inl Full_exit, Inl Fd_out_of_set} \<or>
    rel_sum (=) (\<lambda>s p. agree s p \<and> marked s p rset) (sel_accept ok s) (poll_accept ok p)"
proof (cases "ok \<and> free_place (client_sockets s) 0 FD_SETSIZE < FD_SETSIZE")
  case False
  then have "\<not> ok \<or> sel_accept ok s = Inl Full_exit"
    using free_place_bounds [of 0 "client_sockets s" FD_SETSIZE] unfolding sel_accept_def
    by (auto simp: Let_def split: prod.splits)
  then show ?thesis
    by (auto simp: sel_accept_def poll_accept_def)
next
  case True
  let ?i = "free_place (client_sockets s) 0 FD_SETSIZE" and ?c = "lowest_unused (opened (wld s))"
  note ok = a [unfolded agree_def, THEN conjunct2, THEN conjunct2, THEN conjunct1]
  have len: "length (client_sockets s) = FD_SETSIZE" and t: "table_agrees (client_sockets s) (p_client_sockets p) (sockfd s)"
    and w: "p_wld p = wld s"
    using a by (simp_all add: agree_def table_agrees_def)
  have i: "?i < FD_SETSIZE" "Suc ?i < MAX_TOTAL"
    using True sizes by simp_all
  have n: "client_sockets s ! ?i = None"
    using free_place_found [of "client_sockets s" 0 FD_SETSIZE] i by simp
  have "free_place (map pfd (p_client_sockets p)) 0 MAX_TOTAL = Suc ?i"
  proof (rule free_place_eqI)
    show "map pfd (p_client_sockets p) ! Suc ?i = None"
      using t i n by (simp add: table_agrees_def)
    show "\<forall>j\<in>{0..<Suc ?i}. map pfd (p_client_sockets p) ! j \<noteq> None"
    proof
      fix j assume "j \<in> {0..<Suc ?i}"
      then show "map pfd (p_client_sockets p) ! j \<noteq> None"
        using t i free_place_first [of 0 "j - 1" "client_sockets s" FD_SETSIZE]
        by (cases j) (auto simp: table_agrees_def)
    qed
  qed (use i in simp_all)
  note sel = sel_accept_eq [OF refl i(1) refl, of ok] and poll = poll_accept_eq [OF this [symmetric] i(2), OF refl, of ok]
  have fresh: "?c \<notin> set (opened (wld s))"
    by (rule lowest_unused_fresh)
  then have "?c \<notin> set (allset s)" and r: "?c \<notin> set rset"
    using ok m(2) by (auto simp: allset_ok_def)
  let ?s = "s\<lparr>wld := snd (open_peer (wld s)), client_sockets := (client_sockets s)[?i := Some ?c],
    max_pos := max (max_pos s) ?i, allset := List.insert ?c (allset s), maxfd := max (maxfd s) ?c\<rparr>"
  let ?p = "p\<lparr>p_wld := snd (open_peer (p_wld p)), p_client_sockets := (p_client_sockets p)
    [Suc ?i := (p_client_sockets p ! Suc ?i)\<lparr>pfd := Some ?c, wants := True\<rparr>], p_max_pos := max (p_max_pos p) (Suc ?i)\<rparr>"
  have "allset_ok ?s"
    using ok i len members_put [OF _ n, of ?c] \<open>?c \<notin> set (allset s)\<close>
    by (auto simp: allset_ok_def le_max_iff_disj nth_list_update)
  moreover have "table_agrees (client_sockets ?s) (p_client_sockets ?p) (sockfd ?s)"
    using t i len by (auto simp: table_agrees_def nth_list_update)
  ultimately have "agree ?s ?p"
    using a i w by (auto simp: agree_def max_def nth_list_update)
  moreover have "\<not> revents (p_client_sockets p ! Suc ?i)"
    using q t i n by (simp add: quiet_def table_agrees_def)
  then have "marked ?s ?p rset"
    using m(1) t i len r by (auto simp: marked_def nth_list_update table_agrees_def)
  ultimately show ?thesis
    using sel poll w by simp
qed


lemma count_revents:
  "\<forall>p\<in>set ts. pfd p \<noteq> None \<longrightarrow> wants p \<Longrightarrow>
    length (filter revents (map (\<lambda>p. p\<lparr>revents := (case pfd p of None \<Rightarrow> False | Some c \<Rightarrow> wants p \<and> readable x c)\<rparr>) ts)) =
    length (filter (readable x) (members (map pfd ts)))"
proof (induction ts)
  case (Cons p ts)
  then show ?case
    by (cases "pfd p") auto
qed simp

lemma sys_poll_nth:
  assumes "sys_poll x n ts = (k, ts')" "j < length ts"
  shows "length ts' = length ts" "pfd (ts' ! j) = pfd (ts ! j)" "wants (ts' ! j) = wants (ts ! j)"
    "revents (ts' ! j) = (if j < n then (case pfd (ts ! j) of None \<Rightarrow> False | Some c \<Rightarrow> wants (ts ! j) \<and> readable x c)
       else revents (ts ! j))"
proof -
  define g where "g = (\<lambda>p :: pollfd. p\<lparr>revents := (case pfd p of None \<Rightarrow> False | Some c \<Rightarrow> wants p \<and> readable x c)\<rparr>)"
  have t: "ts' = map g (take n ts) @ drop n ts"
    using assms(1) by (auto simp: sys_poll_def Let_def g_def)
  then have j: "ts' ! j = (if j < n then g (ts ! j) else ts ! j)"
    using assms(2) by (simp add: nth_append)
  show "length ts' = length ts"
    by (simp add: t)
  show "pfd (ts' ! j) = pfd (ts ! j)" "wants (ts' ! j) = wants (ts ! j)"
    "revents (ts' ! j) = (if j < n then (case pfd (ts ! j) of None \<Rightarrow> False | Some c \<Rightarrow> wants (ts ! j) \<and> readable x c)
       else revents (ts ! j))"
    by (simp_all add: j g_def)
qed

lemma poll_agrees:
  assumes a: "agree s p" and y: "sys_poll x (Suc (p_max_pos p)) (p_client_sockets p) = (k, ts)"
    and r: "rset = filter (\<lambda>c. c < Suc (maxfd s) \<and> readable x c) (allset s)"
  shows "agree s (p\<lparr>p_client_sockets := ts\<rparr>)" "quiet (p\<lparr>p_client_sockets := ts\<rparr>)" "marked s (p\<lparr>p_client_sockets := ts\<rparr>) rset"
    "k = length rset" "revents (ts ! 0) \<longleftrightarrow> sockfd s \<in> set rset" "set rset \<subseteq> set (opened (wld s))"
proof -
  let ?cs = "client_sockets s" and ?ps = "p_client_sockets p" and ?m = "p_max_pos p"
  have ok: "allset_ok s" and t: "table_agrees ?cs ?ps (sockfd s)" and m: "?m \<le> FD_SETSIZE"
    using a by (simp_all add: agree_def)
  have len: "length ?cs = FD_SETSIZE" "length ?ps = MAX_TOTAL"
    using t by (simp_all add: table_agrees_def)
  note nth = sys_poll_nth [OF y, unfolded len]
  have l: "length ts = MAX_TOTAL"
    using nth(1) [of 0] sizes by simp
  have none: "?cs ! i = None" if "?m \<le> i" "i < FD_SETSIZE" for i
    using a ok that by (auto simp: agree_def allset_ok_def)
  have rs: "rset = filter (readable x) (allset s)"
    unfolding r using ok by (intro filter_cong) (auto simp: allset_ok_def less_Suc_eq_le)
  have t': "table_agrees ?cs ts (sockfd s)"
    using t l nth(2,3) sizes by (auto simp: table_agrees_def)
  then show "agree s (p\<lparr>p_client_sockets := ts\<rparr>)"
    using a nth(4) by (auto simp: agree_def)
  show "set rset \<subseteq> set (opened (wld s))"
    using ok by (auto simp: r allset_ok_def)
  show "quiet (p\<lparr>p_client_sockets := ts\<rparr>)"
    using a nth(2,4) by (auto simp: quiet_def agree_def not_less)
  show "marked s (p\<lparr>p_client_sockets := ts\<rparr>) rset"
  proof -
    have "revents (ts ! Suc i) \<longleftrightarrow> c \<in> set rset" if i: "i < FD_SETSIZE" and c: "?cs ! i = Some c" for i c
    proof -
      have "Suc i < MAX_TOTAL" "i < ?m" "pfd (?ps ! Suc i) = Some c" "wants (?ps ! Suc i)"
        using i c sizes none [of i] t by (auto simp: table_agrees_def not_less [symmetric])
      moreover have "c \<in> set (allset s)"
        using allset_members [OF ok] i c len by (metis insertCI nth_mem set_members)
      ultimately show ?thesis
        by (simp add: nth(4) rs)
    qed
    then show ?thesis
      by (simp add: marked_def)
  qed
  have "map pfd (take (Suc ?m) ?ps) = Some (sockfd s) # take ?m ?cs"
  proof (rule nth_equalityI)
    fix i assume "i < length (map pfd (take (Suc ?m) ?ps))"
    then show "map pfd (take (Suc ?m) ?ps) ! i = (Some (sockfd s) # take ?m ?cs) ! i"
      using t m sizes len by (cases i) (auto simp: table_agrees_def)
  qed (use len m sizes in simp)
  moreover have "\<forall>t\<in>set (drop ?m ?cs). t = None"
    using none len by (auto simp: in_set_conv_nth)
  then have "members ?cs = members (take ?m ?cs)"
    using members_append [of "take ?m ?cs" "drop ?m ?cs"] members_none [of "drop ?m ?cs"] by simp
  moreover have "\<forall>q\<in>set (take (Suc ?m) ?ps). pfd q \<noteq> None \<longrightarrow> wants q"
    using t by (auto simp: table_agrees_def in_set_conv_nth)
  ultimately have "k = length (filter (readable x) (sockfd s # members ?cs))"
    using count_revents [of "take (Suc ?m) ?ps" x] y by (simp add: sys_poll_def Let_def)
  moreover have "size (filter_mset (readable x) (mset (allset s))) = length (filter (readable x) (sockfd s # members ?cs))"
    using ok by (simp add: allset_ok_def flip: mset_filter)
  then have "length rset = length (filter (readable x) (sockfd s # members ?cs))"
    by (simp add: rs flip: mset_filter)
  ultimately show "k = length rset"
    by simp
  show "revents (ts ! 0) \<longleftrightarrow> sockfd s \<in> set rset"
    using nth(4) [of 0] t sizes allset_members [OF ok] by (simp add: table_agrees_def rs)
qed

lemma clients_round:
  assumes "agree s p" "marked s p rset"
  shows "rel_sum (=) agree (sel_clients (Suc (max_pos s)) 0 nready rset x s) (poll_clients (p_max_pos p) 1 nready x p)"
proof (cases "p_max_pos p = Suc (max_pos s)")
  case True
  then show ?thesis
    using clients_agree [OF assms, of 0 "Suc (max_pos s)"] assms(1) by (simp add: agree_def)
next
  case False
  then show ?thesis
    using assms(1) by (auto simp: agree_def)
qed

lemma round_agrees:
  assumes "agree s p"
  shows "sel_round x s \<in> {Inl Full_exit, Inl Fd_out_of_set} \<or> rel_sum (=) agree (sel_round x s) (poll_round x p)"
proof (cases "outcome x")
  case Returned
  let ?rset = "filter (\<lambda>c. c < Suc (maxfd s) \<and> readable x c) (allset s)"
  obtain k ts where y: "sys_poll x (Suc (p_max_pos p)) (p_client_sockets p) = (k, ts)"
    by fastforce
  let ?p = "p\<lparr>p_client_sockets := ts\<rparr>"
  note r = poll_agrees [OF assms y refl]
  have p: "poll_round x p = (if k = 0 then Inr ?p
      else if revents (ts ! 0) then bnd (poll_accept (accept_ok x) ?p) (\<lambda>s.
        if k - 1 = 0 then Inr s else poll_clients (p_max_pos s) 1 (k - 1) x s)
      else poll_clients (p_max_pos ?p) 1 k x ?p)"
    by (simp add: poll_round_def Returned y Let_def)
  have s: "sel_round x s = (if k = 0 then Inr s
      else if revents (ts ! 0) then bnd (sel_accept (accept_ok x) s) (\<lambda>s.
        if k - 1 = 0 then Inr s else sel_clients (Suc (max_pos s)) 0 (k - 1) ?rset x s)
      else sel_clients (Suc (max_pos s)) 0 k ?rset x s)"
    by (simp only: sel_round_def Returned Let_def r(4,5) wait_result.case)
  show ?thesis
  proof (cases "k \<noteq> 0 \<and> revents (ts ! 0)")
    case True
    then show ?thesis
      using accept_agrees [OF r(1,2,3,6), of "accept_ok x"] clients_round
      by (cases "sel_accept (accept_ok x) s"; cases "poll_accept (accept_ok x) ?p") (auto simp: p s)
  next
    case False
    then show ?thesis
      using r(1) clients_round [OF r(1,3)] by (auto simp: p s)
  qed
qed (use assms in \<open>auto simp: sel_round_def poll_round_def\<close>)

lemma run_agrees:
  "agree s p \<Longrightarrow> sel_run xs s \<in> {Inl Full_exit, Inl Fd_out_of_set} \<or> rel_sum (=) agree (sel_run xs s) (poll_run xs p)"
proof (induction xs arbitrary: s p)
  case (Cons x xs)
  show ?case
    using round_agrees [OF Cons.prems, of x] Cons.IH
    by (cases "sel_round x s"; cases "poll_round x p") auto
qed simp

end
