(* ===== verification/EpollServer.thy ===== *)
theory EpollServer
  imports EchoWorld
begin

text \<open>
  \<open>network/socket/codes/echo/epoll_server.c\<close>: the echo server that waits with \<open>epoll\<close>. \<open>interest\<close> is the
  interest list of the \<open>epoll\<close> instance (descriptor 4). The events that \<open>epoll_wait\<close> returns are an input: any list of
  registered descriptors, each with its \<open>EPOLLIN\<close> bit and with the answer of the kernel to the \<open>epoll_ctl\<close> that
  may follow (is there the memory for it?). \<open>epoll_ctl\<close> also fails when a descriptor is added twice or deleted without
  being there; each failure ends the server. The buffer is cleared before each \<open>read\<close>.
\<close>

record ep_server =
  ep_sockfd :: nat
  interest :: "nat list"
  ep_wld :: world

datatype ep_halt = Ctl_exit | Ep_halt halt

definition lift_halt :: "halt + 'a \<Rightarrow> ep_halt + 'a" where
  "lift_halt m = (case m of Inl e \<Rightarrow> Inl (Ep_halt e) | Inr x \<Rightarrow> Inr x)"

type_synonym ep_event = "nat \<times> bool \<times> bool"

definition ctl_add :: "bool \<Rightarrow> nat \<Rightarrow> ep_server \<Rightarrow> ep_halt + ep_server" where
  "ctl_add mem c s = (if \<not> mem \<or> c \<in> set (interest s) then Inl Ctl_exit else Inr (s\<lparr>interest := interest s @ [c]\<rparr>))"

definition ctl_del :: "bool \<Rightarrow> nat \<Rightarrow> ep_server \<Rightarrow> ep_halt + ep_server" where
  "ctl_del mem c s = (if \<not> mem \<or> c \<notin> set (interest s) then Inl Ctl_exit else Inr (s\<lparr>interest := remove1 c (interest s)\<rparr>))"

definition ep_start :: ep_server where
  "ep_start = \<lparr>ep_sockfd = 3, interest = [3], ep_wld = \<lparr>opened = [0, 1, 2, 3, 4], wire = [], screen = []\<rparr>\<rparr>"

definition ep_accept :: "bool \<Rightarrow> bool \<Rightarrow> ep_server \<Rightarrow> ep_halt + ep_server" where
  "ep_accept ok mem s =
     (if \<not> ok then Inl (Ep_halt Accept_exit)
      else let (c, w) = open_peer (ep_wld s) in ctl_add mem c (s\<lparr>ep_wld := w\<rparr>))"

fun ep_events :: "ep_event list \<Rightarrow> round_in \<Rightarrow> ep_server \<Rightarrow> ep_halt + ep_server" where
  "ep_events [] x s = Inr s"
| "ep_events ((c, inp, mem) # evs) x s =
     (if \<not> inp then ep_events evs x s
      else if c = ep_sockfd s then bnd (ep_accept (accept_ok x) mem s) (ep_events evs x)
      else case reads x c of
        None \<Rightarrow> Inl (Ep_halt Read_exit)
      | Some bs \<Rightarrow>
          if bs = [] then bnd (ctl_del mem c s) (\<lambda>s. Inr (s\<lparr>ep_wld := close_peer c (ep_wld s)\<rparr>))
          else bnd (lift_halt (answer c (filled bs (replicate RECV_BUF 0)) (ep_wld s))) (\<lambda>w.
            ep_events evs x (s\<lparr>ep_wld := w\<rparr>)))"

definition ep_round :: "ep_event list \<Rightarrow> round_in \<Rightarrow> ep_server \<Rightarrow> ep_halt + ep_server" where
  "ep_round evs x s =
     (case outcome x of
        Interrupted \<Rightarrow> Inr s
      | Wait_failed \<Rightarrow> Inl (Ep_halt Wait_exit)
      | Returned \<Rightarrow> ep_events evs x s)"

fun ep_run :: "(ep_event list \<times> round_in) list \<Rightarrow> ep_server \<Rightarrow> ep_halt + ep_server" where
  "ep_run [] s = Inr s"
| "ep_run ((evs, x) # xs) s = bnd (ep_round evs x s) (ep_run xs)"

definition epoll_main :: "setup_calls \<Rightarrow> (ep_event list \<times> round_in) list \<Rightarrow> ep_halt + ep_server" where
  "epoll_main calls xs =
     (if \<not> limit_ok calls then Inl (Ep_halt Setup_exit)
      else if \<not> socket_ok calls then Inl (Ep_halt Setup_exit)
      else if \<not> reuse_ok calls then Inl (Ep_halt Setup_exit)
      else if \<not> bind_ok calls then Inl (Ep_halt Setup_exit)
      else if \<not> listen_ok calls then Inl (Ep_halt Setup_exit)
      else if \<not> epoll_create_ok calls then Inl (Ep_halt Setup_exit)
      else if \<not> epoll_add_ok calls then Inl Ctl_exit
      else ep_run xs ep_start)"

text \<open>What \<open>epoll_wait\<close> returns: at most ten events, of different registered descriptors.\<close>

definition ep_batch_ok :: "ep_event list \<Rightarrow> ep_server \<Rightarrow> bool" where
  "ep_batch_ok evs s \<longleftrightarrow> distinct (map fst evs) \<and> fst ` set evs \<subseteq> set (interest s) \<and> length evs \<le> 10"

fun ep_batches_ok :: "(ep_event list \<times> round_in) list \<Rightarrow> ep_server \<Rightarrow> bool" where
  "ep_batches_ok [] s \<longleftrightarrow> True"
| "ep_batches_ok ((evs, x) # xs) s \<longleftrightarrow> ep_batch_ok evs s \<and> (case ep_round evs x s of Inl e \<Rightarrow> True | Inr s' \<Rightarrow> ep_batches_ok xs s')"

subsection \<open>The interest list\<close>

definition ep_ok :: "ep_server \<Rightarrow> bool" where
  "ep_ok s \<longleftrightarrow> distinct (interest s) \<and> ep_sockfd s \<in> set (interest s) \<and> set (interest s) \<subseteq> set (opened (ep_wld s))"

lemma lift_halt_simps [simp]: "lift_halt (Inr x) = Inr x" "lift_halt (Inl e) = Inl (Ep_halt e)"
  by (simp_all add: lift_halt_def)

text \<open>How a server may end that still has its list: an \<open>epoll_ctl\<close> for want of memory, or anything else.\<close>

definition ctl_failed :: "ep_event list \<Rightarrow> bool" where
  "ctl_failed evs \<longleftrightarrow> (\<exists>(c, inp, mem)\<in>set evs. \<not> mem)"

lemma ctl_failed_simps [simp]:
  "\<not> ctl_failed []" "ctl_failed ((c, inp, mem) # evs) \<longleftrightarrow> \<not> mem \<or> ctl_failed evs"
  "ctl_failed (evs @ evs') \<longleftrightarrow> ctl_failed evs \<or> ctl_failed evs'"
  by (auto simp: ctl_failed_def)

lemma ep_accept_ok:
  assumes "ep_ok s"
  shows "ep_accept ok mem s = Inl (Ep_halt Accept_exit) \<or> \<not> mem \<and> ep_accept ok mem s = Inl Ctl_exit \<or>
    (\<exists>s'. ep_accept ok mem s = Inr s' \<and> ep_ok s' \<and>
      set (interest s) \<subseteq> set (interest s') \<and> ep_sockfd s' = ep_sockfd s \<and> wire (ep_wld s') = wire (ep_wld s))"
proof -
  obtain w where w: "open_peer (ep_wld s) = (lowest_unused (opened (ep_wld s)), w)"
    by (metis open_peer_sel(1) prod.collapse)
  have "opened w = opened (ep_wld s) @ [lowest_unused (opened (ep_wld s))]" "wire w = wire (ep_wld s)"
    using open_peer_sel(2,3) [of "ep_wld s"] w by simp_all
  moreover have "lowest_unused (opened (ep_wld s)) \<notin> set (interest s)"
    using assms lowest_unused_fresh by (auto simp: ep_ok_def)
  ultimately show ?thesis
    using assms by (auto simp: ep_accept_def ctl_add_def w ep_ok_def)
qed

lemma ep_close_ok:
  assumes "ep_ok s" "c \<in> set (interest s)" "c \<noteq> ep_sockfd s"
  shows "ep_ok (s\<lparr>interest := remove1 c (interest s), ep_wld := close_peer c (ep_wld s)\<rparr>)"
  using assms by (auto simp: ep_ok_def)

lemma ep_events_ok:
  "ep_ok s \<Longrightarrow> distinct (map fst evs) \<Longrightarrow> fst ` set evs \<subseteq> set (interest s) \<Longrightarrow>
    case ep_events evs x s of Inl e \<Rightarrow> e = Ctl_exit \<longrightarrow> ctl_failed evs | Inr s' \<Rightarrow> ep_ok s' \<and> ep_sockfd s' = ep_sockfd s \<and>
      (\<forall>xs. x \<in> set xs \<longrightarrow> padded xs (wire (ep_wld s)) \<longrightarrow> padded xs (wire (ep_wld s')))"
proof (induction evs x s rule: ep_events.induct)
  case (2 c inp mem evs x s)
  have c: "c \<in> set (interest s)" "fst ` set evs \<subseteq> set (interest s)" "distinct (map fst evs)"
    using "2.prems" by auto
  consider "\<not> inp" | "inp" "c = ep_sockfd s" | "inp" "c \<noteq> ep_sockfd s" "reads x c = None"
    | "inp" "c \<noteq> ep_sockfd s" "reads x c = Some []" | bs where "inp" "c \<noteq> ep_sockfd s" "reads x c = Some bs" "bs \<noteq> []"
    by (metis option.exhaust)
  then show ?case
  proof cases
    case 1
    then show ?thesis
      using "2.IH"(1) [OF _ "2.prems"(1) c(3,2)] by (auto split: sum.splits)
  next
    case 2
    show ?thesis
    proof (cases "ep_accept (accept_ok x) mem s")
      case (Inr s')
      then have "ep_ok s'" "fst ` set evs \<subseteq> set (interest s')" "ep_sockfd s' = ep_sockfd s" "wire (ep_wld s') = wire (ep_wld s)"
        using ep_accept_ok [OF "2.prems"(1), of "accept_ok x" mem] c by auto
      then show ?thesis
        using "2.IH"(2) [of s'] 2 c Inr by (auto split: sum.splits)
    qed (use ep_accept_ok [OF "2.prems"(1), of "accept_ok x" mem] 2 in auto)
  next
    case 4
    then show ?thesis
      using ep_close_ok [OF "2.prems"(1) c(1)] c by (simp add: ctl_del_def)
  next
    case 5
    show ?thesis
    proof (cases "answer c (filled bs (replicate RECV_BUF 0)) (ep_wld s)")
      case (Inr w)
      have "padded xs (wire w)" if "x \<in> set xs" "padded xs (wire (ep_wld s))" for xs
        using padded_answer [OF Inr that(2,1) 5(3,4)] by simp
      moreover have "ep_ok (s\<lparr>ep_wld := w\<rparr>)"
        using "2.prems"(1) answer_Inr [OF Inr] by (simp add: ep_ok_def)
      ultimately show ?thesis
        using "2.IH"(3) [OF _ _ 5(3,4), of w] 5 c Inr by (auto split: sum.splits)
    qed (use 5 in simp)
  qed simp
qed simp

lemma ep_run_ok:
  "ep_ok s \<Longrightarrow> ep_batches_ok xs s \<Longrightarrow> padded ys (wire (ep_wld s)) \<Longrightarrow> snd ` set xs \<subseteq> set ys \<Longrightarrow>
    case ep_run xs s of Inl e \<Rightarrow> e = Ctl_exit \<longrightarrow> ctl_failed (concat (map fst xs))
      | Inr s' \<Rightarrow> ep_ok s' \<and> padded ys (wire (ep_wld s'))"
proof (induction xs arbitrary: s)
  case (Cons p xs)
  obtain evs x where p: "p = (evs, x)"
    by fastforce
  have r: "case ep_round evs x s of Inl e \<Rightarrow> e = Ctl_exit \<longrightarrow> ctl_failed evs
      | Inr s' \<Rightarrow> ep_ok s' \<and> padded ys (wire (ep_wld s'))"
    using ep_events_ok [OF Cons.prems(1), of evs x] Cons.prems(2,3,4)
    by (cases "outcome x") (auto simp: ep_round_def p ep_batch_ok_def Cons.prems(1) split: sum.splits)
  show ?case
  proof (cases "ep_round evs x s")
    case (Inr s')
    then have "case ep_run xs s' of Inl e \<Rightarrow> e = Ctl_exit \<longrightarrow> ctl_failed (concat (map fst xs))
      | Inr s' \<Rightarrow> ep_ok s' \<and> padded ys (wire (ep_wld s'))"
      using Cons.IH [of s'] Cons.prems(2,4) r by (simp add: p)
    then show ?thesis
      using Inr by (auto simp: p split: sum.splits)
  qed (use r in \<open>simp add: p\<close>)
qed simp

end
