(* ===== verification/EchoProps.thy ===== *)
theory EchoProps
  imports SelectPoll EpollServer
begin

text \<open>
  The properties of the three multiplexing echo servers: the one with \<open>select\<close> and the one with \<open>poll\<close> behave the same
  (\<open>SelectPoll\<close>), and none of the three echoes: what they send back is their whole buffer.
\<close>

subsection \<open>Lemmas on the select server\<close>

lemma sel_clients_padded:
  "padded xs (wire (wld s)) \<Longrightarrow> x \<in> set xs \<Longrightarrow> \<forall>c. length (junk x c) = RECV_BUF \<Longrightarrow>
    sel_clients n i nready rset x s = Inr s' \<Longrightarrow> padded xs (wire (wld s'))"
proof (induction n i nready rset x s rule: sel_clients.induct)
  case (2 n i nready rset x s)
  have a: "padded xs (wire w)" if "answer c (filled bs (junk x c)) (wld s) = Inr w" "reads x c = Some bs" "bs \<noteq> []" for c bs w
    using padded_answer [OF that(1) "2.prems"(1,2) that(2,3)] "2.prems"(3) by simp
  note IH = "2.IH"(1,2) "2.IH"(3) [OF _ _ _ _ _ refl _ _ "2.prems"(2,3)]
  show ?case
    using "2.prems" IH a
    by (auto simp: Let_def bnd_eq_Inr sel_drop_def split: option.splits if_splits simp del: forget.simps)
qed simp

lemma sel_round_padded:
  assumes "padded xs (wire (wld s))" "x \<in> set xs" "\<forall>c. length (junk x c) = RECV_BUF" "sel_round x s = Inr s'"
  shows "padded xs (wire (wld s'))"
proof -
  have acc: "padded xs (wire (wld t))" if "sel_accept ok s = Inr t" for ok t
  proof -
    obtain c w where w: "open_peer (wld s) = (c, w)" "wire w = wire (wld s)"
      by (metis open_peer_sel(3) prod.collapse)
    then show ?thesis
      using that assms(1) by (auto simp: sel_accept_def Let_def split: if_splits)
  qed
  have "padded xs (wire (wld s'))" if "sel_clients n i k rset x t = Inr s'" "padded xs (wire (wld t))" for n i k rset t
    using sel_clients_padded [OF that(2) assms(2,3) that(1)] .
  note this [OF _ acc] this [OF _ assms(1)]
  then show ?thesis
    using assms(1,4) acc
    by (auto simp: sel_round_def Let_def bnd_eq_Inr split: wait_result.splits if_splits simp del: sel_clients.simps)
qed

lemma sel_run_padded:
  "padded ys (wire (wld s)) \<Longrightarrow> set xs \<subseteq> set ys \<Longrightarrow> \<forall>x\<in>set xs. \<forall>c. length (junk x c) = RECV_BUF \<Longrightarrow>
    sel_run xs s = Inr s' \<Longrightarrow> padded ys (wire (wld s'))"
  by (induction xs arbitrary: s) (auto simp: bnd_eq_Inr dest: sel_round_padded)

subsection \<open>The start\<close>

lemma agree_start:
  assumes "\<forall>i. \<not> snd (stale i)"
  shows "agree (sel_start []) (poll_start stale)"
proof -
  have n: "0 < MAX_TOTAL" "Suc i < MAX_TOTAL" if "i < FD_SETSIZE" for i
    using that sizes by auto
  have "members (replicate FD_SETSIZE None) = []"
    by (rule members_none) simp
  then have "allset_ok (sel_start [])"
    by (simp add: allset_ok_def sel_start_def)
  moreover have "table_agrees (client_sockets (sel_start [])) (p_client_sockets (poll_start stale)) 3"
    using n sizes by (auto simp: table_agrees_def sel_start_def poll_start_def nth_list_update)
  ultimately show ?thesis
    using assms sizes by (auto simp: agree_def sel_start_def poll_start_def nth_list_update)
qed


subsection \<open>A run with one client\<close>

text \<open>The listening descriptor is readable in the first round, the client's in the second, with one chunk to read.\<close>

definition calls :: round_in where
  "calls = \<lparr>outcome = Returned, readable = (\<lambda>c. c = 3), accept_ok = True, reads = (\<lambda>c. None), junk = (\<lambda>c. replicate RECV_BUF 0)\<rparr>"

definition sends :: "nat \<Rightarrow> 8 word list \<Rightarrow> round_in" where
  "sends c bs = \<lparr>outcome = Returned, readable = (\<lambda>d. d = c), accept_ok = True, reads = (\<lambda>d. if d = c then Some bs else None),
     junk = (\<lambda>c. replicate RECV_BUF 0)\<rparr>"

lemma sel_calls: "\<exists>s. sel_round calls (sel_start []) = Inr s \<and> allset s = [4, 3] \<and> maxfd s = 4 \<and> max_pos s = 0 \<and>
    sockfd s = 3 \<and> client_sockets s ! 0 = Some 4 \<and> wire (wld s) = []"
proof -
  have f: "free_place (client_sockets (sel_start [])) 0 FD_SETSIZE = 0"
    by (rule free_place_eqI) (simp_all add: sel_start_def FD_SETSIZE_def)
  have "lowest_unused (opened (wld (sel_start []))) = 4"
    by (simp add: sel_start_def lowest_unused_def upt_rec)
  then show ?thesis
    using sel_accept_eq [OF f [symmetric] sizes(2) refl, of True] sizes(2) open_peer_sel(3) [of "wld (sel_start [])"]
    by (simp add: sel_round_def calls_def) (simp add: sel_start_def FD_SETSIZE_def Let_def)
qed

definition all_set :: setup_calls where
  "all_set = \<lparr>limit_ok = True, socket_ok = True, reuse_ok = True, bind_ok = True, listen_ok = True, epoll_create_ok = True,
    epoll_add_ok = True\<rparr>"

lemma sel_sends: "\<exists>s. sel_run [calls, sends 4 [104]] (sel_start []) = Inr s \<and> wire (wld s) = [(4, 104 # replicate 1023 0)]"
proof -
  have "filled [104] (replicate RECV_BUF 0) = 104 # replicate 1023 0"
    by (simp add: filled_def RECV_BUF_def)
  then show ?thesis
    using sel_calls by (auto simp: sel_round_def sends_def answer_def)
qed


subsection \<open>The properties\<close>

text \<open>
  C22. Equivalence: given the same clients, inputs and descriptors, the server with \<open>poll\<close> does exactly what the server
  with \<open>select\<close> does, round by round: the same effects on the world, the same clients at the same places, the same
  exits. Only where a descriptor does not fit the \<open>fd_set\<close>, or the array of the \<open>select\<close> server is full, they part.
  The memory that the programs forget to clear is taken to be zero where they test it: \<open>allset\<close> and the \<open>revents\<close>.
\<close>

theorem select_poll_agree:
  assumes "limit_ok os" "\<forall>i. \<not> snd (stale i)"
  shows "case select_main os [] xs of
      Inr s \<Rightarrow> \<exists>p. poll_main os stale xs = Inr p \<and> p_wld p = wld s \<and>
        (\<forall>i<FD_SETSIZE. pfd (p_client_sockets p ! Suc i) = client_sockets s ! i)
    | Inl e \<Rightarrow> e \<in> {Full_exit, Fd_out_of_set} \<or> poll_main os stale xs = Inl e"
  using run_agrees [OF agree_start [OF assms(2)], of xs] assms(1)
  by (auto simp: select_main_def poll_main_def agree_def table_agrees_def rel_sum.simps split: sum.splits)

theorem select_poll_agree_witness:
  "\<exists>p. poll_main all_set (\<lambda>i. (True, False)) [calls, sends 4 [104]] = Inr p \<and> wire (p_wld p) = [(4, 104 # replicate 1023 0)]"
  using select_poll_agree [of all_set "\<lambda>i. (True, False)" "[calls, sends 4 [104]]"] sel_sends
  by (auto simp: select_main_def all_set_def)

text \<open>
  C23. None of the servers echoes. Whatever the clients send, each message that the server with \<open>select\<close> or the one with
  \<open>epoll\<close> writes is its whole buffer of 1024 bytes, which only begins with a chunk that it has read from the same
  descriptor (the \<open>select\<close> server's buffer was never cleared: the rest is what the stack held). Besides, the \<open>epoll\<close>
  server keeps its interest list: open descriptors, each once, the listening one among them; it never adds a descriptor
  twice or deletes one that is not there, so that an \<open>epoll_ctl\<close> ends it only when the kernel has no memory for it.
\<close>

theorem echo_is_padded:
  assumes "\<forall>x\<in>set xs. \<forall>c. length (junk x c) = RECV_BUF" "ep_batches_ok ys ep_start"
  shows "(\<forall>s. select_main os stale xs = Inr s \<longrightarrow> padded xs (wire (wld s))) \<and>
    (case epoll_main os ys of
       Inl e \<Rightarrow> e = Ctl_exit \<longrightarrow> \<not> epoll_add_ok os \<or> ctl_failed (concat (map fst ys))
     | Inr s \<Rightarrow> ep_ok s \<and> padded (map snd ys) (wire (ep_wld s)))"
proof
  have "padded zs []" for zs
    by (simp add: padded_def)
  then show "\<forall>s. select_main os stale xs = Inr s \<longrightarrow> padded xs (wire (wld s))"
    using sel_run_padded [OF _ order_refl assms(1), of "sel_start stale"] by (simp add: sel_start_def select_main_def)
  have "ep_ok ep_start" "padded (map snd ys) (wire (ep_wld ep_start))"
    by (simp_all add: ep_ok_def ep_start_def padded_def)
  then show "case epoll_main os ys of
       Inl e \<Rightarrow> e = Ctl_exit \<longrightarrow> \<not> epoll_add_ok os \<or> ctl_failed (concat (map fst ys))
     | Inr s \<Rightarrow> ep_ok s \<and> padded (map snd ys) (wire (ep_wld s))"
    using ep_run_ok [OF _ assms(2), of "map snd ys"] by (auto simp: epoll_main_def split: sum.splits)
qed

text \<open>A client that sends one byte gets 1024 back.\<close>

theorem echo_is_padded_witness:
  "\<exists>s b. select_main all_set [] [calls, sends 4 [104]] = Inr s \<and> (4, b) \<in> set (wire (wld s)) \<and> length b = 1024 \<and>
    epoll_main all_set [([(3, True, True)], calls), ([(5, True, True)], sends 5 [104])] \<noteq> Inl Ctl_exit"
proof -
  have l: "lowest_unused [0, Suc 0, 2, 3, 4] = 5"
    by (simp add: lowest_unused_def upt_rec)
  have "ep_batches_ok [([(3, True, True)], calls), ([(5, True, True)], sends 5 [104])] ep_start"
    by (simp add: ep_batch_ok_def ep_start_def ep_round_def calls_def ep_accept_def open_peer_def l ctl_add_def Let_def
      split: sum.splits)
  then show ?thesis
    using echo_is_padded [of "[calls, sends 4 [104]]" "[([(3, True, True)], calls), ([(5, True, True)], sends 5 [104])]" all_set "[]"] sel_sends
    by (auto simp: select_main_def all_set_def calls_def sends_def padded_def RECV_BUF_def split: sum.splits)
qed

end
