(* ===== verification/Chat.thy ===== *)
theory Chat
  imports PacketServer
begin

text \<open>
  \<open>network/socket/codes/chat\<close> (\<open>server.c\<close> and \<open>client.c\<close> have the same two loops) and the \<open>main\<close> functions of the
  clients of the other two chat programs (\<open>readline/client.c\<close> and \<open>fixed-length/client.c\<close> repeat the routines of
  their servers).

  \<^item> An end of a chat (\<open>chat_end\<close>) is a pair of processes on one connection: the child prints what arrives, the
    parent sends what is typed. Both have the socket, so the other end sees it closed only when both are gone.
  \<^item> Here there are neither \<open>readn\<close> nor \<open>writen\<close>: one \<open>read\<close> per turn, any \<open>-1\<close> of which ends the process without
    a word to the parent, and one \<open>write\<close>, whose result nobody looks at.
  \<^item> At the end of the stream the child sends \<open>SIGUSR1\<close> to its parent, which ends it, wherever it is: by the
    handler, or by the default action before the handler is there. To an orphan the parent is another process.
  \<^item> \<open>chat_event\<close> is a step of any of the four processes, or an interruption (Ctrl-C) that kills both processes of one
    end. \<open>calm\<close> is what it takes for a text to arrive: every \<open>write\<close> is complete, no \<open>read\<close> fills the buffer, and
    none fails as long as the other end is there.
\<close>

datatype parent_at = Starting | Typing | Parent_gone

datatype child_at = Reading | Notifying | Closing | Child_gone | Overread

datatype chat_shown = Text "byte list" | Socket_close | Keyboard_close

text \<open>\<open>ctrl_d\<close>: the user ends the input after the text that is still to be typed. \<open>sigusr1\<close>: the signal is pending.\<close>

record chat_end =
  typed :: "byte list"
  ctrl_d :: bool
  parent_proc :: parent_at
  child_proc :: child_at
  sigusr1 :: bool
  arrived :: "byte list"
  terminal :: "chat_shown list"
  killed :: bool

definition closed :: "chat_end \<Rightarrow> bool" where
  "closed e \<longleftrightarrow> parent_proc e = Parent_gone \<and> child_proc e = Child_gone"

subsection \<open>The child\<close>

text \<open>What a successful \<open>read\<close> of \<open>n\<close> bytes leads to: the buffer, cleared before, is printed.\<close>

definition chat_show :: "nat \<Rightarrow> chat_end \<Rightarrow> chat_end" where
  "chat_show n e =
     (case bnd (store (replicate BUFFER_LENGTH 0) 0 (take n (arrived e))) fputs of
        Inl f \<Rightarrow> e\<lparr>child_proc := Overread\<rparr>
      | Inr s \<Rightarrow> e\<lparr>arrived := drop n (arrived e), terminal := terminal e @ [Text s]\<rparr>)"

definition chat_notify :: "chat_end \<Rightarrow> chat_end" where
  "chat_notify e = e\<lparr>sigusr1 := parent_proc e \<noteq> Parent_gone, child_proc := Closing\<rparr>"

inductive chat_recv :: "bool \<Rightarrow> chat_end \<Rightarrow> chat_end \<Rightarrow> chat_end \<Rightarrow> bool" for calm peer e where
  got: "child_proc e = Reading \<Longrightarrow> 0 < n \<Longrightarrow> n \<le> min BUFFER_LENGTH (length (arrived e)) \<Longrightarrow> (calm \<longrightarrow> n < BUFFER_LENGTH) \<Longrightarrow>
     chat_recv calm peer e (chat_show n e)"
| failed: "child_proc e = Reading \<Longrightarrow> \<not> calm \<or> closed peer \<Longrightarrow> chat_recv calm peer e (e\<lparr>child_proc := Child_gone\<rparr>)"
| ended: "child_proc e = Reading \<Longrightarrow> arrived e = [] \<Longrightarrow> closed peer \<Longrightarrow>
     chat_recv calm peer e (e\<lparr>terminal := terminal e @ [Socket_close], child_proc := Notifying\<rparr>)"
| notify: "child_proc e = Notifying \<Longrightarrow> chat_recv calm peer e (chat_notify e)"
| leave: "child_proc e = Closing \<Longrightarrow> chat_recv calm peer e (e\<lparr>child_proc := Child_gone\<rparr>)"

subsection \<open>The parent\<close>

definition handle_sigusr1 :: "chat_end \<Rightarrow> chat_end" where
  "handle_sigusr1 e = e\<lparr>sigusr1 := False, parent_proc := Parent_gone,
     terminal := (if parent_proc e = Typing then terminal e @ [Keyboard_close] else terminal e)\<rparr>"

text \<open>\<open>fgets\<close> returns when there is a whole line, a full buffer or the end of the input.\<close>

definition line_ready :: "chat_end \<Rightarrow> bool" where
  "line_ready e \<longleftrightarrow> ctrl_d e \<or>
     (case fgets BUFFER_LENGTH (typed e) of
        None \<Rightarrow> False
      | Some (send_buf, rest) \<Rightarrow> last send_buf = 10 \<or> Suc (length send_buf) = BUFFER_LENGTH)"

text \<open>Bytes for an end that is no more are lost.\<close>

definition deliver :: "byte list \<Rightarrow> chat_end \<Rightarrow> chat_end" where
  "deliver bs peer = (if closed peer then peer else peer\<lparr>arrived := arrived peer @ bs\<rparr>)"

inductive chat_keyboard :: "bool \<Rightarrow> chat_end \<Rightarrow> chat_end \<Rightarrow> chat_end \<Rightarrow> chat_end \<Rightarrow> bool" for calm peer e where
  install: "parent_proc e = Starting \<Longrightarrow> chat_keyboard calm peer e peer (e\<lparr>parent_proc := Typing\<rparr>)"
| line: "parent_proc e = Typing \<Longrightarrow> line_ready e \<Longrightarrow> fgets BUFFER_LENGTH (typed e) = Some (send_buf, rest) \<Longrightarrow>
     k \<le> length (c_str send_buf) \<Longrightarrow> (calm \<longrightarrow> k = length (c_str send_buf)) \<Longrightarrow>
     chat_keyboard calm peer e (deliver (take k (c_str send_buf)) peer) (e\<lparr>typed := rest\<rparr>)"
| broken: "parent_proc e = Typing \<Longrightarrow> line_ready e \<Longrightarrow> fgets BUFFER_LENGTH (typed e) = Some (send_buf, rest) \<Longrightarrow> closed peer \<Longrightarrow>
     chat_keyboard calm peer e peer (e\<lparr>typed := rest, parent_proc := Parent_gone\<rparr>)"
| input_ends: "parent_proc e = Typing \<Longrightarrow> line_ready e \<Longrightarrow> fgets BUFFER_LENGTH (typed e) = None \<Longrightarrow>
     chat_keyboard calm peer e peer (e\<lparr>parent_proc := Parent_gone\<rparr>)"
| signal: "sigusr1 e \<Longrightarrow> parent_proc e \<noteq> Parent_gone \<Longrightarrow> chat_keyboard calm peer e peer (handle_sigusr1 e)"

subsection \<open>Two ends\<close>

inductive chat_step :: "bool \<Rightarrow> chat_end \<times> chat_end \<Rightarrow> chat_end \<times> chat_end \<Rightarrow> bool" for calm where
  recv1: "chat_recv calm b a a' \<Longrightarrow> chat_step calm (a, b) (a', b)"
| recv2: "chat_recv calm a b b' \<Longrightarrow> chat_step calm (a, b) (a, b')"
| keyboard1: "chat_keyboard calm b a b' a' \<Longrightarrow> chat_step calm (a, b) (a', b')"
| keyboard2: "chat_keyboard calm a b a' b' \<Longrightarrow> chat_step calm (a, b) (a', b')"

definition ctrl_c :: "chat_end \<Rightarrow> chat_end" where
  "ctrl_c e = e\<lparr>parent_proc := Parent_gone, child_proc := Child_gone, sigusr1 := False, killed := True\<rparr>"

inductive chat_event :: "bool \<Rightarrow> chat_end \<times> chat_end \<Rightarrow> chat_end \<times> chat_end \<Rightarrow> bool" for calm where
  step: "chat_step calm s s' \<Longrightarrow> chat_event calm s s'"
| ctrl_c1: "chat_event calm (a, b) (ctrl_c a, b)"
| ctrl_c2: "chat_event calm (a, b) (a, ctrl_c b)"

text \<open>The two processes after \<open>fork\<close>; if it fails there is only the parent.\<close>

definition chat_forked :: "bool \<Rightarrow> bool \<Rightarrow> byte list \<Rightarrow> chat_end" where
  "chat_forked ok d t = \<lparr>typed = t, ctrl_d = d, parent_proc = Starting, child_proc = (if ok then Reading else Child_gone),
     sigusr1 = False, arrived = [], terminal = [], killed = False\<rparr>"

definition chat_server_main :: "sys_calls \<Rightarrow> bool \<Rightarrow> byte list \<Rightarrow> chat_end run" where
  "chat_server_main os d stdin =
     (if \<not> socket_ok os then Inl Exit_failure
      else if \<not> setsockopt_ok os then Inl Exit_failure
      else if \<not> bind_ok os then Inl Exit_failure
      else if \<not> listen_ok os then Inl Exit_failure
      else if \<not> accept_ok os then Inl Exit_failure
      else Inr (chat_forked (fork_ok os) d stdin))"

record client_calls =
  client_socket_ok :: bool
  connect_ok :: bool
  client_fork_ok :: bool

definition chat_client_main :: "client_calls \<Rightarrow> bool \<Rightarrow> byte list \<Rightarrow> chat_end run" where
  "chat_client_main os d stdin =
     (if \<not> client_socket_ok os then Inl Exit_failure
      else if \<not> connect_ok os then Inl Exit_failure
      else Inr (chat_forked (client_fork_ok os) d stdin))"

subsection \<open>The clients of the other chat programs\<close>

type_synonym outcome = "((byte list \<times> sock) run option \<times> sock run) run"

definition line_client_main :: "client_calls \<Rightarrow> byte list \<Rightarrow> sock \<Rightarrow> outcome" where
  "line_client_main os stdin s =
     (if \<not> client_socket_ok os then Inl Exit_failure
      else if \<not> connect_ok os then Inl Exit_failure
      else Inr (if client_fork_ok os then Some (recv_socket s) else None, recv_keyboard stdin s))"

definition packet_client_main :: "client_calls \<Rightarrow> byte list \<Rightarrow> sock \<Rightarrow> outcome" where
  "packet_client_main os stdin s =
     (if \<not> client_socket_ok os then Inl Exit_failure
      else if \<not> connect_ok os then Inl Exit_failure
      else Inr (if client_fork_ok os then Some (packet_recv s) else None, packet_keyboard stdin s))"

subsection \<open>What is shown\<close>

fun text_of :: "chat_shown \<Rightarrow> byte list" where
  "text_of (Text s) = s"
| "text_of Socket_close = []"
| "text_of Keyboard_close = []"

definition shown :: "chat_end \<Rightarrow> byte list" where
  "shown e = concat (map text_of (terminal e))"

lemma chat_show_calm:
  assumes "n < BUFFER_LENGTH" "0 \<notin> set (arrived e)"
  shows "chat_show n e = e\<lparr>arrived := drop n (arrived e), terminal := terminal e @ [Text (take n (arrived e))]\<rparr>"
proof -
  let ?bs = "take n (arrived e)"
  have "store (replicate BUFFER_LENGTH 0) 0 ?bs = Inr (?bs @ replicate (BUFFER_LENGTH - length ?bs) 0)"
    using assms(1) by (subst store_ok) auto
  moreover have "fputs (?bs @ replicate (BUFFER_LENGTH - length ?bs) 0) = Inr ?bs"
    by (rule fputs_terminated) (use assms in \<open>auto dest: in_set_takeD\<close>)
  ultimately show ?thesis
    by (simp add: chat_show_def)
qed

subsection \<open>The invariant\<close>

text \<open>The text \<open>t\<close> typed at \<open>a\<close> and shown at \<open>b\<close>: nothing is lost, unless \<open>b\<close> has closed first.\<close>

definition on_its_way :: "byte list \<Rightarrow> chat_end \<Rightarrow> chat_end \<Rightarrow> bool" where
  "on_its_way t a b \<longleftrightarrow> (\<exists>lost. t = shown b @ arrived b @ lost @ typed a \<and> (lost \<noteq> [] \<longrightarrow> closed b \<and> Socket_close \<notin> set (terminal b)))"

definition end_ok :: "chat_end \<Rightarrow> chat_end \<Rightarrow> bool" where
  "end_ok e peer \<longleftrightarrow> child_proc e \<noteq> Overread \<and> (killed e \<longrightarrow> closed e \<and> \<not> sigusr1 e) \<and>
     (child_proc e \<noteq> Reading \<longrightarrow> killed e \<or> closed peer) \<and> (sigusr1 e \<longrightarrow> closed peer) \<and>
     (parent_proc e = Parent_gone \<longrightarrow> killed e \<or> closed peer \<or> typed e = [] \<and> ctrl_d e) \<and>
     (Socket_close \<in> set (terminal e) \<longrightarrow> closed peer \<and> arrived e = [] \<and>
        (parent_proc e = Parent_gone \<or> sigusr1 e \<or> child_proc e = Notifying))"

definition chat_inv :: "byte list \<Rightarrow> byte list \<Rightarrow> chat_end \<Rightarrow> chat_end \<Rightarrow> bool" where
  "chat_inv t1 t2 a b \<longleftrightarrow> on_its_way t1 a b \<and> on_its_way t2 b a \<and> end_ok a b \<and> end_ok b a \<and>
     (child_proc a \<noteq> Reading \<or> child_proc b \<noteq> Reading \<longrightarrow> killed a \<or> killed b)"

lemma chat_inv_sym: "chat_inv t1 t2 a b \<Longrightarrow> chat_inv t2 t1 b a"
  by (auto simp: chat_inv_def)

lemma on_its_way_nul: "on_its_way t a b \<Longrightarrow> 0 \<notin> set t \<Longrightarrow> 0 \<notin> set (arrived b) \<and> 0 \<notin> set (typed a)"
  by (auto simp: on_its_way_def)

lemma on_its_way_cong:
  "on_its_way t a b \<Longrightarrow> typed a' = typed a \<Longrightarrow> shown b' @ arrived b' = shown b @ arrived b \<Longrightarrow> 
    (closed b \<Longrightarrow> closed b' \<and> (Socket_close \<in> set (terminal b') \<longrightarrow> Socket_close \<in> set (terminal b))) \<Longrightarrow> on_its_way t a' b'"
  unfolding on_its_way_def by (metis append.assoc)

lemma recv_inv:
  assumes st: "chat_recv True b a a'" and inv: "chat_inv t1 t2 a b" and nul: "0 \<notin> set t1" "0 \<notin> set t2"
  shows "chat_inv t1 t2 a' b"
proof -
  have w: "on_its_way t1 a b" "on_its_way t2 b a" and e: "end_ok a b" "end_ok b a"
    and k: "child_proc a \<noteq> Reading \<or> child_proc b \<noteq> Reading \<longrightarrow> killed a \<or> killed b"
    using inv by (simp_all add: chat_inv_def)
  have 1: "typed a' = typed a \<and> shown a' @ arrived a' = shown a @ arrived a \<and>
    (closed a \<longrightarrow> closed a' \<and> (Socket_close \<in> set (terminal a') \<longrightarrow> Socket_close \<in> set (terminal a)))"
    using st
  proof cases
    case (got n)
    then show ?thesis
      using chat_show_calm [of n a] on_its_way_nul [OF w(2) nul(2)] by (simp add: shown_def closed_def)
  qed (simp_all add: shown_def closed_def chat_notify_def)
  have 2: "end_ok a' b \<and> end_ok b a'"
    using st
  proof cases
    case (got n)
    then show ?thesis
      using chat_show_calm [of n a] on_its_way_nul [OF w(2) nul(2)] e by (auto simp: end_ok_def closed_def)
  qed (use e in \<open>auto simp: end_ok_def closed_def chat_notify_def\<close>)
  have 3: "child_proc a' \<noteq> Reading \<or> child_proc b \<noteq> Reading \<longrightarrow> killed a' \<or> killed b"
    using st
  proof cases
    case (got n)
    then show ?thesis
      using chat_show_calm [of n a] on_its_way_nul [OF w(2) nul(2)] k by simp
  qed (use k in \<open>auto simp: closed_def chat_notify_def\<close>)
  show ?thesis
    unfolding chat_inv_def using on_its_way_cong [OF w(1), of a' b] on_its_way_cong [OF w(2), of b a'] 1 2 3 by simp
qed

lemma fgets_None: "fgets n inp = None \<longleftrightarrow> inp = []"
  by (simp add: fgets_def Let_def)

lemma keyboard_inv:
  assumes st: "chat_keyboard True b a b' a'" and inv: "chat_inv t1 t2 a b" and nul: "0 \<notin> set t1" "0 \<notin> set t2"
  shows "chat_inv t1 t2 a' b'"
proof -
  have w: "on_its_way t1 a b" "on_its_way t2 b a" and e: "end_ok a b" "end_ok b a"
    and k: "child_proc a \<noteq> Reading \<or> child_proc b \<noteq> Reading \<longrightarrow> killed a \<or> killed b"
    using inv by (simp_all add: chat_inv_def)
  obtain lost where l: "t1 = shown b @ arrived b @ lost @ typed a" "lost \<noteq> [] \<longrightarrow> closed b \<and> Socket_close \<notin> set (terminal b)"
    using w(1) by (auto simp: on_its_way_def)
  have B: "1 < BUFFER_LENGTH"
    by simp
  show ?thesis
    using st
  proof cases
    case install
    have "on_its_way t1 a' b'" "on_its_way t2 b' a'"
      by (rule on_its_way_cong [OF w(1)] on_its_way_cong [OF w(2)], simp_all add: install(1,2,3) shown_def closed_def)+
    moreover have "end_ok a' b'" "end_ok b' a'"
      using e install(1,2,3) by (auto simp: end_ok_def closed_def)
    ultimately show ?thesis
      using k install(1,2) by (simp add: chat_inv_def)
  next
    case (line buf rest n)
    have f: "typed a = buf @ rest"
      using fgets_progress [OF line(5) B] by simp
    then have c: "take n (c_str buf) = buf"
      using line(7) on_its_way_nul [OF w(1) nul(1)] by (simp add: c_str_no_nul)
    have "on_its_way t1 a' b'"
      unfolding on_its_way_def using l f c e(2) line(1,2,3)
      by (intro exI [of _ "if closed b then lost @ buf else []"]) (auto simp: deliver_def shown_def closed_def end_ok_def)
    moreover have "on_its_way t2 b' a'"
      by (rule on_its_way_cong [OF w(2)]) (simp_all add: line(1,2) deliver_def shown_def closed_def)
    moreover have "end_ok a' b'" "end_ok b' a'"
      using e line(1,2,3) by (auto simp: end_ok_def closed_def deliver_def)
    ultimately show ?thesis
      using k line(1,2) by (auto simp: chat_inv_def deliver_def)
  next
    case (broken buf rest)
    have f: "typed a = buf @ rest"
      using fgets_progress [OF broken(5) B] by simp
    have "on_its_way t1 a' b'"
      unfolding on_its_way_def using l f e(2) broken(1,2,3,6) by (intro exI [of _ "lost @ buf"]) (auto simp: end_ok_def closed_def)
    moreover have "on_its_way t2 b' a'"
      by (rule on_its_way_cong [OF w(2)]) (simp_all add: broken(1,2) shown_def closed_def)
    moreover have "end_ok a' b'" "end_ok b' a'"
      using e broken(1,2,6) by (auto simp: end_ok_def closed_def)
    ultimately show ?thesis
      using k broken(1,2) by (auto simp: chat_inv_def)
  next
    case input_ends
    have "on_its_way t1 a' b'" "on_its_way t2 b' a'"
      by (rule on_its_way_cong [OF w(1)] on_its_way_cong [OF w(2)], simp_all add: input_ends(1,2,3) shown_def closed_def)+
    moreover have "end_ok a' b'" "end_ok b' a'"
      using e input_ends(1,2,3,4,5) by (auto simp: end_ok_def closed_def line_ready_def fgets_None)
    ultimately show ?thesis
      using k input_ends(1,2) by (simp add: chat_inv_def)
  next
    case signal
    have "on_its_way t1 a' b'"
      by (rule on_its_way_cong [OF w(1)]) (simp_all add: signal(1,2) handle_sigusr1_def)
    moreover have "on_its_way t2 b' a'"
      by (rule on_its_way_cong [OF w(2)]) (simp_all add: signal(1,2) handle_sigusr1_def shown_def closed_def)
    moreover have "end_ok a' b'" "end_ok b' a'"
      using e signal(1,2,3,4) by (auto simp: end_ok_def closed_def handle_sigusr1_def)
    moreover have "child_proc a' = child_proc a" "killed a' = killed a" "b' = b"
      by (simp_all add: signal(1,2) handle_sigusr1_def)
    ultimately show ?thesis
      using k by (simp add: chat_inv_def)
  qed
qed

lemma ctrl_c_inv: "chat_inv t1 t2 a b \<Longrightarrow> chat_inv t1 t2 (ctrl_c a) b"
  using on_its_way_cong [of t1 a b "ctrl_c a" b] on_its_way_cong [of t2 b a b "ctrl_c a"]
  by (auto simp: chat_inv_def ctrl_c_def end_ok_def closed_def shown_def)

lemma chat_event_inv:
  assumes "chat_event True s s'" "chat_inv t1 t2 (fst s) (snd s)" "0 \<notin> set t1" "0 \<notin> set t2"
  shows "chat_inv t1 t2 (fst s') (snd s')"
  using assms(1)
proof cases
  case step
  then show ?thesis
  proof cases
    case (recv1 b a a')
    then show ?thesis
      using recv_inv [OF recv1(3) _ assms(3,4)] assms(2) by simp
  next
    case (recv2 a b b')
    then show ?thesis
      using chat_inv_sym [OF recv_inv [OF recv2(3) chat_inv_sym assms(4,3)]] assms(2) by simp
  next
    case (keyboard1 b a b' a')
    then show ?thesis
      using keyboard_inv [OF keyboard1(3) _ assms(3,4)] assms(2) by simp
  next
    case (keyboard2 a b a' b')
    then show ?thesis
      using chat_inv_sym [OF keyboard_inv [OF keyboard2(3) chat_inv_sym assms(4,3)]] assms(2) by simp
  qed
next
  case (ctrl_c1 a b)
  then show ?thesis
    using ctrl_c_inv assms(2) by simp
next
  case (ctrl_c2 a b)
  then show ?thesis
    using chat_inv_sym [OF ctrl_c_inv [OF chat_inv_sym]] assms(2) by simp
qed

lemma chat_inv_start: "chat_inv t1 t2 (chat_forked True d1 t1) (chat_forked True d2 t2)"
  by (simp add: chat_inv_def on_its_way_def end_ok_def chat_forked_def shown_def)

lemma chat_reachable:
  assumes "(chat_event True)\<^sup>*\<^sup>* (chat_forked True d1 t1, chat_forked True d2 t2) (a, b)" "0 \<notin> set t1" "0 \<notin> set t2"
  shows "chat_inv t1 t2 a b"
proof -
  have "chat_inv t1 t2 (fst s) (snd s)"
    if "(chat_event True)\<^sup>*\<^sup>* (chat_forked True d1 t1, chat_forked True d2 t2) s" for s
    using that by (induction rule: rtranclp_induct) (simp add: chat_inv_start, rule chat_event_inv [OF _ _ assms(2,3)])
  then show ?thesis
    using assms(1) by fastforce
qed

subsection \<open>The end of a run\<close>

text \<open>No process of the two ends can take a step.\<close>

definition chat_stuck :: "chat_end \<Rightarrow> chat_end \<Rightarrow> bool" where
  "chat_stuck a b \<longleftrightarrow> \<not> (\<exists>s. chat_step True (a, b) s)"

lemma stuck_sym: "chat_stuck a b \<Longrightarrow> chat_stuck b a"
  unfolding chat_stuck_def by (force elim: chat_step.cases intro: chat_step.intros)

lemma stuck_child:
  assumes "chat_stuck a b"
  shows "child_proc a = Reading \<Longrightarrow> arrived a = [] \<and> \<not> closed b" "child_proc a \<noteq> Notifying" "child_proc a \<noteq> Closing"
    "parent_proc a \<noteq> Parent_gone \<Longrightarrow> parent_proc a = Typing \<and> \<not> line_ready a \<and> \<not> sigusr1 a"
proof -
  have n: "\<not> chat_recv True b a a'" "\<not> chat_keyboard True b a b' a'" for a' b'
    using assms chat_step.recv1 chat_step.keyboard1 unfolding chat_stuck_def by blast+
  show "arrived a = [] \<and> \<not> closed b" if "child_proc a = Reading"
  proof -
    have "\<not> closed b"
      using n(1) failed [OF that, of True b] by blast
    moreover have "arrived a = []"
      using n(1) got [OF that, of 1 True b] by (cases "arrived a") auto
    ultimately show ?thesis
      by simp
  qed
  show "child_proc a \<noteq> Notifying" "child_proc a \<noteq> Closing"
    using n(1) notify leave by blast+
  show "parent_proc a = Typing \<and> \<not> line_ready a \<and> \<not> sigusr1 a" if "parent_proc a \<noteq> Parent_gone"
  proof -
    have "\<not> sigusr1 a" "parent_proc a \<noteq> Starting"
      using n(2) signal that install by blast+
    moreover from this have t: "parent_proc a = Typing"
      using that by (cases "parent_proc a") auto
    moreover have "\<not> line_ready a"
    proof
      assume r: "line_ready a"
      show False
      proof (cases "fgets BUFFER_LENGTH (typed a)")
        case None
        then show False
          using n(2) input_ends [OF t r] by blast
      next
        case (Some p)
        then show False
          using n(2) line [OF t r, of "fst p" "snd p" "length (c_str (fst p))" True b] by simp
      qed
    qed
    ultimately show ?thesis
      by simp
  qed
qed

text \<open>What is left when nothing moves and nobody was interrupted: everything is shown, and both children wait.\<close>

definition waits_for_ever :: "byte list \<Rightarrow> chat_end \<Rightarrow> chat_end \<Rightarrow> bool" where
  "waits_for_ever t a b \<longleftrightarrow> child_proc a = Reading \<and> t = shown b @ typed a \<and>
     (if ctrl_d a then typed a = [] \<and> parent_proc a = Parent_gone else \<not> line_ready a)"

lemma chat_stuck_waits:
  assumes "chat_stuck a b" "chat_inv t1 t2 a b" "\<not> killed a" "\<not> killed b"
  shows "waits_for_ever t1 a b"
proof -
  have c: "child_proc a = Reading" "child_proc b = Reading"
    using assms(2-) by (auto simp: chat_inv_def)
  then have n: "\<not> closed a" "\<not> closed b" "arrived b = []"
    using stuck_child(1) [OF stuck_sym [OF assms(1)]] by (simp_all add: closed_def)
  have "parent_proc a = Parent_gone \<longrightarrow> typed a = [] \<and> ctrl_d a"
    using assms(2,3) n by (auto simp: chat_inv_def end_ok_def)
  moreover have "t1 = shown b @ typed a"
    using assms(2) n by (auto simp: chat_inv_def on_its_way_def)
  moreover have "parent_proc a \<noteq> Parent_gone \<Longrightarrow> \<not> ctrl_d a \<and> \<not> line_ready a"
    using stuck_child(4) [OF assms(1)] by (simp add: line_ready_def)
  ultimately show ?thesis
    using c(1) by (cases "parent_proc a = Parent_gone") (simp_all add: waits_for_ever_def)
qed

text \<open>What an end promises to the other one, for the text \<open>t\<close> typed at \<open>a\<close>.\<close>

definition chat_kept :: "byte list \<Rightarrow> chat_end \<Rightarrow> chat_end \<Rightarrow> bool" where
  "chat_kept t a b \<longleftrightarrow> on_its_way t a b \<and>
     (Socket_close \<in> set (terminal b) \<longrightarrow> closed a \<and> t = shown b @ typed a \<and>
        (parent_proc b = Parent_gone \<or> sigusr1 b \<or> child_proc b = Notifying)) \<and>
     (\<not> killed a \<and> \<not> killed b \<longrightarrow> child_proc b = Reading \<and> (chat_stuck a b \<longrightarrow> waits_for_ever t a b)) \<and>
     (killed a \<and> \<not> killed b \<and> chat_stuck a b \<longrightarrow> child_proc b = Child_gone \<and>
        (Socket_close \<in> set (terminal b) \<longrightarrow> parent_proc b = Parent_gone))"

lemma chat_kept_inv:
  assumes "chat_inv t1 t2 a b"
  shows "chat_kept t1 a b"
proof -
  have e: "end_ok b a" "end_ok a b" and w: "on_its_way t1 a b"
    and k: "child_proc a \<noteq> Reading \<or> child_proc b \<noteq> Reading \<longrightarrow> killed a \<or> killed b"
    using assms by (simp_all add: chat_inv_def)
  have "Socket_close \<in> set (terminal b) \<longrightarrow> closed a \<and> t1 = shown b @ typed a \<and>
      (parent_proc b = Parent_gone \<or> sigusr1 b \<or> child_proc b = Notifying)"
    using e(1) w by (auto simp: end_ok_def on_its_way_def)
  moreover have "child_proc b = Child_gone \<and> (Socket_close \<in> set (terminal b) \<longrightarrow> parent_proc b = Parent_gone)"
    if "killed a" "\<not> killed b" "chat_stuck a b"
  proof -
    have "closed a"
      using e(2) that(1) by (simp add: end_ok_def)
    then have "child_proc b = Child_gone"
      using stuck_child(1,2,3) [OF stuck_sym [OF that(3)]] e(1) by (cases "child_proc b") (auto simp: end_ok_def)
    then show ?thesis
      using stuck_child(4) [OF stuck_sym [OF that(3)]] e(1) by (auto simp: end_ok_def)
  qed
  ultimately show ?thesis
    unfolding chat_kept_def using w k chat_stuck_waits [OF _ assms] by blast
qed

subsection \<open>The properties\<close>

definition all_calls_ok :: sys_calls where
  "all_calls_ok = \<lparr>socket_ok = True, setsockopt_ok = True, bind_ok = True, listen_ok = True, accept_ok = True, fork_ok = True\<rparr>"

definition all_client_calls_ok :: client_calls where
  "all_client_calls_ok = \<lparr>client_socket_ok = True, connect_ok = True, client_fork_ok = True\<rparr>"

text \<open>
  C33. A chat of a server and a client, in any order of the steps of the four processes, calm, each end being
  interrupted or not, at any time. What is typed at one end arrives in order and is shown at the other; nothing is lost
  unless the other end has closed. An end that says that the other one has closed is right, has shown all that was sent
  to it, and its child has sent the signal that ends its parent, or is about to. If neither end is interrupted, no
  child ever ends: when nothing can move any more, all that was typed is shown, and although the parents of both ends may
  have ended with their input, the children wait for ever, each for the other (the children themselves keep the
  connection open). If one end was interrupted, the child of the other one ends, and its parent with it, unless the
  connection was reset.
\<close>

theorem chat_session:
  assumes "0 \<notin> set t1" "0 \<notin> set t2" "chat_server_main os d1 t1 = Inr a0" "chat_client_main cs d2 t2 = Inr b0"
    "fork_ok os" "client_fork_ok cs" "(chat_event True)\<^sup>*\<^sup>* (a0, b0) (a, b)"
  shows "chat_kept t1 a b \<and> chat_kept t2 b a"
proof -
  have "a0 = chat_forked True d1 t1" "b0 = chat_forked True d2 t2"
    using assms(3-6) by (auto simp: chat_server_main_def chat_client_main_def split: if_splits)
  then have "chat_inv t1 t2 a b"
    using chat_reachable [of d1 t1 d2 t2 a b] assms(1,2,7) by simp
  then show ?thesis
    using chat_kept_inv chat_inv_sym by blast
qed

text \<open>A line is sent and shown; the sender is interrupted, and the signal of its child ends the receiver's parent.\<close>

definition hi :: "byte list" where
  "hi = [104, 105, 10]"

lemma one_line_run:
  "\<exists>a b. (chat_event True)\<^sup>*\<^sup>* (chat_forked True False hi, chat_forked True False []) (a, b) \<and>
    terminal b = [Text hi, Socket_close, Keyboard_close] \<and> closed b"
proof -
  let ?a = "chat_forked True False hi" and ?b = "(chat_forked True False [])\<lparr>parent_proc := Typing\<rparr>"
  have f: "fgets BUFFER_LENGTH hi = Some (hi, [])" "c_str hi = hi" "0 \<notin> set hi"
    by (simp_all add: fgets_def hi_def c_str_def)
  let ?a1 = "?a\<lparr>parent_proc := Typing\<rparr>" and ?a2 = "?a\<lparr>typed := [], parent_proc := Typing\<rparr>"
  have 1: "chat_event True (?a, chat_forked True False []) (?a, ?b)"
    by (intro chat_event.step chat_step.keyboard2 install) (simp add: chat_forked_def)
  have 2: "chat_event True (?a, ?b) (?a1, ?b)"
    by (intro chat_event.step chat_step.keyboard1 install) (simp add: chat_forked_def)
  have "chat_keyboard True ?b ?a1 (deliver (take (length (c_str hi)) (c_str hi)) ?b) (?a1\<lparr>typed := []\<rparr>)"
    by (rule line) (simp_all add: chat_forked_def line_ready_def f, simp add: hi_def)
  then have 3: "chat_event True (?a1, ?b) (?a2, ?b\<lparr>arrived := hi\<rparr>)"
    by (intro chat_event.step chat_step.keyboard1) (simp add: chat_forked_def f deliver_def closed_def)
  have s: "chat_show 3 (?b\<lparr>arrived := hi\<rparr>) = ?b\<lparr>terminal := [Text hi]\<rparr>"
    using f(3) by (subst chat_show_calm) (simp_all add: chat_forked_def hi_def)
  have "chat_recv True ?a2 (?b\<lparr>arrived := hi\<rparr>) (chat_show 3 (?b\<lparr>arrived := hi\<rparr>))"
    by (rule got) (simp_all add: chat_forked_def hi_def)
  then have 4: "chat_event True (?a2, ?b\<lparr>arrived := hi\<rparr>) (?a2, ?b\<lparr>terminal := [Text hi]\<rparr>)"
    unfolding s by (intro chat_event.step chat_step.recv2)
  let ?k = "ctrl_c ?a2" and ?b1 = "?b\<lparr>terminal := [Text hi, Socket_close], child_proc := Notifying\<rparr>"
  have "chat_recv True ?k (?b\<lparr>terminal := [Text hi]\<rparr>)
      (?b\<lparr>terminal := [Text hi]\<rparr>\<lparr>terminal := terminal (?b\<lparr>terminal := [Text hi]\<rparr>) @ [Socket_close], child_proc := Notifying\<rparr>)"
    by (rule ended) (simp_all add: chat_forked_def ctrl_c_def closed_def)
  then have 5: "chat_event True (?k, ?b\<lparr>terminal := [Text hi]\<rparr>) (?k, ?b1)"
    by (intro chat_event.step chat_step.recv2) simp
  let ?b2 = "?b1\<lparr>sigusr1 := True, child_proc := Closing\<rparr>"
  have "chat_notify ?b1 = ?b2"
    by (simp add: chat_notify_def chat_forked_def)
  then have 6: "chat_event True (?k, ?b1) (?k, ?b2)"
    using notify [of ?b1 True ?k] by (intro chat_event.step chat_step.recv2) simp
  have 7: "chat_event True (?k, ?b2) (?k, handle_sigusr1 ?b2)"
    by (intro chat_event.step chat_step.keyboard2 signal) (simp_all add: chat_forked_def)
  have 8: "chat_event True (?k, handle_sigusr1 ?b2) (?k, (handle_sigusr1 ?b2)\<lparr>child_proc := Child_gone\<rparr>)"
    by (intro chat_event.step chat_step.recv2 leave) (simp add: handle_sigusr1_def)
  note run = rtranclp.rtrancl_into_rtrancl [of "chat_event True"]
  have "(chat_event True)\<^sup>*\<^sup>* (?a, chat_forked True False []) (?k, (handle_sigusr1 ?b2)\<lparr>child_proc := Child_gone\<rparr>)"
    by (rule run [OF run [OF run [OF run [OF run [OF run [OF run [OF run [OF run [OF rtranclp.rtrancl_refl 1] 2] 3] 4] ctrl_c1] 5] 6] 7] 8])
  moreover have "terminal ((handle_sigusr1 ?b2)\<lparr>child_proc := Child_gone\<rparr>) = [Text hi, Socket_close, Keyboard_close]"
    "closed ((handle_sigusr1 ?b2)\<lparr>child_proc := Child_gone\<rparr>)"
    by (simp_all add: handle_sigusr1_def chat_forked_def closed_def)
  ultimately show ?thesis
    by blast
qed

theorem chat_session_witness:
  "\<exists>a b. chat_kept hi a b \<and> shown b = hi \<and> Keyboard_close \<in> set (terminal b) \<and> closed a"
proof -
  obtain a b where r: "(chat_event True)\<^sup>*\<^sup>* (chat_forked True False hi, chat_forked True False []) (a, b)"
    "terminal b = [Text hi, Socket_close, Keyboard_close]" "closed b"
    using one_line_run by blast
  have "chat_kept hi a b \<and> chat_kept [] b a"
    using chat_session [of hi "[]" all_calls_ok False "chat_forked True False hi" all_client_calls_ok False
        "chat_forked True False []" a b] r(1)
    by (simp add: hi_def chat_server_main_def chat_client_main_def all_calls_ok_def all_client_calls_ok_def)
  moreover from this have "closed a"
    using r(2) by (simp add: chat_kept_def)
  ultimately show ?thesis
    using r(2) by (intro exI [of _ a] exI [of _ b]) (simp add: shown_def)
qed

text \<open>Both users end their input, and nothing ends: the children of both ends are left, each reading from the other.\<close>

theorem chat_children_left:
  "\<exists>a b. (chat_event True)\<^sup>*\<^sup>* (chat_forked True True [], chat_forked True True []) (a, b) \<and> chat_stuck a b \<and>
    parent_proc a = Parent_gone \<and> parent_proc b = Parent_gone \<and> child_proc a = Reading \<and> child_proc b = Reading"
proof -
  let ?s = "chat_forked True True []"
  let ?t = "?s\<lparr>parent_proc := Typing\<rparr>" and ?g = "?s\<lparr>parent_proc := Parent_gone\<rparr>"
  have 1: "chat_event True (?s, ?s) (?s, ?t)"
    by (intro chat_event.step chat_step.keyboard2 install) (simp add: chat_forked_def)
  have 2: "chat_event True (?s, ?t) (?t, ?t)"
    by (intro chat_event.step chat_step.keyboard1 install) (simp add: chat_forked_def)
  have k: "chat_keyboard True p ?t p ?g" for p
    using input_ends [of ?t True p] by (simp add: chat_forked_def line_ready_def fgets_None)
  then have 3: "chat_event True (?t, ?t) (?t, ?g)" "chat_event True (?t, ?g) (?g, ?g)"
    by (blast intro: chat_event.step chat_step.keyboard1 chat_step.keyboard2)+
  note run = rtranclp.rtrancl_into_rtrancl [of "chat_event True"]
  have "(chat_event True)\<^sup>*\<^sup>* (?s, ?s) (?g, ?g)"
    by (rule run [OF run [OF run [OF run [OF rtranclp.rtrancl_refl 1] 2] 3(1)] 3(2)])
  moreover have "\<not> chat_recv True ?g ?g e" "\<not> chat_keyboard True ?g ?g p e" for e p
    by (auto simp: chat_forked_def closed_def elim!: chat_recv.cases chat_keyboard.cases)
  then have "chat_stuck ?g ?g"
    unfolding chat_stuck_def by (auto elim!: chat_step.cases)
  ultimately show ?thesis
    by (intro exI [of _ ?g]) (simp add: chat_forked_def)
qed

end
