(* ===== verification/Multicopy.thy ===== *)
theory Multicopy
  imports Interleave "HOL-Library.Word"
begin

text \<open>
  \<open>process/ipc/codes/multicopy/multicopy.c\<close>: a file is copied by five processes, each of which reads its part of the
  source into its part of the mapped target.

  \<^item> The children inherit the descriptor of the source from \<open>fork\<close>, so that all processes share one open file and
    its one \<open>offset\<close>: \<open>Seek\<close> is \<open>lseek\<close>, \<open>Read_to d n\<close> reads up to \<open>n\<close> bytes at the offset, moves the offset
    and stores them at \<open>d\<close> in the mapping (a store outside of it is a fault).
  \<^item> \<open>parent\<close> and \<open>child\<close> are the actions of the processes; a child can begin when it has been forked, and \<open>Wait\<close>
    needs a child that has ended. \<open>copy_calls\<close> are the results of the calls in front.
  \<^item> \<open>tidy\<close> runs are those in which no two processes are between their \<open>lseek\<close> and their \<open>read\<close> at a time: then
    the copy is right. Nothing in the program keeps to that.
\<close>

type_synonym byte = "8 word"

datatype copy_act = Fork nat | Begin nat | Seek nat | Read_to nat nat | End_child | Wait

record copy_world =
  src :: "byte list"
  offset :: nat
  dest :: "byte list"
  forked :: nat
  exited :: nat
  fork_ok :: "nat \<Rightarrow> bool"

definition read_to :: "nat \<Rightarrow> nat \<Rightarrow> copy_world \<Rightarrow> copy_world run" where
  "read_to d n w =
     (let bs = take n (drop (offset w) (src w)) in
      if d + length bs \<le> length (dest w)
      then Inr (w\<lparr>dest := take d (dest w) @ bs @ drop (d + length bs) (dest w), offset := offset w + length bs\<rparr>)
      else Inl (Fault OutOfBounds))"

fun copy_exec :: "nat \<Rightarrow> copy_act \<Rightarrow> copy_world \<Rightarrow> copy_world run" where
  "copy_exec i (Fork k) w = (if fork_ok w k then Inr (w\<lparr>forked := Suc k\<rparr>) else Inl Exit_failure)"
| "copy_exec i (Begin k) w = (if k < forked w then Inr w else Inl Blocked)"
| "copy_exec i (Seek n) w = Inr (w\<lparr>offset := n\<rparr>)"
| "copy_exec i (Read_to d n) w = read_to d n w"
| "copy_exec i End_child w = Inr (w\<lparr>exited := Suc (exited w)\<rparr>)"
| "copy_exec i Wait w = (if exited w = 0 then Inl Blocked else Inr (w\<lparr>exited := exited w - 1\<rparr>))"

definition N :: nat where
  "N = 5"

definition child :: "nat \<Rightarrow> nat \<Rightarrow> copy_act list" where
  "child b i = [Begin i, Seek (i * b), Read_to (i * b) b, End_child]"

definition parent :: "nat \<Rightarrow> nat \<Rightarrow> copy_act list" where
  "parent b sz = map Fork [0..<4] @ [Seek ((N - 1) * b), Read_to ((N - 1) * b) (sz - b * (N - 1))] @ replicate 4 Wait"

record copy_calls =
  args_ok :: bool
  open_src_ok :: bool
  fstat_ok :: bool
  open_dest_ok :: bool
  ftruncate_ok :: bool
  mmap_ok :: bool

text \<open>A negative size makes \<open>ftruncate\<close> fail, an empty mapping \<open>mmap\<close>.\<close>

definition multicopy_main :: "copy_calls \<Rightarrow> (nat \<Rightarrow> bool) \<Rightarrow> byte list \<Rightarrow> (copy_world, copy_act) conf run" where
  "multicopy_main os forks s =
     (let sz = sint (of_nat (length s) :: 32 word) in
      if \<not> args_ok os then Inl Exit_failure
      else if \<not> open_src_ok os then Inl Exit_failure
      else if \<not> fstat_ok os then Inl Exit_failure
      else if \<not> open_dest_ok os then Inl Exit_failure
      else if \<not> ftruncate_ok os \<or> sz < 0 then Inl Exit_failure
      else if \<not> mmap_ok os \<or> sz = 0 then Inl Exit_failure
      else let b = nat sz div N in
        Inr \<lparr>shared = \<lparr>src = s, offset = 0, dest = replicate (nat sz) 0, forked = 0, exited = 0, fork_ok = forks\<rparr>,
             procs = (0, Calls [parent b (nat sz)]) # map (\<lambda>i. (0, Calls [child b i])) [0..<N - 1], one_group = False\<rparr>)"

subsection \<open>Tidy runs\<close>

fun reads_next :: "copy_act proc \<Rightarrow> bool" where
  "reads_next p = (case cur p of Some (Read_to d n) \<Rightarrow> True | _ \<Rightarrow> False)"

definition one_reading :: "(copy_world, copy_act) conf \<Rightarrow> bool" where
  "one_reading c \<longleftrightarrow> length (filter reads_next (procs c)) \<le> 1"

fun tidy :: "nat list \<Rightarrow> (copy_world, copy_act) conf \<Rightarrow> bool" where
  "tidy [] c = one_reading c"
| "tidy (i # is) c = (one_reading c \<and> (case pstep copy_exec i c of Inl e \<Rightarrow> True | Inr c' \<Rightarrow> tidy is c'))"


subsection \<open>The parts\<close>

text \<open>Process 0 is the parent and copies the last part; \<open>read_pc\<close> is where a process reads.\<close>

definition prog :: "nat \<Rightarrow> nat \<Rightarrow> nat \<Rightarrow> copy_act list" where
  "prog b sz i = (if i = 0 then parent b sz else child b (i - 1))"

definition part_at :: "nat \<Rightarrow> nat \<Rightarrow> nat" where
  "part_at b i = (if i = 0 then 4 * b else (i - 1) * b)"

definition part_len :: "nat \<Rightarrow> nat \<Rightarrow> nat \<Rightarrow> nat" where
  "part_len b sz i = (if i = 0 then sz - b * 4 else b)"

definition read_pc :: "nat \<Rightarrow> nat" where
  "read_pc i = (if i = 0 then 5 else 2)"

lemma parent_eq: "parent b sz = [Fork 0, Fork 1, Fork 2, Fork 3, Seek (4 * b), Read_to (4 * b) (sz - b * 4),
    Wait, Wait, Wait, Wait]"
  by (simp add: parent_def N_def upt_rec numeral_eq_Suc)

lemma prog_cases:
  assumes "pc < length (prog b sz i)"
  shows "pc = read_pc i \<and> prog b sz i ! pc = Read_to (part_at b i) (part_len b sz i) \<or>
    Suc pc = read_pc i \<and> prog b sz i ! pc = Seek (part_at b i) \<or>
    pc \<noteq> read_pc i \<and> Suc pc \<noteq> read_pc i \<and> (\<exists>k. prog b sz i ! pc \<in> {Fork k, Begin k, End_child, Wait})"
proof (cases "i = 0")
  case True
  then have "pc \<in> {0, 1, 2, 3, 4, 5, 6, 7, 8, 9}"
    using assms by (auto simp: prog_def parent_eq)
  then show ?thesis
    using True by (auto simp: prog_def parent_eq part_at_def part_len_def read_pc_def)
next
  case False
  then have "pc \<in> {0, 1, 2, 3}"
    using assms by (auto simp: prog_def child_def)
  then show ?thesis
    using False by (auto simp: prog_def child_def part_at_def part_len_def read_pc_def)
qed

lemma child_part: "k < 4 \<Longrightarrow> k * b + b \<le> 4 * (b :: nat)"
  by (metis Suc_leI add.commute mult_Suc mult_le_mono1)

lemma parts_disjoint:
  assumes "4 * b \<le> sz" "i < 5" "j < 5" "part_at b i \<le> x" "x < part_at b i + part_len b sz i"
    "part_at b j \<le> x" "x < part_at b j + part_len b sz j"
  shows "i = j"
proof -
  have d: "x div b = k" if "k * b \<le> x" "x < k * b + b" for k
    using that by (metis div_nat_eqI mult.commute add.commute mult_Suc)
  show ?thesis
  proof (cases i; cases j)
    fix m assume "i = 0" "j = Suc m"
    then have "m * b + b \<le> 4 * b" "4 * b \<le> x" "x < m * b + b"
      using assms child_part [of m b] by (simp_all add: part_at_def part_len_def)
    then show ?thesis
      by linarith
  next
    fix k assume "i = Suc k" "j = 0"
    then have "k * b + b \<le> 4 * b" "4 * b \<le> x" "x < k * b + b"
      using assms child_part [of k b] by (simp_all add: part_at_def part_len_def)
    then show ?thesis
      by linarith
  next
    fix k m assume "i = Suc k" "j = Suc m"
    then show ?thesis
      using assms d [of k] d [of m] by (simp add: part_at_def part_len_def)
  qed simp
qed

lemma part_fits: "4 * b \<le> sz \<Longrightarrow> i < 5 \<Longrightarrow> part_at b i + part_len b sz i \<le> sz"
  using order_trans [OF child_part [of "i - 1" b], of sz] by (cases i) (simp_all add: part_at_def part_len_def)

lemma parts_cover:
  assumes "x < sz" "4 * b \<le> sz"
  shows "\<exists>i<5. part_at b i \<le> x \<and> x < part_at b i + part_len b sz i"
proof (cases "x < 4 * b")
  case True
  then have "x div b < 4"
    by (metis less_mult_imp_div_less)
  moreover have "0 < b"
    using True by (cases b) auto
  then have "x div b * b \<le> x" "x < x div b * b + b"
    by (simp, metis add.commute dividend_less_div_times)
  ultimately show ?thesis
    by (intro exI [of _ "Suc (x div b)"]) (simp add: part_at_def part_len_def)
next
  case False
  then show ?thesis
    using assms by (intro exI [of _ 0]) (auto simp: part_at_def part_len_def)
qed


subsection \<open>The invariant of a tidy run\<close>

text \<open>A process that is past its read has its part right; one that is about to read has set the offset.\<close>

definition past_read :: "nat \<Rightarrow> copy_act proc \<Rightarrow> bool" where
  "past_read i p \<longleftrightarrow> p = ended \<or> read_pc i < fst p"

definition copier :: "nat \<Rightarrow> nat \<Rightarrow> nat \<Rightarrow> copy_act proc \<Rightarrow> bool" where
  "copier b sz i p \<longleftrightarrow> p = ended \<or> (\<exists>pc<length (prog b sz i). p = (pc, Calls [prog b sz i]))"

definition copy_inv :: "nat \<Rightarrow> byte list \<Rightarrow> (copy_world, copy_act) conf \<Rightarrow> bool" where
  "copy_inv b s c \<longleftrightarrow> src (shared c) = s \<and> length (dest (shared c)) = length s \<and> (\<forall>k. fork_ok (shared c) k) \<and>
     length (procs c) = 5 \<and> \<not> one_group c \<and>
     (\<forall>i<5. copier b (length s) i (procs c ! i) \<and>
       (reads_next (procs c ! i) \<longrightarrow> offset (shared c) = part_at b i) \<and>
       (past_read i (procs c ! i) \<longrightarrow> (\<forall>x. part_at b i \<le> x \<and> x < part_at b i + part_len b (length s) i \<longrightarrow>
          dest (shared c) ! x = s ! x)))"

lemma copier_step:
  assumes "copier b sz i p" "cur p = Some a"
  shows "\<exists>pc<length (prog b sz i). p = (pc, Calls [prog b sz i]) \<and> a = prog b sz i ! pc \<and>
    copier b sz i (advance p) \<and> (past_read i (advance p) \<longleftrightarrow> read_pc i \<le> pc) \<and>
    (reads_next (advance p) \<longleftrightarrow> Suc pc = read_pc i) \<and> (reads_next p \<longleftrightarrow> pc = read_pc i) \<and>
    (past_read i p \<longleftrightarrow> read_pc i < pc)"
proof -
  obtain pc where pc: "pc < length (prog b sz i)" "p = (pc, Calls [prog b sz i])" "a = prog b sz i ! pc"
    using assms by (auto simp: copier_def ended_def split: if_splits)
  have l: "Suc (read_pc i) < length (prog b sz i)"
    by (simp add: prog_def parent_eq child_def read_pc_def)
  have r: "reads_next (k, Calls [prog b sz i]) \<longleftrightarrow> k = read_pc i" if "k < length (prog b sz i)" for k
    using prog_cases [OF that] that by auto
  show ?thesis
    using pc l r [of pc] r [of "Suc pc"] by (auto simp: copier_def past_read_def ended_def)
qed

declare reads_next.simps [simp del]

lemma two_reading:
  assumes "i < length ps" "j < length ps" "i \<noteq> j" "reads_next (ps ! i)" "reads_next (ps ! j)"
  shows "1 < length (filter reads_next ps)"
proof -
  have "{i, j} \<subseteq> {k. k < length ps \<and> reads_next (ps ! k)}"
    using assms by simp
  then have "card {i, j} \<le> card {k. k < length ps \<and> reads_next (ps ! k)}"
    by (intro card_mono) auto
  then show ?thesis
    using assms(3) by (simp add: length_filter_conv_card)
qed

lemma one_readingD:
  "one_reading c \<Longrightarrow> i < length (procs c) \<Longrightarrow> j < length (procs c) \<Longrightarrow> reads_next (procs c ! i) \<Longrightarrow> reads_next (procs c ! j) \<Longrightarrow>
    i = j"
  using two_reading [of i "procs c" j] by (auto simp: one_reading_def)

lemma copy_quiet: "copy_inv b s c \<Longrightarrow> quiet copy_exec c"
  unfolding quiet_def
proof (intro allI impI)
  fix i a assume "copy_inv b s c" and a: "i < length (procs c)" "cur (procs c ! i) = Some a"
  then show "copy_exec i a (shared c) \<noteq> Inl Exit_failure"
    by (cases a) (auto simp: copy_inv_def read_to_def Let_def)
qed


lemma copy_invD:
  assumes "copy_inv b s c" "i < 5"
  shows "copier b (length s) i (procs c ! i)" "reads_next (procs c ! i) \<Longrightarrow> offset (shared c) = part_at b i"
    "past_read i (procs c ! i) \<Longrightarrow> part_at b i \<le> x \<Longrightarrow> x < part_at b i + part_len b (length s) i \<Longrightarrow> dest (shared c) ! x = s ! x"
  using assms by (auto simp: copy_inv_def)

lemma read_part:
  assumes "copy_inv b s c" "4 * b \<le> length s" "i < 5" "offset (shared c) = part_at b i"
    "read_to (part_at b i) (part_len b (length s) i) (shared c) = Inr w"
  shows "src w = s" "length (dest w) = length s" "fork_ok w = fork_ok (shared c)"
    "x < length s \<Longrightarrow> dest w ! x = (if part_at b i \<le> x \<and> x < part_at b i + part_len b (length s) i then s ! x
       else dest (shared c) ! x)"
proof -
  let ?a = "part_at b i" and ?n = "part_len b (length s) i"
  have f: "?a + ?n \<le> length s"
    by (rule part_fits [OF assms(2,3)])
  have c: "src (shared c) = s" "length (dest (shared c)) = length s"
    using assms(1) by (simp_all add: copy_inv_def)
  have n: "length (take ?n (drop ?a s)) = ?n"
    using f by simp
  have w: "w = (shared c)\<lparr>dest := take ?a (dest (shared c)) @ take ?n (drop ?a s) @ drop (?a + ?n) (dest (shared c)),
      offset := ?a + ?n\<rparr>"
    using assms(5) f c n by (simp add: read_to_def assms(4) Let_def min_absorb2)
  show "src w = s" "length (dest w) = length s" "fork_ok w = fork_ok (shared c)"
    using f c by (simp_all add: w)
  show "x < length s \<Longrightarrow> dest w ! x = (if ?a \<le> x \<and> x < ?a + ?n then s ! x else dest (shared c) ! x)"
    using f c by (auto simp: w nth_append min_def)
qed

lemma copy_step:
  assumes inv: "copy_inv b s c" and b: "4 * b \<le> length s" and i: "i < length (procs c)"
    and a: "cur (procs c ! i) = Some a" "copy_exec i a (shared c) = Inr w"
    and o: "one_reading c" "one_reading (c\<lparr>shared := w, procs := (procs c)[i := advance (procs c ! i)]\<rparr>)"
  shows "copy_inv b s (c\<lparr>shared := w, procs := (procs c)[i := advance (procs c ! i)]\<rparr>)"
    (is "copy_inv b s ?c")
proof -
  have i5: "i < 5" and len: "length (procs c) = 5"
    using inv i by (simp_all add: copy_inv_def)
  obtain pc where pc: "pc < length (prog b (length s) i)" "a = prog b (length s) i ! pc"
      "copier b (length s) i (advance (procs c ! i))" "past_read i (advance (procs c ! i)) \<longleftrightarrow> read_pc i \<le> pc"
      "reads_next (advance (procs c ! i)) \<longleftrightarrow> Suc pc = read_pc i" "reads_next (procs c ! i) \<longleftrightarrow> pc = read_pc i"
      "past_read i (procs c ! i) \<longleftrightarrow> read_pc i < pc"
    using copier_step [OF copy_invD(1) [OF inv i5] a(1)] by blast
  have one: "j = i" if "j < 5" "reads_next (procs c ! j)" "reads_next (procs c ! i)" for j
    using one_readingD [OF o(1)] that i5 len by simp
  have one': "j = i" if "j < 5" "j \<noteq> i \<Longrightarrow> reads_next (procs c ! j)" "reads_next (advance (procs c ! i))" for j
    using one_readingD [OF o(2), of j i] that i5 len by (cases "j = i") simp_all
  consider "pc = read_pc i" "a = Read_to (part_at b i) (part_len b (length s) i)"
    | "Suc pc = read_pc i" "a = Seek (part_at b i)"
    | k where "pc \<noteq> read_pc i" "Suc pc \<noteq> read_pc i" "a \<in> {Fork k, Begin k, End_child, Wait}"
    using prog_cases [OF pc(1)] pc(2) by auto
  then show ?thesis
  proof cases
    case 1
    have of: "offset (shared c) = part_at b i"
      using copy_invD(2) [OF inv i5] pc(6) 1 by simp
    have r: "read_to (part_at b i) (part_len b (length s) i) (shared c) = Inr w"
      using a(2) 1 by simp
    note w = read_part [OF inv b i5 of r]
    have d: "dest w ! x = s ! x" if "j < 5" "past_read j ((procs c)[i := advance (procs c ! i)] ! j)"
      "part_at b j \<le> x" "x < part_at b j + part_len b (length s) j" for j x
    proof (cases "j = i")
      case True
      then show ?thesis
        using w(4) [of x] that part_fits [OF b i5] by simp
    next
      case False
      then have "\<not> (part_at b i \<le> x \<and> x < part_at b i + part_len b (length s) i)"
        using parts_disjoint [OF b i5 that(1)] that(3,4) by blast
      then show ?thesis
        using w(4) [of x] copy_invD(3) [OF inv that(1) _ that(3,4)] that(2,3,4) False part_fits [OF b that(1)] by simp
    qed
    have "\<not> reads_next ((procs c)[i := advance (procs c ! i)] ! j)" if "j < 5" for j
      using one [OF that] pc(5,6) 1 i5 len by (cases "j = i") auto
    then show ?thesis
      using inv w(1-3) pc(3) d len i5 by (auto simp: copy_inv_def nth_list_update)
  next
    case 2
    then have "w = (shared c)\<lparr>offset := part_at b i\<rparr>"
      using a(2) by simp
    moreover have "\<not> reads_next (procs c ! j)" if "j < 5" "j \<noteq> i" for j
      using one' [OF that(1)] pc(5) 2 that by auto
    ultimately show ?thesis
      using inv pc 2 len i5 by (auto simp: copy_inv_def nth_list_update)
  next
    case 3
    then have "src w = src (shared c) \<and> dest w = dest (shared c) \<and> offset w = offset (shared c) \<and> fork_ok w = fork_ok (shared c)"
      using a(2) by (auto split: if_splits)
    moreover have "\<not> reads_next (advance (procs c ! i))" "past_read i (advance (procs c ! i)) \<longleftrightarrow> past_read i (procs c ! i)"
      using pc 3 by auto
    ultimately show ?thesis
      using inv pc(3) len i5 by (auto simp: copy_inv_def nth_list_update)
  qed
qed

lemma tidy_run:
  "run_sched copy_exec is c = Inr c' \<Longrightarrow> tidy is c \<Longrightarrow> copy_inv b s c \<Longrightarrow> 4 * b \<le> length s \<Longrightarrow> copy_inv b s c'"
proof (induction "is" arbitrary: c)
  case (Cons i "is")
  obtain c1 where c1: "pstep copy_exec i c = Inr c1" "run_sched copy_exec is c1 = Inr c'"
    using Cons.prems(1) by (auto simp: bnd_eq_Inr)
  then have t: "one_reading c" "tidy is c1"
    using Cons.prems(2) by simp_all
  then have "one_reading c1"
    by (cases "is") simp_all
  then have "copy_inv b s c1"
    using copy_step [OF Cons.prems(3,4)] pstep_action [OF c1(1) copy_quiet [OF Cons.prems(3)]] t(1) by metis
  then show ?case
    using Cons.IH [OF c1(2) t(2)] Cons.prems(4) by simp
qed simp

lemma copy_inv_start:
  assumes "multicopy_main os (\<lambda>k. True) s = Inr c" "length s < 2 ^ 31"
  shows "copy_inv (length s div N) s c"
proof -
  have "sint (of_nat (length s) :: 32 word) = int (length s)"
    using assms(2) by (simp add: signed_of_nat signed_take_bit_int_eq_self)
  then have c: "c = \<lparr>shared = \<lparr>src = s, offset = 0, dest = replicate (length s) 0, forked = 0, exited = 0, fork_ok = \<lambda>k. True\<rparr>,
      procs = (0, Calls [parent (length s div N) (length s)]) # map (\<lambda>i. (0, Calls [child (length s div N) i])) [0..<N - 1],
      one_group = False\<rparr>"
    using assms(1) by (auto simp: multicopy_main_def Let_def split: if_splits)
  have p: "procs c ! i = (0, Calls [prog (length s div N) (length s) i])" if "i < 5" for i
    using that by (cases i) (simp_all add: c prog_def N_def)
  have "0 < length (prog b n i) \<and> \<not> reads_next (0, Calls [prog b n i]) \<and> \<not> past_read i (0, Calls [prog b n i])" for b n i
    by (simp add: prog_def parent_eq child_def past_read_def read_pc_def ended_def reads_next.simps)
  note this [of "length s div N" "length s"]
  then have "\<forall>i<5. copier (length s div N) (length s) i (procs c ! i) \<and> \<not> reads_next (procs c ! i) \<and>
      \<not> past_read i (procs c ! i)"
    by (simp add: p copier_def)
  then show ?thesis
    unfolding copy_inv_def by (simp add: c N_def del: nth_Cons)
qed


subsection \<open>The properties\<close>

definition calls_ok :: copy_calls where
  "calls_ok = \<lparr>args_ok = True, open_src_ok = True, fstat_ok = True, open_dest_ok = True, ftruncate_ok = True, mmap_ok = True\<rparr>"

definition all_ended :: "(copy_world, copy_act) conf \<Rightarrow> bool" where
  "all_ended c \<longleftrightarrow> (\<forall>p\<in>set (procs c). p = ended)"

text \<open>
  C36. The division into parts is right, also when the size is no multiple of five: under every schedule that keeps the
  \<open>lseek\<close> and the \<open>read\<close> of a process together, and in whatever order the processes run, the target is the source when
  all have ended.
\<close>

theorem multicopy_copies:
  assumes "multicopy_main os (\<lambda>k. True) s = Inr c0" "length s < 2 ^ 31"
    "run_sched copy_exec is c0 = Inr c" "tidy is c0" "all_ended c"
  shows "dest (shared c) = s"
proof (rule nth_equalityI)
  have b: "4 * (length s div N) \<le> length s"
    by (simp add: N_def)
  note inv = tidy_run [OF assms(3,4) copy_inv_start [OF assms(1,2)] b]
  show l: "length (dest (shared c)) = length s"
    using inv by (simp add: copy_inv_def)
  fix x assume "x < length (dest (shared c))"
  then obtain i where i: "i < 5" "part_at (length s div N) i \<le> x"
      "x < part_at (length s div N) i + part_len (length s div N) (length s) i"
    using parts_cover [OF _ b] l by auto
  have "procs c ! i = ended"
    using assms(5) i(1) inv by (simp add: all_ended_def copy_inv_def)
  then show "dest (shared c) ! x = s ! x"
    using copy_invD(3) [OF inv i(1) _ i(2,3)] by (simp add: past_read_def)
qed

text \<open>
  Nothing keeps them together. The processes share the offset of the source: when a second child moves it between
  the \<open>lseek\<close> and the \<open>read\<close> of the first one, the first reads the other part. The target of this run on a file of five
  bytes is not the source.
\<close>

theorem multicopy_race:
  "\<exists>is c. bnd (multicopy_main calls_ok (\<lambda>k. True) [1, 2, 3, 4, 5]) (run_sched copy_exec is) = Inr c \<and> all_ended c \<and>
    dest (shared c) = [2, 3, 3, 4, 5]"
proof -
  let ?is = "[0, 0, 0, 0, 1, 1, 2, 2, 1, 1, 2, 2, 3, 3, 3, 3, 4, 4, 4, 4, 0, 0, 0, 0, 0, 0]"
  have "\<exists>c. bnd (multicopy_main calls_ok (\<lambda>k. True) [1, 2, 3, 4, 5]) (run_sched copy_exec ?is) = Inr c \<and> all_ended c \<and>
    dest (shared c) = [2, 3, 3, 4, 5]"
    by (simp add: multicopy_main_def calls_ok_def N_def parent_eq child_def pstep_def read_to_def all_ended_def ended_def Let_def
      upt_rec)
  then show ?thesis
    by blast
qed

theorem multicopy_copies_witness:
  "\<exists>c. bnd (multicopy_main calls_ok (\<lambda>k. True) [1, 2, 3, 4, 5, 6, 7]) (run_sched copy_exec
      [0, 0, 2, 2, 2, 0, 0, 0, 0, 4, 4, 4, 2, 1, 1, 1, 3, 3, 3, 1, 3, 4, 0, 0, 0, 0]) = Inr c \<and> dest (shared c) = [1, 2, 3, 4, 5, 6, 7]"
proof -
  let ?s = "[1, 2, 3, 4, 5, 6, 7] :: byte list"
    and ?is = "[0, 0, 2, 2, 2, 0, 0, 0, 0, 4, 4, 4, 2, 1, 1, 1, 3, 3, 3, 1, 3, 4, 0, 0, 0, 0]"
  define c0 where "c0 = (case multicopy_main calls_ok (\<lambda>k. True) ?s of Inr c \<Rightarrow> c)"
  have c0: "multicopy_main calls_ok (\<lambda>k. True) ?s = Inr c0"
    by (simp add: c0_def multicopy_main_def calls_ok_def Let_def)
  have "(\<exists>c. run_sched copy_exec ?is c0 = Inr c \<and> all_ended c) \<and> tidy ?is c0"
    by (simp add: c0_def multicopy_main_def calls_ok_def N_def parent_eq child_def pstep_def read_to_def all_ended_def ended_def Let_def
      upt_rec one_reading_def reads_next.simps)
  then obtain c where "run_sched copy_exec ?is c0 = Inr c" "all_ended c" "tidy ?is c0"
    by blast
  moreover from this have "dest (shared c) = ?s"
    using multicopy_copies [OF c0 _ \<open>run_sched copy_exec ?is c0 = Inr c\<close>] by simp
  ultimately show ?thesis
    unfolding c0 bnd_Inr by blast
qed

end
