(* ===== verification/CountSignals.thy ===== *)
theory CountSignals
  imports Prelude
begin

text \<open>
  \<open>cpp/codes/async-count/io.c\<close>: a parent and a child count in turn, and each tells the other by a signal when it has
  printed its number.

  \<^item> Both have their own copies of \<open>n\<close> (\<open>num\<close>) and \<open>flag\<close>. \<open>handle\<close> is the signal handler of either
    (\<open>handle_sigusr1\<close>, \<open>handle_sigusr2\<close>); a handler runs between any two actions of its process, and a pending
    signal is one bit. \<open>place\<close> is the place in the main loop: the test of \<open>flag\<close>, the call of \<open>kill\<close>, the
    assignment \<open>flag = 0\<close>. A child that gets the signal before it has registered its handler dies of it (the
    program sleeps a second to avoid that).
  \<^item> \<open>count_inv\<close> is the protocol: only the process whose turn it is can have a signal pending. So the numbers come in
    order (\<open>count_in_order\<close>); but the count may stop (\<open>count_stops\<close>), as the notes beside the program say.
\<close>

datatype who = Parent | Child

datatype place = Start | At_test | At_kill | At_clear | Dead

record counter =
  num :: int
  flag :: bool
  place :: place
  pending :: bool

record count_state =
  counter_of :: "who \<Rightarrow> counter"
  printed :: "(who \<times> int) list"

fun other :: "who \<Rightarrow> who" where
  "other Parent = Child"
| "other Child = Parent"

definition upd :: "who \<Rightarrow> (counter \<Rightarrow> counter) \<Rightarrow> count_state \<Rightarrow> count_state" where
  "upd p g s = s\<lparr>counter_of := (counter_of s)(p := g (counter_of s p))\<rparr>"

definition handle :: "who \<Rightarrow> count_state \<Rightarrow> count_state result" where
  "handle p s =
     (let n = num (counter_of s p) in
      if 2 ^ 31 \<le> n + 2 then Inl IntOverflow
      else Inr (upd p (\<lambda>c. c\<lparr>num := n + 2, flag := True\<rparr>) (s\<lparr>printed := printed s @ [(p, n)]\<rparr>)))"

inductive count_step :: "count_state \<Rightarrow> count_state \<Rightarrow> bool" where
  child_starts: "place (counter_of s Child) = Start \<Longrightarrow> \<not> pending (counter_of s Child) \<Longrightarrow>
     count_step s (upd Child (\<lambda>c. c\<lparr>num := 2, place := At_test\<rparr>) s)"
| child_killed: "place (counter_of s Child) = Start \<Longrightarrow> pending (counter_of s Child) \<Longrightarrow>
     count_step s (upd Child (\<lambda>c. c\<lparr>place := Dead, pending := False\<rparr>) s)"
| parent_starts: "place (counter_of s Parent) = Start \<Longrightarrow> handle Parent s = Inr s' \<Longrightarrow>
     count_step s (upd Parent (\<lambda>c. c\<lparr>place := At_test\<rparr>) s')"
| test_flag: "place (counter_of s p) = At_test \<Longrightarrow> flag (counter_of s p) \<Longrightarrow>
     count_step s (upd p (\<lambda>c. c\<lparr>place := At_kill\<rparr>) s)"
| send: "place (counter_of s p) = At_kill \<Longrightarrow>
     count_step s (upd (other p) (\<lambda>c. c\<lparr>pending := place c \<noteq> Dead\<rparr>) (upd p (\<lambda>c. c\<lparr>place := At_clear\<rparr>) s))"
| clear: "place (counter_of s p) = At_clear \<Longrightarrow>
     count_step s (upd p (\<lambda>c. c\<lparr>flag := False, place := At_test\<rparr>) s)"
| deliver: "place (counter_of s p) \<in> {At_test, At_kill, At_clear} \<Longrightarrow> pending (counter_of s p) \<Longrightarrow>
     handle p (upd p (\<lambda>c. c\<lparr>pending := False\<rparr>) s) = Inr s' \<Longrightarrow> count_step s s'"

definition count_start :: count_state where
  "count_start = \<lparr>counter_of = (\<lambda>p. \<lparr>num = 1, flag = False, place = Start, pending = False\<rparr>), printed = []\<rparr>"

inductive_cases count_stepE: "count_step s s'"

subsection \<open>Whose turn it is\<close>

text \<open>The first \<open>k\<close> lines; the process that prints line \<open>k + 1\<close>; a process that will not send.\<close>

definition turn :: "nat \<Rightarrow> who" where
  "turn k = (if even k then Parent else Child)"

definition counted :: "nat \<Rightarrow> (who \<times> int) list" where
  "counted k = map (\<lambda>i. (turn i, int i + 1)) [0..<k]"

definition idle_now :: "counter \<Rightarrow> bool" where
  "idle_now c \<longleftrightarrow> place c \<in> {Start, Dead, At_clear} \<or> place c = At_test \<and> \<not> flag c"

definition turn_inv :: "nat \<Rightarrow> counter \<Rightarrow> counter \<Rightarrow> bool" where
  "turn_inv k t w \<longleftrightarrow> idle_now t \<and> \<not> pending w \<and> (pending t \<longrightarrow> idle_now w \<and> 0 < k) \<and>
     (if k = 0 then place t = Start \<and> num t = 1 \<and> (place w = Start \<or> place w = At_test \<and> num w = 2) \<and> \<not> flag w
      else if k = 1 then place t \<notin> {Start, Dead} \<longrightarrow> num t = 2
      else place t \<notin> {Start, Dead} \<and> num t = int k + 1) \<and>
     (0 < k \<longrightarrow> place w \<notin> {Start, Dead} \<and> num w = int k + 2) \<and>
     (place t = Start \<longrightarrow> \<not> flag t)"

definition count_inv :: "nat \<Rightarrow> count_state \<Rightarrow> bool" where
  "count_inv k s \<longleftrightarrow> printed s = counted k \<and> turn_inv k (counter_of s (turn k)) (counter_of s (other (turn k)))"

lemma counted_Suc: "counted (Suc k) = counted k @ [(turn k, int k + 1)]"
  by (simp add: counted_def)

lemma turn_Suc [simp]: "turn (Suc k) = other (turn k)"
  by (simp add: turn_def)

lemma other_other [simp]: "other (other p) = p"
  by (cases p) auto

lemma other_neq [simp]: "other p \<noteq> p" "p \<noteq> other p"
  by (cases p; simp)+

lemma upd_sel [simp]:
  "counter_of (upd p g s) q = (if q = p then g (counter_of s q) else counter_of s q)" "printed (upd p g s) = printed s"
  by (simp_all add: upd_def)

lemma count_inv_start: "count_inv 0 count_start"
  by (simp add: count_inv_def turn_inv_def count_start_def counted_def idle_now_def)

text \<open>A process is either the one whose turn it is or the other one.\<close>

lemma whose: "p = turn k \<or> p = other (turn k)"
  by (cases p; cases "turn k") auto

lemma starting: "count_inv k s \<Longrightarrow> place (counter_of s p) = Start \<Longrightarrow> k = 0 \<or> k = 1 \<and> p = turn k"
  using whose [of p k] by (auto simp: count_inv_def turn_inv_def split: if_splits)

lemma turn_small: "turn 0 = Parent" "turn 1 = Child" "turn (Suc 0) = Child"
  by (simp_all add: turn_def)

lemma printed_upd [simp]: "counter_of (s\<lparr>printed := l\<rparr>) = counter_of s" "upd p g s\<lparr>printed := l\<rparr> = upd p g (s\<lparr>printed := l\<rparr>)"
  by (simp_all add: upd_def)

text \<open>Handlers move the turn, the other steps do not.\<close>

lemma deliver_inv:
  assumes inv: "count_inv k s" and p: "place (counter_of s p) \<in> {At_test, At_kill, At_clear}" "pending (counter_of s p)"
    and h: "handle p (upd p (\<lambda>c. c\<lparr>pending := False\<rparr>) s) = Inr s'"
  shows "count_inv (Suc k) s'"
proof -
  have t: "p = turn k" "0 < k"
    using whose [of p k] inv p(2) by (auto simp: count_inv_def turn_inv_def)
  have s': "s' = upd p (\<lambda>c. c\<lparr>num := num (counter_of s p) + 2, flag := True\<rparr>) (upd p (\<lambda>c. c\<lparr>pending := False\<rparr>)
      (s\<lparr>printed := printed s @ [(p, num (counter_of s p))]\<rparr>))"
    using h by (simp add: handle_def Let_def split: if_splits)
  show ?thesis
    unfolding s' using inv p t
    by (cases "k = 1") (auto simp: count_inv_def turn_inv_def counted_Suc)
qed

lemma parent_starts_inv:
  assumes inv: "count_inv k s" and p: "place (counter_of s Parent) = Start" and h: "handle Parent s = Inr s'"
  shows "count_inv (Suc k) (upd Parent (\<lambda>c. c\<lparr>place := At_test\<rparr>) s')"
proof -
  have k: "k = 0"
    using starting [OF inv p] by (auto simp: turn_def)
  have s': "s' = upd Parent (\<lambda>c. c\<lparr>num := num (counter_of s Parent) + 2, flag := True\<rparr>)
      (s\<lparr>printed := printed s @ [(Parent, num (counter_of s Parent))]\<rparr>)"
    using h by (simp add: handle_def Let_def split: if_splits)
  show ?thesis
    unfolding s' k using inv[unfolded k] p
    by (auto simp: count_inv_def turn_inv_def counted_def turn_small idle_now_def)
qed

lemma child_inv:
  assumes "count_inv k s" "place (counter_of s Child) = Start"
  shows "\<not> pending (counter_of s Child) \<Longrightarrow> count_inv k (upd Child (\<lambda>c. c\<lparr>num := 2, place := At_test\<rparr>) s)"
    "count_inv k (upd Child (\<lambda>c. c\<lparr>place := Dead, pending := False\<rparr>) s) \<or> \<not> pending (counter_of s Child)"
proof -
  consider "k = 0" | "k = 1"
    using starting [OF assms] by blast
  then have "(\<not> pending (counter_of s Child) \<longrightarrow> count_inv k (upd Child (\<lambda>c. c\<lparr>num := 2, place := At_test\<rparr>) s)) \<and>
    (pending (counter_of s Child) \<longrightarrow> count_inv k (upd Child (\<lambda>c. c\<lparr>place := Dead, pending := False\<rparr>) s))"
    by cases (use assms in \<open>auto simp: count_inv_def turn_inv_def turn_small idle_now_def\<close>)
  then show "\<not> pending (counter_of s Child) \<Longrightarrow> count_inv k (upd Child (\<lambda>c. c\<lparr>num := 2, place := At_test\<rparr>) s)"
    "count_inv k (upd Child (\<lambda>c. c\<lparr>place := Dead, pending := False\<rparr>) s) \<or> \<not> pending (counter_of s Child)"
    by blast+
qed

lemma test_inv:
  assumes "count_inv k s" "place (counter_of s p) = At_test" "flag (counter_of s p)"
  shows "count_inv k (upd p (\<lambda>c. c\<lparr>place := At_kill\<rparr>) s)"
proof -
  have "p = other (turn k)" "0 < k"
    using whose [of p k] assms by (auto simp: count_inv_def turn_inv_def idle_now_def split: if_splits)
  then show ?thesis
    using assms by (auto simp: count_inv_def turn_inv_def idle_now_def)
qed

lemma send_inv:
  assumes "count_inv k s" "place (counter_of s p) = At_kill"
  shows "count_inv k (upd (other p) (\<lambda>c. c\<lparr>pending := place c \<noteq> Dead\<rparr>) (upd p (\<lambda>c. c\<lparr>place := At_clear\<rparr>) s))"
proof -
  have "p = other (turn k)" "0 < k"
    using whose [of p k] assms by (auto simp: count_inv_def turn_inv_def idle_now_def split: if_splits)
  then show ?thesis
    using assms by (auto simp: count_inv_def turn_inv_def idle_now_def)
qed

lemma clear_inv:
  assumes "count_inv k s" "place (counter_of s p) = At_clear"
  shows "count_inv k (upd p (\<lambda>c. c\<lparr>flag := False, place := At_test\<rparr>) s)"
proof -
  consider "p = turn k" | "p = other (turn k)"
    using whose by blast
  then show ?thesis
  proof cases
    case 1
    then have "0 < k"
      using assms by (auto simp: count_inv_def turn_inv_def split: if_splits)
    then show ?thesis
      using assms 1 by (auto simp: count_inv_def turn_inv_def idle_now_def)
  next
    case 2
    then have "0 < k"
      using assms by (auto simp: count_inv_def turn_inv_def split: if_splits)
    then show ?thesis
      using assms 2 by (auto simp: count_inv_def turn_inv_def idle_now_def)
  qed
qed

lemma count_inv_step: "count_step s s' \<Longrightarrow> count_inv k s \<Longrightarrow> \<exists>k. count_inv k s'"
proof (induction rule: count_step.induct)
  case (child_starts s)
  then show ?case
    using child_inv(1) by blast
next
  case (child_killed s)
  then show ?case
    using child_inv(2) by blast
next
  case (parent_starts s s')
  then show ?case
    using parent_starts_inv by blast
next
  case (test_flag s p)
  then show ?case
    using test_inv by blast
next
  case (send s p)
  then show ?case
    using send_inv by blast
next
  case (clear s p)
  then show ?case
    using clear_inv by blast
next
  case (deliver s p s')
  then show ?case
    using deliver_inv by blast
qed

lemma count_inv_reach:
  assumes "count_step\<^sup>*\<^sup>* count_start s"
  shows "\<exists>k. count_inv k s"
  using assms by (induction rule: rtranclp_induct) (use count_inv_start count_inv_step in blast)+


subsection \<open>The properties\<close>

text \<open>The run that stops: the parent clears its flag after the signal of the child has set it again.\<close>

definition stopped :: count_state where
  "stopped = \<lparr>counter_of = (\<lambda>p. \<lparr>num = (case p of Parent \<Rightarrow> 5 | Child \<Rightarrow> 4), flag = False, place = At_test,
     pending = False\<rparr>), printed = [(Parent, 1), (Child, 2), (Parent, 3)]\<rparr>"

lemma stopped_reached: "count_step\<^sup>*\<^sup>* count_start stopped"
proof -
  have eq: "count_step\<^sup>*\<^sup>* x stopped" if "counter_of x Parent = counter_of stopped Parent" "counter_of x Child = counter_of stopped Child"
    "printed x = printed stopped" for x :: count_state
  proof -
    have "counter_of x = counter_of stopped"
      using that(1,2) by (intro ext) (metis who.exhaust)
    then have "x = stopped"
      using that(3) by simp
    then show ?thesis
      by simp
  qed
  show ?thesis
    apply (rule converse_rtranclp_into_rtranclp, rule child_starts; (simp add: count_start_def)?)
    apply (rule converse_rtranclp_into_rtranclp, rule parent_starts; (simp add: handle_def Let_def)?)
    apply (rule converse_rtranclp_into_rtranclp, rule test_flag [of _ Parent]; (simp add: handle_def Let_def)?)
    apply (rule converse_rtranclp_into_rtranclp, rule send [of _ Parent]; (simp add: handle_def Let_def)?)
    apply (rule converse_rtranclp_into_rtranclp, rule deliver [of _ Child]; (simp add: handle_def Let_def)?)
    apply (rule converse_rtranclp_into_rtranclp, rule test_flag [of _ Child]; (simp add: handle_def Let_def)?)
    apply (rule converse_rtranclp_into_rtranclp, rule send [of _ Child]; (simp add: handle_def Let_def)?)
    apply (rule converse_rtranclp_into_rtranclp, rule deliver [of _ Parent]; (simp add: handle_def Let_def)?)
    apply (rule converse_rtranclp_into_rtranclp, rule clear [of _ Parent]; (simp add: handle_def Let_def)?)
    apply (rule converse_rtranclp_into_rtranclp, rule clear [of _ Child]; (simp add: handle_def Let_def)?)
    apply (rule eq; simp add: stopped_def)
    done
qed

lemma stopped_stuck: "\<not> count_step stopped s"
proof
  assume "count_step stopped s"
  then show False
    by (cases rule: count_stepE) (auto simp: stopped_def)
qed

text \<open>The count may stop for ever: both processes wait for the flag that the other one has cleared.\<close>

theorem count_stops:
  "\<exists>s. count_step\<^sup>*\<^sup>* count_start s \<and> (\<forall>s'. \<not> count_step s s') \<and> printed s = counted 3"
  using stopped_reached stopped_stuck by (intro exI [of _ stopped]) (simp add: stopped_def counted_def turn_def upt_rec)

text \<open>
  C34. Whatever the processes do and whenever the signals arrive, the lines printed so far are the numbers 1, 2, 3 and so
  on, the odd ones by the parent and the even ones by the child.
\<close>

theorem count_in_order:
  assumes "count_step\<^sup>*\<^sup>* count_start s"
  shows "\<exists>k. printed s = counted k"
  using count_inv_reach [OF assms] by (auto simp: count_inv_def)

theorem count_in_order_witness:
  "count_step\<^sup>*\<^sup>* count_start stopped \<and> printed stopped = counted 3 \<and> (\<exists>k. printed stopped = counted k)"
  using stopped_reached count_in_order [OF stopped_reached] by (simp add: stopped_def counted_def turn_def upt_rec)

end
