(* ===== verification/ForkServer.thy ===== *)
theory ForkServer
  imports Chat
begin

text \<open>
  The echo servers of \<open>network/socket/codes\<close> with a process for each connection: \<open>echo/server.c\<close> (which
  \<open>echo/fork-server.c\<close> repeats), its first version \<open>simple-tcp/server.c\<close> and \<open>unix-echo/server.c\<close>, which do not handle
  \<open>SIGCHLD\<close>.

  \<^item> \<open>handle_client_turn\<close> is one pass through the loop of \<open>handle_client\<close>, \<open>handle_client\<close> the loop. Every \<open>-1\<close> of
    \<open>read\<close> ends the process; the result of \<open>write\<close> is not looked at.
  \<^item> \<open>fork_server\<close> is the server process with its children; \<open>fork_step reap turn\<close> a step of one of them or a signal, with
    the handler (\<open>reap\<close>) or without, where a child serves its client by \<open>turn\<close>. The kernel keeps one pending bit for \<open>SIGCHLD\<close>, however many children end, and
    blocks the signal while the handler runs. A child that has ended is a zombie until it is waited for.
  \<^item> \<open>fork_inv\<close>: the server never keeps the descriptor of a connection, a child has the one of its own connection
    only, and no zombie is forgotten.
\<close>

definition handle_client_turn :: "byte list \<Rightarrow> sock \<Rightarrow> (bool \<times> byte list \<times> sock) run" where
  "handle_client_turn out s =
     bnd (sys_recv False BUFFER_LENGTH s) (\<lambda>(r, s). case r of
       EINTR \<Rightarrow> Inl Exit_failure
     | EFAIL \<Rightarrow> Inl Exit_failure
     | Data bs \<Rightarrow>
         if bs = [] then Inr (False, out, s)
         else bnd (store (replicate BUFFER_LENGTH 0) 0 bs) (\<lambda>recv_buf. bnd (fputs recv_buf) (\<lambda>text.
           bnd (sys_write (take (length bs) recv_buf) s) (\<lambda>(_, _, s). Inr (True, out @ text, s)))))"

lemma sys_write_keeps: "sys_write bs s = Inr (r, e, s') \<Longrightarrow> script s' = script s \<and> inq s' = inq s \<and> fin s' = fin s"
  by (auto simp: sys_write_def Let_def split: list.splits tx.splits)

lemma handle_client_turn_script:
  assumes "handle_client_turn out s = Inr (b, out', s')"
  shows "length (script s') < length (script s)"
proof -
  obtain r t where r: "sys_recv False BUFFER_LENGTH s = Inr (r, t)"
    using assms by (auto simp: handle_client_turn_def bnd_eq_Inr)
  have "script s' = script t"
    using assms r by (cases r) (auto simp: handle_client_turn_def bnd_eq_Inr split: if_splits dest: sys_write_keeps)
  then show ?thesis
    using sys_recv_script [OF r] by simp
qed

function handle_client :: "byte list \<Rightarrow> sock \<Rightarrow> (byte list \<times> sock) run" where
  "handle_client out s =
     bnd (handle_client_turn out s) (\<lambda>(go_on, out, s). if go_on then handle_client out s else Inr (out, s))"
  by pat_completeness auto
termination
  by (relation "measure (\<lambda>(out, s). length (script s))") (auto dest: handle_client_turn_script)

declare handle_client.simps [simp del]

text \<open>The loop of \<open>handle_echo_server\<close> in \<open>unix-echo/server.c\<close>: interruptions are ignored, and the whole buffer goes back.\<close>

definition handle_echo_server_turn :: "byte list \<Rightarrow> sock \<Rightarrow> (bool \<times> byte list \<times> sock) run" where
  "handle_echo_server_turn out s =
     bnd (sys_recv False BUFFER_LENGTH s) (\<lambda>(r, s). case r of
       EINTR \<Rightarrow> Inr (True, out, s)
     | EFAIL \<Rightarrow> Inl Exit_failure
     | Data bs \<Rightarrow>
         if bs = [] then Inr (False, out, s)
         else bnd (store (replicate BUFFER_LENGTH 0) 0 bs) (\<lambda>recv_buf. bnd (fputs recv_buf) (\<lambda>text.
           bnd (sys_write recv_buf s) (\<lambda>(_, _, s). Inr (True, out @ text, s)))))"

subsection \<open>The server and its children\<close>

record kid =
  conn_sockfd :: nat
  kid_fds :: "nat list"
  kid_sock :: sock
  kid_out :: "byte list"

datatype kid_state = Running kid | Zombie | Reaped

record fork_server =
  fds :: "nat list"
  kids :: "kid_state list"
  sigchld :: bool
  in_handler :: bool
  alive :: bool

definition LISTENER :: nat where
  "LISTENER = 3"

definition fork_start :: fork_server where
  "fork_start = \<lparr>fds = [0, 1, 2, LISTENER], kids = [], sigchld = False, in_handler = False, alive = True\<rparr>"

definition fork_main :: "sys_calls \<Rightarrow> fork_server run" where
  "fork_main os =
     (if \<not> socket_ok os then Inl Exit_failure
      else if \<not> setsockopt_ok os then Inl Exit_failure
      else if \<not> bind_ok os then Inl Exit_failure
      else if \<not> listen_ok os then Inl Exit_failure
      else Inr fork_start)"

definition close_fd :: "nat \<Rightarrow> nat list \<Rightarrow> nat list" where
  "close_fd c xs = filter (\<lambda>x. x \<noteq> c) xs"

text \<open>After a successful \<open>accept\<close>; a \<open>pid\<close> of \<open>-1\<close> takes the branch of the parent.\<close>

definition serve_connection :: "bool \<Rightarrow> sock \<Rightarrow> fork_server \<Rightarrow> fork_server" where
  "serve_connection fork_works sk s =
     (let c = lowest_unused (fds s); all = fds s @ [c] in
      if fork_works
      then s\<lparr>fds := close_fd c all,
             kids := kids s @ [Running \<lparr>conn_sockfd = c, kid_fds = close_fd LISTENER all, kid_sock = sk, kid_out = []\<rparr>]\<rparr>
      else s\<lparr>fds := close_fd c all\<rparr>)"

definition kid_ends :: "bool \<Rightarrow> nat \<Rightarrow> fork_server \<Rightarrow> fork_server" where
  "kid_ends reap i s = s\<lparr>kids := (kids s)[i := Zombie], sigchld := sigchld s \<or> reap\<rparr>"

inductive fork_step :: "bool \<Rightarrow> (byte list \<Rightarrow> sock \<Rightarrow> (bool \<times> byte list \<times> sock) run) \<Rightarrow>
  fork_server \<Rightarrow> fork_server \<Rightarrow> bool" for reap turn where
  accepted: "alive s \<Longrightarrow> \<not> in_handler s \<Longrightarrow> fork_step reap turn s (serve_connection fork_works sk s)"
| accept_fails: "alive s \<Longrightarrow> \<not> in_handler s \<Longrightarrow> fork_step reap turn s (s\<lparr>alive := False\<rparr>)"
| kid_turn: "i < length (kids s) \<Longrightarrow> kids s ! i = Running k \<Longrightarrow>
     turn (kid_out k) (kid_sock k) = Inr (True, out, sk) \<Longrightarrow>
     fork_step reap turn s (s\<lparr>kids := (kids s)[i := Running (k\<lparr>kid_out := out, kid_sock := sk\<rparr>)]\<rparr>)"
| kid_done: "i < length (kids s) \<Longrightarrow> kids s ! i = Running k \<Longrightarrow>
     turn (kid_out k) (kid_sock k) = Inr (False, out, sk) \<Longrightarrow> fork_step reap turn s (kid_ends reap i s)"
| kid_fails: "i < length (kids s) \<Longrightarrow> kids s ! i = Running k \<Longrightarrow>
     turn (kid_out k) (kid_sock k) = Inl Exit_failure \<Longrightarrow> fork_step reap turn s (kid_ends reap i s)"
| handler_enters: "alive s \<Longrightarrow> sigchld s \<Longrightarrow> \<not> in_handler s \<Longrightarrow> fork_step reap turn s (s\<lparr>sigchld := False, in_handler := True\<rparr>)"
| waitpid_reaps: "alive s \<Longrightarrow> in_handler s \<Longrightarrow> i < length (kids s) \<Longrightarrow> kids s ! i = Zombie \<Longrightarrow>
     fork_step reap turn s (s\<lparr>kids := (kids s)[i := Reaped]\<rparr>)"
| handler_returns: "alive s \<Longrightarrow> in_handler s \<Longrightarrow> Zombie \<notin> set (kids s) \<Longrightarrow> fork_step reap turn s (s\<lparr>in_handler := False\<rparr>)"

inductive_cases fork_stepE: "fork_step reap turn s s'"

subsection \<open>The invariant\<close>

definition own_connection :: "kid_state \<Rightarrow> bool" where
  "own_connection z = (case z of Running k \<Rightarrow> conn_sockfd k = 4 \<and> kid_fds k = [0, 1, 2, 4] | _ \<Rightarrow> True)"

definition fork_inv :: "bool \<Rightarrow> fork_server \<Rightarrow> bool" where
  "fork_inv reap s \<longleftrightarrow> fds s = [0, 1, 2, LISTENER] \<and> (\<forall>z\<in>set (kids s). own_connection z) \<and>
     (reap \<and> Zombie \<in> set (kids s) \<longrightarrow> sigchld s \<or> in_handler s) \<and>
     (\<not> reap \<longrightarrow> \<not> sigchld s \<and> \<not> in_handler s \<and> Reaped \<notin> set (kids s))"

lemma next_descriptor: "lowest_unused [0, 1, 2, LISTENER] = 4"
  by (simp add: lowest_unused_def LISTENER_def upt_rec)

lemma set_update: "z \<in> set (xs[i := v]) \<Longrightarrow> z = v \<or> z \<in> set xs"
  by (meson insertE set_update_subset_insert subsetD)

lemma serve_connection_eq:
  assumes "fds s = [0, 1, 2, LISTENER]"
  shows "serve_connection f sk s =
    (if f then s\<lparr>kids := kids s @ [Running \<lparr>conn_sockfd = 4, kid_fds = [0, 1, 2, 4], kid_sock = sk, kid_out = []\<rparr>]\<rparr> else s)"
proof -
  have "close_fd 4 ([0, 1, 2, LISTENER] @ [4]) = [0, 1, 2, LISTENER]"
    "close_fd LISTENER ([0, 1, 2, LISTENER] @ [4]) = [0, 1, 2, 4]"
    by (simp_all add: close_fd_def LISTENER_def)
  then show ?thesis
    unfolding serve_connection_def Let_def assms next_descriptor using assms by simp
qed

lemma serve_connection_inv: "fork_inv reap s \<Longrightarrow> \<not> in_handler s \<Longrightarrow> fork_inv reap (serve_connection f sk s)"
  by (auto simp: fork_inv_def serve_connection_eq own_connection_def)

lemma kid_ends_inv: "fork_inv reap s \<Longrightarrow> fork_inv reap (kid_ends reap i s)"
  by (auto simp: fork_inv_def kid_ends_def own_connection_def dest!: set_update)

lemma fork_step_inv: "fork_step reap turn s s' \<Longrightarrow> fork_inv reap s \<Longrightarrow> fork_inv reap s'"
proof (induction rule: fork_step.induct)
  case (kid_turn i s k out sk)
  have "own_connection (Running k)"
    using kid_turn by (metis fork_inv_def nth_mem)
  then show ?case
    using kid_turn.prems by (auto simp: fork_inv_def own_connection_def dest!: set_update)
next
  case (waitpid_reaps s i)
  then show ?case
    by (auto simp: fork_inv_def own_connection_def dest!: set_update)
qed (auto simp: serve_connection_inv kid_ends_inv, auto simp: fork_inv_def)

lemma fork_reach: "(fork_step reap turn)\<^sup>*\<^sup>* s s' \<Longrightarrow> fork_inv reap s \<Longrightarrow> fork_inv reap s'"
  by (induction rule: rtranclp_induct) (auto intro: fork_step_inv)

lemma fork_inv_start: "fork_main os = Inr s \<Longrightarrow> fork_inv reap s"
  by (auto simp: fork_main_def fork_inv_def fork_start_def split: if_splits)

subsection \<open>The loop of a child\<close>

text \<open>
  The input in the pieces in which it is read; a piece that fills the buffer has to have a zero byte, because the buffer
  is printed as a string.
\<close>

definition readable_piece :: "byte list \<Rightarrow> bool" where
  "readable_piece b \<longleftrightarrow> b \<noteq> [] \<and> length b \<le> BUFFER_LENGTH \<and> (length b = BUFFER_LENGTH \<longrightarrow> 0 \<in> set b)"

definition read_whole :: "byte list \<Rightarrow> rx" where
  "read_whole b = Chunk (length b - 1)"

definition takes_all :: "tx \<Rightarrow> bool" where
  "takes_all a = (case a of Accept k \<Rightarrow> BUFFER_LENGTH \<le> k | _ \<Rightarrow> False)"

lemma fputs_piece:
  assumes "readable_piece b"
  shows "fputs (b @ replicate (BUFFER_LENGTH - length b) 0) = Inr (c_str b)"
proof (cases "0 \<in> set b")
  case True
  then show ?thesis
    by (auto simp: fputs_def c_str_def takeWhile_append1)
next
  case False
  then show ?thesis
    using assms by (subst fputs_terminated) (auto simp: readable_piece_def c_str_no_nul)
qed

lemma turn_piece:
  assumes "readable_piece b" "script s = read_whole b # r" "inq s = b @ rest" "wscript s = a # w" "takes_all a"
  shows "handle_client_turn out s = Inr (True, out @ c_str b, s\<lparr>inq := rest, script := r, sent := sent s @ b, wscript := w\<rparr>)"
proof -
  have b: "b \<noteq> []" "length b \<le> BUFFER_LENGTH" "Suc (length b - 1) = length b"
    using assms(1) by (auto simp: readable_piece_def)
  have "sys_recv False BUFFER_LENGTH s = Inr (Data b, s\<lparr>inq := rest, script := r\<rparr>)"
    using assms(2,3) b by (simp add: sys_recv_def read_whole_def Let_def min_absorb2)
  moreover have "store (replicate BUFFER_LENGTH 0) 0 b = Inr (b @ replicate (BUFFER_LENGTH - length b) 0)"
    using b by (subst store_ok) auto
  moreover obtain k where "a = Accept k" "BUFFER_LENGTH \<le> k"
    using assms(5) by (cases a) (auto simp: takes_all_def)
  ultimately show ?thesis
    using b assms(4) fputs_piece [OF assms(1)] by (simp add: handle_client_turn_def sys_write_def Let_def min_absorb1)
qed

lemma turn_close: "script s = Chunk k # r \<Longrightarrow> inq s = [] \<Longrightarrow> fin s \<Longrightarrow>
    handle_client_turn out s = Inr (False, out, s\<lparr>script := r\<rparr>)"
  by (simp add: handle_client_turn_def sys_recv_def Let_def)

lemma handle_client_pieces:
  "\<forall>b\<in>set bs. readable_piece b \<Longrightarrow> script s = map read_whole bs @ [Chunk k] \<Longrightarrow> inq s = concat bs \<Longrightarrow> fin s \<Longrightarrow>
    \<forall>a\<in>set (wscript s). takes_all a \<Longrightarrow> length bs \<le> length (wscript s) \<Longrightarrow>
    \<exists>s'. handle_client out s = Inr (out @ concat (map c_str bs), s') \<and> sent s' = sent s @ concat bs"
proof (induction bs arbitrary: out s)
  case Nil
  then show ?case
    by (subst handle_client.simps) (simp add: turn_close)
next
  case (Cons b bs)
  obtain a w where w: "wscript s = a # w"
    using Cons.prems(6) by (cases "wscript s") auto
  let ?s = "s\<lparr>inq := concat bs, script := map read_whole bs @ [Chunk k], sent := sent s @ b, wscript := w\<rparr>"
  have "handle_client_turn out s = Inr (True, out @ c_str b, ?s)"
    using Cons.prems w by (intro turn_piece [where a = a]) auto
  then have "handle_client out s = handle_client (out @ c_str b) ?s"
    by (subst handle_client.simps) simp
  moreover have "\<exists>s'. handle_client (out @ c_str b) ?s = Inr ((out @ c_str b) @ concat (map c_str bs), s') \<and>
      sent s' = sent ?s @ concat bs"
    by (rule Cons.IH) (use Cons.prems w in auto)
  ultimately show ?case
    by auto
qed

subsection \<open>Zombies\<close>

definition buried :: "kid_state \<Rightarrow> kid_state" where
  "buried z = (if z = Zombie then Reaped else z)"

lemma bury_one: "i < length ks \<Longrightarrow> ks ! i = Zombie \<Longrightarrow> map buried (ks[i := Reaped]) = map buried ks"
  by (rule nth_equalityI) (auto simp: nth_list_update buried_def)

lemma one_zombie_less: "i < length ks \<Longrightarrow> ks ! i = Zombie \<Longrightarrow>
    length (filter (\<lambda>z. z = Zombie) ks) = Suc (length (filter (\<lambda>z. z = Zombie) (ks[i := Reaped])))"
  by (induction ks arbitrary: i) (auto split: nat.splits simp: nth_Cons)

lemma reap_all:
  "alive s \<Longrightarrow> in_handler s \<Longrightarrow> (fork_step reap turn)\<^sup>*\<^sup>* s (s\<lparr>kids := map buried (kids s), in_handler := False\<rparr>)"
proof (induction "length (filter (\<lambda>z. z = Zombie) (kids s))" arbitrary: s)
  case 0
  then have z: "Zombie \<notin> set (kids s)"
    by (auto simp: filter_empty_conv)
  then have "map buried (kids s) = kids s"
    by (auto simp: buried_def intro: map_idI)
  then show ?case
    using handler_returns [OF 0(2,3) z] by (simp add: r_into_rtranclp)
next
  case (Suc n)
  then obtain i where i: "i < length (kids s)" "kids s ! i = Zombie"
    by (metis (mono_tags, lifting) filter_False in_set_conv_nth list.size(3) nat.distinct(1))
  let ?s = "s\<lparr>kids := (kids s)[i := Reaped]\<rparr>"
  have "n = length (filter (\<lambda>z. z = Zombie) (kids ?s))"
    using Suc(2) one_zombie_less [OF i] by simp
  then have "(fork_step reap turn)\<^sup>*\<^sup>* ?s (?s\<lparr>kids := map buried (kids ?s), in_handler := False\<rparr>)"
    using Suc(1) [of ?s] Suc(3,4) by simp
  moreover have "fork_step reap turn s ?s"
    using waitpid_reaps Suc(3,4) i by blast
  ultimately show ?case
    using bury_one [OF i] by (simp add: converse_rtranclp_into_rtranclp)
qed


subsection \<open>The properties\<close>

text \<open>
  C13. The server with the signal handler, whatever it accepts and in whatever order its children run and end: the server
  keeps the descriptors it started with, a child has the descriptor of its own connection only, and from every state
  with an unhandled signal the handler can run to its end and bury all zombies, however many children ended for that one
  signal; a server without such a signal has none.
\<close>

theorem fork_server_reaps:
  assumes "fork_main os = Inr s0" "(fork_step True turn)\<^sup>*\<^sup>* s0 s"
  shows "fds s = [0, 1, 2, LISTENER] \<and> (\<forall>z\<in>set (kids s). own_connection z) \<and>
    (alive s \<longrightarrow> (\<exists>s'. (fork_step True turn)\<^sup>*\<^sup>* s s' \<and> kids s' = map buried (kids s) \<and> alive s' \<and> \<not> in_handler s')) \<and>
    (\<not> sigchld s \<and> \<not> in_handler s \<longrightarrow> Zombie \<notin> set (kids s))"
proof (intro conjI impI)
  note inv = fork_reach [OF assms(2) fork_inv_start [OF assms(1)]]
  show "fds s = [0, 1, 2, LISTENER]" "\<forall>z\<in>set (kids s). own_connection z"
    using inv by (simp_all add: fork_inv_def)
  show "\<not> sigchld s \<and> \<not> in_handler s \<Longrightarrow> Zombie \<notin> set (kids s)"
    using inv by (auto simp: fork_inv_def)
  show "\<exists>s'. (fork_step True turn)\<^sup>*\<^sup>* s s' \<and> kids s' = map buried (kids s) \<and> alive s' \<and> \<not> in_handler s'" if a: "alive s"
  proof (cases "in_handler s")
    case True
    then show ?thesis
      using reap_all [OF a True] a by (intro exI [of _ "s\<lparr>kids := map buried (kids s), in_handler := False\<rparr>"]) simp
  next
    case False
    show ?thesis
    proof (cases "sigchld s")
      case True
      let ?s = "s\<lparr>sigchld := False, in_handler := True\<rparr>"
      have "fork_step True turn s ?s"
        using handler_enters a True False by blast
      then have "(fork_step True turn)\<^sup>*\<^sup>* s (?s\<lparr>kids := map buried (kids ?s), in_handler := False\<rparr>)"
        using reap_all [of ?s] a by (simp add: converse_rtranclp_into_rtranclp)
      then show ?thesis
        using a by (intro exI [of _ "?s\<lparr>kids := map buried (kids ?s), in_handler := False\<rparr>"]) simp
    next
      case no: False
      then have "map buried (kids s) = kids s"
        using inv False by (auto simp: fork_inv_def buried_def intro: map_idI)
      then show ?thesis
        using a False by (intro exI [of _ s]) simp
    qed
  qed
qed

text \<open>A client that has gone before it is served.\<close>

definition gone_client :: sock where
  "gone_client = \<lparr>inq = [], fin = True, script = [Chunk 0], sent = [], wscript = []\<rparr>"

lemma gone_client_turn: "handle_client_turn [] gone_client = Inr (False, [], gone_client\<lparr>script := []\<rparr>)"
  by (simp add: turn_close gone_client_def)

lemma unix_gone_client_turn: "handle_echo_server_turn [] gone_client = Inr (False, [], gone_client\<lparr>script := []\<rparr>)"
  by (simp add: handle_echo_server_turn_def sys_recv_def Let_def gone_client_def)

definition all_zombies :: "bool \<Rightarrow> nat \<Rightarrow> fork_server" where
  "all_zombies reap n = fork_start\<lparr>kids := replicate n Zombie, sigchld := reap \<and> 0 < n\<rparr>"

lemma all_zombies_reached:
  assumes "turn [] gone_client = Inr (False, out, sk)"
  shows "(fork_step reap turn)\<^sup>*\<^sup>* fork_start (all_zombies reap n)"
proof (induction n)
  case 0
  then show ?case
    by (simp add: fork_start_def all_zombies_def)
next
  case (Suc n)
  let ?t = "serve_connection True gone_client (all_zombies reap n)"
  let ?k = "\<lparr>conn_sockfd = 4, kid_fds = [0, 1, 2, 4], kid_sock = gone_client, kid_out = []\<rparr>"
  have t: "?t = (all_zombies reap n)\<lparr>kids := replicate n Zombie @ [Running ?k]\<rparr>"
    by (subst serve_connection_eq) (simp_all add: fork_start_def all_zombies_def)
  have "fork_step reap turn (all_zombies reap n) ?t"
    by (rule accepted) (simp_all add: fork_start_def all_zombies_def)
  moreover have "fork_step reap turn ?t (kid_ends reap n ?t)"
    by (rule kid_done [where k = ?k]) (simp_all add: t assms nth_append)
  moreover have "kid_ends reap n ?t = all_zombies reap (Suc n)"
    unfolding t kid_ends_def
    by (cases reap) (simp_all add: list_update_append replicate_append_same fork_start_def all_zombies_def)
  ultimately show ?case
    using Suc.IH by (metis (no_types, lifting) rtranclp.rtrancl_into_rtrancl)
qed

definition server_calls :: sys_calls where
  "server_calls = \<lparr>socket_ok = True, setsockopt_ok = True, bind_ok = True, listen_ok = True, accept_ok = True, fork_ok = True\<rparr>"

theorem fork_server_reaps_witness:
  "sigchld (all_zombies True 2) \<and> kids (all_zombies True 2) = [Zombie, Zombie] \<and>
    (\<exists>s. (fork_step True handle_client_turn)\<^sup>*\<^sup>* (all_zombies True 2) s \<and> kids s = [Reaped, Reaped])"
proof -
  have "fork_main server_calls = Inr fork_start"
    by (simp add: fork_main_def server_calls_def)
  then show ?thesis
    using fork_server_reaps [OF _ all_zombies_reached [of handle_client_turn, OF gone_client_turn], of server_calls 2]
    by (auto simp: all_zombies_def fork_start_def buried_def numeral_2_eq_2)
qed

text \<open>Without the handler an ended child stays a zombie: after any number of clients there can be as many zombies.\<close>

theorem zombies_pile_up:
  assumes "turn \<in> {handle_client_turn, handle_echo_server_turn}"
  shows "\<exists>s. (fork_step False turn)\<^sup>*\<^sup>* fork_start s \<and> kids s = replicate n Zombie \<and>
    (\<forall>s'. (fork_step False turn)\<^sup>*\<^sup>* s s' \<longrightarrow> Reaped \<notin> set (kids s'))"
proof -
  have r: "(fork_step False turn)\<^sup>*\<^sup>* fork_start (all_zombies False n)" for n
    using assms all_zombies_reached gone_client_turn unix_gone_client_turn by blast
  have "Reaped \<notin> set (kids s')" if "(fork_step False turn)\<^sup>*\<^sup>* (all_zombies False n) s'" for s'
    using fork_reach [OF rtranclp_trans [OF r that]] by (simp add: fork_inv_def fork_start_def)
  then show ?thesis
    using r [of n] by (intro exI [of _ "all_zombies False n"]) (simp add: all_zombies_def)
qed

text \<open>
  What a child does for its client: in whatever pieces the input arrives, it is printed (each piece up to a zero byte)
  and every byte of it goes back, in order, until the client closes. A piece may fill the buffer only if it has a zero byte.
\<close>

theorem handle_client_echoes:
  assumes "inq s = concat bs" "fin s" "script s = map read_whole bs @ [Chunk k]" "\<forall>b\<in>set bs. readable_piece b"
    "\<forall>a\<in>set (wscript s). takes_all a" "length bs \<le> length (wscript s)"
  shows "\<exists>s'. handle_client out s = Inr (out @ concat (map c_str bs), s') \<and> sent s' = sent s @ inq s"
  using handle_client_pieces [OF assms(4,3,1,2,5,6)] assms(1) by simp

definition two_pieces :: sock where
  "two_pieces = \<lparr>inq = [104, 105, 10, 98, 121, 101, 10], fin = True, script = [Chunk 4, Chunk 1, Chunk 0], sent = [],
     wscript = [Accept 1024, Accept 1024]\<rparr>"

theorem handle_client_echoes_witness:
  "\<exists>s. handle_client [] two_pieces = Inr ([104, 105, 10, 98, 121, 101, 10], s) \<and> sent s = [104, 105, 10, 98, 121, 101, 10]"
  using handle_client_echoes [of two_pieces "[[104, 105, 10, 98, 121], [101, 10]]" 0 "[]"]
  by (simp add: two_pieces_def read_whole_def readable_piece_def takes_all_def c_str_def)

text \<open>A piece of a full buffer without a zero byte: the string that is printed has no end.\<close>

theorem handle_client_overreads:
  assumes "inq s = b @ rest" "length b = BUFFER_LENGTH" "0 \<notin> set b" "script s = read_whole b # r"
  shows "handle_client out s = Inl (Fault OutOfBounds)"
proof -
  have "sys_recv False BUFFER_LENGTH s = Inr (Data b, s\<lparr>inq := rest, script := r\<rparr>)"
    using assms by (auto simp: sys_recv_def read_whole_def Let_def)
  moreover have "store (replicate BUFFER_LENGTH 0) 0 b = Inr b"
    using assms(2) by (subst store_ok) auto
  ultimately show ?thesis
    using assms(2,3) by (subst handle_client.simps) (auto simp: handle_client_turn_def fputs_def)
qed

end
