(* ===== verification/ThreadServer.thy ===== *)
theory ThreadServer
  imports ForkServer
begin

text \<open>
  \<open>echo/posix-thread-echo.c\<close>: the echo server with a thread for each connection.

  \<^item> All threads share the descriptors of the process, \<open>tfds\<close>, of which the kernel allows \<open>limit\<close>. The accepting thread
    passes the descriptor of the connection in a cell that it has allocated (\<open>heap\<close>), because its own variable changes
    with the next connection; \<open>handle_thread\<close> reads the cell and frees it.
  \<^item> \<open>handle_error\<close> in any thread ends the whole process: \<open>running\<close> is false then.
  \<^item> \<open>handle_thread\<close> does not close the connection when it ends. \<open>thread_inv\<close> says so: the descriptors of all connections
    stay open.
\<close>

datatype thread_state = Created nat | Serving nat "byte list" | Over

record thread_server =
  tfds :: "nat list"
  heap :: "nat \<rightharpoonup> nat"
  threads :: "thread_state list"
  socks :: "nat \<Rightarrow> sock"
  running :: bool

definition handle_thread_start :: "bool \<Rightarrow> nat \<Rightarrow> thread_server \<Rightarrow> thread_server run" where
  "handle_thread_start detach_ok i s =
     (case threads s ! i of
        Created p \<Rightarrow>
          if \<not> detach_ok then Inr (s\<lparr>running := False\<rparr>)
          else (case heap s p of
                  None \<Rightarrow> Inl (Fault OutOfBounds)
                | Some c \<Rightarrow> Inr (s\<lparr>threads := (threads s)[i := Serving c []], heap := (heap s)(p := None)\<rparr>))
      | _ \<Rightarrow> Inl Blocked)"

definition handle_thread_turn :: "nat \<Rightarrow> thread_server \<Rightarrow> thread_server run" where
  "handle_thread_turn i s =
     (case threads s ! i of
        Serving c out \<Rightarrow>
          (case handle_client_turn out (socks s c) of
             Inr (True, out, sk) \<Rightarrow> Inr (s\<lparr>threads := (threads s)[i := Serving c out], socks := (socks s)(c := sk)\<rparr>)
           | Inr (False, out, sk) \<Rightarrow> Inr (s\<lparr>threads := (threads s)[i := Over], socks := (socks s)(c := sk)\<rparr>)
           | Inl Exit_failure \<Rightarrow> Inr (s\<lparr>running := False\<rparr>)
           | Inl e \<Rightarrow> Inl e)
      | _ \<Rightarrow> Inl Blocked)"

text \<open>After a successful \<open>accept\<close>; \<open>p\<close> is what \<open>malloc\<close> returns.\<close>

definition new_thread :: "bool \<Rightarrow> nat \<Rightarrow> sock \<Rightarrow> thread_server \<Rightarrow> thread_server" where
  "new_thread create_ok p sk s =
     (let c = lowest_unused (tfds s); s = s\<lparr>tfds := tfds s @ [c], socks := (socks s)(c := sk), heap := (heap s)(p := Some c)\<rparr> in
      if create_ok then s\<lparr>threads := threads s @ [Created p]\<rparr> else s\<lparr>running := False\<rparr>)"

definition thread_start :: "thread_server" where
  "thread_start = \<lparr>tfds = [0, 1, 2, LISTENER], heap = (\<lambda>_. None), threads = [],
     socks = (\<lambda>_. \<lparr>inq = [], fin = True, script = [], sent = [], wscript = []\<rparr>), running = True\<rparr>"

definition thread_main :: "sys_calls \<Rightarrow> thread_server run" where
  "thread_main os =
     (if \<not> socket_ok os then Inl Exit_failure
      else if \<not> setsockopt_ok os then Inl Exit_failure
      else if \<not> bind_ok os then Inl Exit_failure
      else if \<not> listen_ok os then Inl Exit_failure
      else Inr thread_start)"

inductive thread_step :: "nat \<Rightarrow> thread_server \<Rightarrow> thread_server \<Rightarrow> bool" for limit where
  accepted: "running s \<Longrightarrow> length (tfds s) < limit \<Longrightarrow> heap s p = None \<Longrightarrow>
     thread_step limit s (new_thread create_ok p sk s)"
| accept_fails: "running s \<Longrightarrow> thread_step limit s (s\<lparr>running := False\<rparr>)"
| starts: "running s \<Longrightarrow> i < length (threads s) \<Longrightarrow> handle_thread_start detach_ok i s = Inr s' \<Longrightarrow> thread_step limit s s'"
| turns: "running s \<Longrightarrow> i < length (threads s) \<Longrightarrow> handle_thread_turn i s = Inr s' \<Longrightarrow> thread_step limit s s'"

subsection \<open>The invariant\<close>

definition cell_of :: "thread_state \<Rightarrow> nat option" where
  "cell_of t = (case t of Created p \<Rightarrow> Some p | _ \<Rightarrow> None)"

text \<open>
  Thread \<open>i\<close> belongs to the \<open>i\<close>-th connection, whose descriptor is \<open>conn_fd i\<close>; every allocated cell belongs to exactly
  one thread that has not started.
\<close>

definition conn_fd :: "nat \<Rightarrow> nat" where
  "conn_fd i = i + 4"

definition thread_at :: "nat \<Rightarrow> thread_server \<Rightarrow> bool" where
  "thread_at i s = (case threads s ! i of
     Created p \<Rightarrow> heap s p = Some (conn_fd i)
   | Serving c out \<Rightarrow> c = conn_fd i
   | Over \<Rightarrow> True)"

definition thread_inv :: "nat \<Rightarrow> thread_server \<Rightarrow> bool" where
  "thread_inv limit s \<longleftrightarrow> tfds s = [0..<4 + length (threads s)] \<and> (\<forall>i<length (threads s). thread_at i s) \<and>
     (\<forall>p. heap s p \<noteq> None \<longrightarrow> Created p \<in> set (threads s)) \<and> 4 + length (threads s) \<le> max 4 limit"

lemma handle_thread_start_inv:
  assumes inv: "thread_inv limit s" and i: "i < length (threads s)" and st: "handle_thread_start d i s = Inr s'"
    and r: "running s'"
  shows "thread_inv limit s'"
proof -
  obtain p where p: "threads s ! i = Created p" "heap s p = Some (conn_fd i)"
      "s' = s\<lparr>threads := (threads s)[i := Serving (conn_fd i) []], heap := (heap s)(p := None)\<rparr>"
    using inv i st r unfolding handle_thread_start_def thread_inv_def thread_at_def
    by (auto split: thread_state.splits if_splits option.splits)
  have other: "threads s ! j \<noteq> Created p" if "j < length (threads s)" "j \<noteq> i" for j
    using inv p(2) that by (auto simp: thread_inv_def thread_at_def conn_fd_def)
  have "thread_at j s'" if "j < length (threads s)" for j
    using inv p other [OF that] that i
    by (auto simp: thread_at_def thread_inv_def nth_list_update split: thread_state.splits)
  moreover have "Created q \<in> set (threads s')" if "heap s' q \<noteq> None" for q
  proof -
    have "q \<noteq> p" "Created q \<in> set (threads s)"
      using that p inv by (auto simp: thread_inv_def split: if_splits)
    then obtain j where "j < length (threads s)" "threads s ! j = Created q"
      by (auto simp: in_set_conv_nth)
    then show ?thesis
      using p \<open>q \<noteq> p\<close> by (metis thread_state.inject(1) length_list_update nth_list_update_neq nth_mem thread_server.select_convs(3)
        thread_server.surjective thread_server.update_convs(2,3))
  qed
  ultimately show ?thesis
    using inv p(3) by (simp add: thread_inv_def)
qed

lemma handle_thread_turn_inv:
  assumes inv: "thread_inv limit s" and st: "handle_thread_turn i s = Inr s'" and r: "running s'" "running s"
  shows "thread_inv limit s'"
proof -
  obtain c out t where c: "threads s ! i = Serving c out" "t = Over \<or> (\<exists>out. t = Serving c out)"
      "tfds s' = tfds s" "heap s' = heap s" "threads s' = (threads s)[i := t]"
    using st r unfolding handle_thread_turn_def
    by (auto split: thread_state.splits sum.splits stop.splits bool.splits) blast+
  have "thread_at j s'" if "j < length (threads s)" for j
    using inv c that by (cases "j = i") (auto simp: thread_at_def thread_inv_def split: thread_state.splits)
  moreover have "Created q \<in> set (threads s')" if "heap s' q \<noteq> None" for q
  proof -
    have "Created q \<in> set (threads s)"
      using that c(4) inv by (simp add: thread_inv_def)
    then obtain j where j: "j < length (threads s)" "threads s ! j = Created q"
      by (auto simp: in_set_conv_nth)
    then have "j \<noteq> i"
      using c(1) by auto
    then show ?thesis
      using j c(5) by (metis length_list_update nth_list_update_neq nth_mem)
  qed
  ultimately show ?thesis
    using inv c(3,5) by (simp add: thread_inv_def)
qed

lemma new_thread_inv:
  assumes inv: "thread_inv limit s" and l: "length (tfds s) < limit" and p: "heap s p = None" and r: "running (new_thread ok p sk s)"
  shows "thread_inv limit (new_thread ok p sk s)"
proof -
  let ?n = "length (threads s)"
  have t: "tfds s = [0..<4 + ?n]"
    using inv by (simp add: thread_inv_def)
  have c: "lowest_unused (tfds s) = conn_fd ?n" "tfds s @ [conn_fd ?n] = [0..<4 + Suc ?n]"
    unfolding t conn_fd_def by (simp only: lowest_unused_upt add.commute)
      (metis add.commute add_Suc_right le0 upt_Suc_append)
  have s': "new_thread ok p sk s = s\<lparr>tfds := [0..<4 + Suc ?n], socks := (socks s)(conn_fd ?n := sk),
      heap := (heap s)(p := Some (conn_fd ?n)), threads := threads s @ [Created p]\<rparr>"
    using r c(2) by (simp add: new_thread_def c(1) Let_def split: if_splits)
  have "thread_at i (new_thread ok p sk s)" if "i < Suc ?n" for i
  proof (cases "i = ?n")
    case True
    then show ?thesis
      by (simp add: s' thread_at_def)
  next
    case False
    then have "i < ?n" "thread_at i s"
      using that inv by (auto simp: thread_inv_def)
    then show ?thesis
      using p by (auto simp: s' thread_at_def nth_append split: thread_state.splits)
  qed
  then show ?thesis
    using inv l by (auto simp: s' thread_inv_def simp del: upt_Suc)
qed

lemma thread_step_inv:
  "thread_step limit s s' \<Longrightarrow> thread_inv limit s \<Longrightarrow> running s' \<Longrightarrow> thread_inv limit s'"
proof (induction rule: thread_step.induct)
  case (accepted s p create_ok sk)
  then show ?case
    using new_thread_inv by blast
next
  case (starts s i detach_ok s')
  then show ?case
    using handle_thread_start_inv by blast
next
  case (turns s i s')
  then show ?case
    using handle_thread_turn_inv by blast
qed simp

lemma thread_step_running: "thread_step limit s s' \<Longrightarrow> running s"
  by (induction rule: thread_step.induct) auto

lemma thread_reach:
  "(thread_step limit)\<^sup>*\<^sup>* s s' \<Longrightarrow> thread_inv limit s \<Longrightarrow> running s' \<Longrightarrow> thread_inv limit s'"
proof (induction rule: rtranclp_induct)
  case (step t u)
  then show ?case
    using thread_step_inv thread_step_running by blast
qed simp

lemma thread_inv_start:
  assumes "thread_main os = Inr s"
  shows "thread_inv limit s"
proof -
  have "s = thread_start"
    using assms by (auto simp: thread_main_def split: if_splits)
  moreover have "[0..<4] = [0, 1, 2, LISTENER]"
    by (simp add: LISTENER_def upt_rec)
  ultimately show ?thesis
    by (simp add: thread_inv_def thread_start_def)
qed

subsection \<open>The properties\<close>

lemma thread_at_starts: "thread_at i s \<Longrightarrow> handle_thread_start d i s \<noteq> Inl (Fault OutOfBounds)"
  by (auto simp: handle_thread_start_def thread_at_def split: thread_state.splits)

text \<open>
  C6. As long as the server runs, every thread finds the descriptor of its own connection in its cell or works on it, and
  none reads a cell that is not allocated. But the connections whose threads are over stay open with the others:
  so the server has never had more than \<open>limit - 4\<close> clients altogether, and cannot take another one then.
\<close>

theorem thread_server_leaks:
  assumes "thread_main os = Inr s0" "(thread_step limit)\<^sup>*\<^sup>* s0 s" "running s"
  shows "tfds s = [0..<4 + length (threads s)] \<and> length (threads s) \<le> limit - 4 \<and>
    (\<forall>i<length (threads s). thread_at i s \<and> (\<forall>d. handle_thread_start d i s \<noteq> Inl (Fault OutOfBounds)))"
proof -
  have "thread_inv limit s"
    by (rule thread_reach [OF assms(2) thread_inv_start [OF assms(1)] assms(3)])
  then show ?thesis
    using thread_at_starts unfolding thread_inv_def by (intro conjI) (simp_all, linarith)
qed

text \<open>One connection, whose thread has ended.\<close>

definition one_over :: thread_server where
  "one_over = thread_start\<lparr>tfds := [0, 1, 2, 3, 4], socks := (socks thread_start)(4 := gone_client\<lparr>script := []\<rparr>),
     heap := (heap thread_start)(7 := None), threads := [Over]\<rparr>"

lemma one_over_reached: "(thread_step 5)\<^sup>*\<^sup>* thread_start one_over"
proof -
  define a where "a = thread_start\<lparr>tfds := [0, 1, 2, 3, 4], socks := (socks thread_start)(4 := gone_client),
      heap := (heap thread_start)(7 := Some 4), threads := [Created 7]\<rparr>"
  define b where "b = a\<lparr>threads := [Serving 4 []], heap := (heap a)(7 := None)\<rparr>"
  have f: "lowest_unused (tfds thread_start) = 4"
    unfolding thread_start_def thread_server.select_convs by (rule next_descriptor)
  have a: "new_thread True 7 gone_client thread_start = a"
    unfolding new_thread_def Let_def f by (simp add: a_def thread_start_def LISTENER_def)
  have "thread_step 5 thread_start a"
    unfolding a [symmetric] by (rule accepted) (simp_all add: thread_start_def)
  moreover have "thread_step 5 a b"
    by (rule starts [where i = 0 and detach_ok = True])
      (simp_all add: a_def b_def handle_thread_start_def, simp add: thread_start_def)
  moreover have "thread_step 5 b one_over"
    by (rule turns [where i = 0])
      (simp_all add: a_def b_def handle_thread_turn_def gone_client_turn one_over_def, simp_all add: thread_start_def)
  ultimately show ?thesis
    by (meson rtranclp.rtrancl_into_rtrancl rtranclp.rtrancl_refl)
qed

theorem thread_server_leaks_witness:
  "(thread_step 5)\<^sup>*\<^sup>* thread_start one_over \<and> threads one_over = [Over] \<and> tfds one_over = [0..<5] \<and>
    length (threads one_over) \<le> 5 - 4"
proof -
  have "thread_main server_calls = Inr thread_start" "running one_over" "threads one_over = [Over]"
    by (simp_all add: thread_main_def server_calls_def one_over_def thread_start_def)
  then show ?thesis
    using one_over_reached thread_server_leaks [OF _ one_over_reached] by fastforce
qed

end
