(* ===== verification/EchoClient.thy ===== *)
theory EchoClient
  imports ForkServer
begin

text \<open>
  The clients of the echo servers in \<open>network/socket/codes/echo\<close> and \<open>unix-echo/client.c\<close>.

  \<^item> \<open>client_send\<close> and \<open>client_receive\<close> are the two halves of the loop of \<open>echo/client.c\<close>, \<open>client_loop\<close> the loop. What
    is sent is the whole \<open>send_buf\<close>: the line, its final zero and what the array holds behind it. The first time that
    is uninitialised memory, which is an argument here. \<open>unix_client_loop\<close> goes on after an interruption;
    \<open>fin_wait_client_loop\<close> does not look at what \<open>read\<close> returns (\<open>echo/multiclient.c\<close> and
    \<open>simple-tcp/client.c\<close> have the same loop);
    \<open>sigpipe_client_loop\<close> writes in two parts.
  \<^item> \<open>select_client_loop\<close> waits for the socket and the terminal together; an entry of its script is what one \<open>select\<close>
    says. \<open>shutdown_client_loop\<close> differs at the end of the input: it closes the socket and goes on.
  \<^item> \<open>echo_session\<close> puts \<open>client.c\<close> and a child of the server together: \<open>client_loop\<close> with a turn of the server between
    its two halves. \<open>session_is_client_loop\<close> says that its client is \<open>client_loop\<close>, which is sent its own blocks back.
\<close>

abbreviation zero_buf :: "byte list" where
  "zero_buf \<equiv> replicate BUFFER_LENGTH 0"

text \<open>\<open>fgets\<close> stores the line and a zero.\<close>

definition typed_into :: "byte list \<Rightarrow> byte list \<Rightarrow> byte list" where
  "typed_into buf line = line @ 0 # drop (Suc (length line)) buf"

definition client_send :: "byte list \<Rightarrow> byte list \<Rightarrow> sock \<Rightarrow> sock run" where
  "client_send send_buf line s = bnd (sys_write (typed_into send_buf line) s) (\<lambda>(_, _, s). Inr s)"

definition client_receive :: "byte list \<Rightarrow> byte list \<Rightarrow> sock \<Rightarrow> (bool \<times> byte list \<times> sock) run" where
  "client_receive recv_buf out s =
     bnd (sys_recv False BUFFER_LENGTH s) (\<lambda>(r, s). case r of
       EINTR \<Rightarrow> Inl Exit_failure
     | EFAIL \<Rightarrow> Inl Exit_failure
     | Data bs \<Rightarrow>
         if bs = [] then Inr (False, out, s)
         else bnd (store recv_buf 0 bs) (\<lambda>recv_buf. bnd (fputs recv_buf) (\<lambda>text. Inr (True, out @ text, s))))"

function client_loop :: "byte list \<Rightarrow> byte list \<Rightarrow> byte list \<Rightarrow> byte list \<Rightarrow> sock \<Rightarrow> (byte list \<times> sock) run" where
  "client_loop send_buf recv_buf stdin out s =
     (case fgets BUFFER_LENGTH stdin of
        None \<Rightarrow> Inr (out, s)
      | Some (line, stdin') \<Rightarrow>
          bnd (client_send send_buf line s) (\<lambda>s. bnd (client_receive recv_buf out s) (\<lambda>(go_on, out, s).
            if go_on then client_loop zero_buf zero_buf stdin' out s else Inr (out, s))))"
  by pat_completeness auto
termination
  by (relation "measure (\<lambda>(send_buf, recv_buf, stdin, out, s). length stdin)") (auto dest: fgets_progress)

declare client_loop.simps [simp del]

definition client_main :: "client_calls \<Rightarrow> byte list \<Rightarrow> byte list \<Rightarrow> byte list \<Rightarrow> sock \<Rightarrow> (byte list \<times> sock) run" where
  "client_main os send_junk recv_junk stdin s =
     (if \<not> client_socket_ok os then Inl Exit_failure
      else if \<not> connect_ok os then Inl Exit_failure
      else client_loop send_junk recv_junk stdin [] s)"

subsection \<open>The other clients\<close>

text \<open>\<open>unix-echo/client.c\<close>: after an interruption neither buffer is cleared.\<close>

function unix_client_loop :: "byte list \<Rightarrow> byte list \<Rightarrow> byte list \<Rightarrow> byte list \<Rightarrow> sock \<Rightarrow> (byte list \<times> sock) run" where
  "unix_client_loop send_buf recv_buf stdin out s =
     (case fgets BUFFER_LENGTH stdin of
        None \<Rightarrow> Inr (out, s)
      | Some (line, stdin') \<Rightarrow>
          bnd (client_send send_buf line s) (\<lambda>s. bnd (sys_recv False BUFFER_LENGTH s) (\<lambda>(r, s). case r of
            EINTR \<Rightarrow> unix_client_loop (typed_into send_buf line) recv_buf stdin' out s
          | EFAIL \<Rightarrow> Inl Exit_failure
          | Data bs \<Rightarrow>
              if bs = [] then Inr (out, s)
              else bnd (store recv_buf 0 bs) (\<lambda>recv_buf. bnd (fputs recv_buf) (\<lambda>text.
                unix_client_loop zero_buf zero_buf stdin' (out @ text) s)))))"
  by pat_completeness auto
termination
  by (relation "measure (\<lambda>(send_buf, recv_buf, stdin, out, s). length stdin)") (auto dest: fgets_progress)

declare unix_client_loop.simps [simp del]

text \<open>\<open>echo/fin_wait_client.c\<close> and \<open>echo/multiclient.c\<close>: whatever \<open>read\<close> returns, the buffer is printed.\<close>

function fin_wait_client_loop :: "byte list \<Rightarrow> byte list \<Rightarrow> byte list \<Rightarrow> byte list \<Rightarrow> sock \<Rightarrow> (byte list \<times> sock) run" where
  "fin_wait_client_loop send_buf recv_buf stdin out s =
     (case fgets BUFFER_LENGTH stdin of
        None \<Rightarrow> Inr (out, s)
      | Some (line, stdin') \<Rightarrow>
          bnd (client_send send_buf line s) (\<lambda>s. bnd (sys_recv False BUFFER_LENGTH s) (\<lambda>(r, s).
            bnd (case r of Data bs \<Rightarrow> store recv_buf 0 bs | _ \<Rightarrow> Inr recv_buf) (\<lambda>recv_buf. bnd (fputs recv_buf) (\<lambda>text.
              fin_wait_client_loop zero_buf zero_buf stdin' (out @ text) s)))))"
  by pat_completeness auto
termination
  by (relation "measure (\<lambda>(send_buf, recv_buf, stdin, out, s). length stdin)") (auto dest: fgets_progress)

declare fin_wait_client_loop.simps [simp del]

text \<open>\<open>echo/sigpipe_client.c\<close>: one byte, then the rest of the buffer.\<close>

definition sigpipe_send :: "byte list \<Rightarrow> byte list \<Rightarrow> sock \<Rightarrow> sock run" where
  "sigpipe_send send_buf line s =
     bnd (sys_write (take 1 (typed_into send_buf line)) s) (\<lambda>(_, _, s).
     bnd (sys_write (drop 1 (typed_into send_buf line)) s) (\<lambda>(_, _, s). Inr s))"

function sigpipe_client_loop :: "byte list \<Rightarrow> byte list \<Rightarrow> byte list \<Rightarrow> byte list \<Rightarrow> sock \<Rightarrow> (byte list \<times> sock) run" where
  "sigpipe_client_loop send_buf recv_buf stdin out s =
     (case fgets BUFFER_LENGTH stdin of
        None \<Rightarrow> Inr (out, s)
      | Some (line, stdin') \<Rightarrow>
          bnd (sigpipe_send send_buf line s) (\<lambda>s. bnd (client_receive recv_buf out s) (\<lambda>(go_on, out, s).
            if go_on then sigpipe_client_loop zero_buf zero_buf stdin' out s else Inr (out, s))))"
  by pat_completeness auto
termination
  by (relation "measure (\<lambda>(send_buf, recv_buf, stdin, out, s). length stdin)") (auto dest: fgets_progress)

declare sigpipe_client_loop.simps [simp del]

text \<open>\<open>Ready k t\<close>: the socket (\<open>k\<close>), the terminal (\<open>t\<close>) or both can be read. The loop ends when the script does.\<close>

datatype select_reply = Select_failed | Nothing_ready | Ready bool bool

definition keyboard_part :: "byte list \<Rightarrow> byte list \<Rightarrow> sock \<Rightarrow> (bool \<times> byte list \<times> byte list \<times> sock) run" where
  "keyboard_part send_buf stdin s =
     (case fgets BUFFER_LENGTH stdin of
        None \<Rightarrow> Inr (False, send_buf, stdin, s)
      | Some (line, stdin') \<Rightarrow> bnd (client_send send_buf line s) (\<lambda>s. Inr (True, zero_buf, stdin', s)))"

fun select_client_loop ::
  "select_reply list \<Rightarrow> byte list \<Rightarrow> byte list \<Rightarrow> byte list \<Rightarrow> byte list \<Rightarrow> sock \<Rightarrow> (byte list \<times> sock) run" where
  "select_client_loop [] send_buf recv_buf stdin out s = Inl Blocked"
| "select_client_loop (Select_failed # rs) send_buf recv_buf stdin out s = Inl Exit_failure"
| "select_client_loop (Nothing_ready # rs) send_buf recv_buf stdin out s = select_client_loop rs send_buf recv_buf stdin out s"
| "select_client_loop (Ready k t # rs) send_buf recv_buf stdin out s =
     bnd (if k then client_receive recv_buf out s else Inr (True, out, s)) (\<lambda>(go_on, out, s).
     if \<not> go_on then Inr (out, s)
     else let recv_buf = (if k then zero_buf else recv_buf) in
       bnd (if t then keyboard_part send_buf stdin s else Inr (True, send_buf, stdin, s)) (\<lambda>(go_on, send_buf, stdin, s).
       if \<not> go_on then Inr (out, s) else select_client_loop rs send_buf recv_buf stdin out s))"

text \<open>
  \<open>echo/shutdown_client.c\<close>: at the end of the input the socket is closed and the loop goes on; \<open>select\<close> on a closed
  descriptor returns \<open>-1\<close>.
\<close>

fun shutdown_client_loop ::
  "select_reply list \<Rightarrow> bool \<Rightarrow> byte list \<Rightarrow> byte list \<Rightarrow> byte list \<Rightarrow> byte list \<Rightarrow> sock \<Rightarrow> (byte list \<times> sock) run" where
  "shutdown_client_loop [] open_fd send_buf recv_buf stdin out s = Inl Blocked"
| "shutdown_client_loop (r # rs) open_fd send_buf recv_buf stdin out s =
     (case (if open_fd then r else Select_failed) of
        Select_failed \<Rightarrow> Inl Exit_failure
      | Nothing_ready \<Rightarrow> shutdown_client_loop rs open_fd send_buf recv_buf stdin out s
      | Ready k t \<Rightarrow>
          bnd (if k then client_receive recv_buf out s else Inr (True, out, s)) (\<lambda>(go_on, out, s).
          if \<not> go_on then Inr (out, s)
          else let recv_buf = (if k then zero_buf else recv_buf) in
            bnd (if t then keyboard_part send_buf stdin s else Inr (True, send_buf, stdin, s)) (\<lambda>(typed, send_buf, stdin, s).
            shutdown_client_loop rs typed send_buf recv_buf stdin out s)))"

subsection \<open>A session\<close>

text \<open>
  One line at a time: the client writes, what it has written arrives at the server, a child of the server makes one turn,
  what that writes arrives at the client. \<open>c\<close> and \<open>k\<close> are the two ends; \<open>sent\<close> is taken by the other end as it is written.
\<close>

definition carry :: "sock \<Rightarrow> sock \<Rightarrow> sock \<times> sock" where
  "carry a b = (a\<lparr>sent := []\<rparr>, b\<lparr>inq := inq b @ sent a\<rparr>)"

function echo_session ::
  "byte list \<Rightarrow> byte list \<Rightarrow> byte list \<Rightarrow> byte list \<Rightarrow> sock \<Rightarrow> byte list \<Rightarrow> sock \<Rightarrow> (byte list \<times> sock \<times> byte list \<times> sock) run" where
  "echo_session send_buf recv_buf stdin out c kout k =
     (case fgets BUFFER_LENGTH stdin of
        None \<Rightarrow> Inr (out, c, kout, k)
      | Some (line, stdin') \<Rightarrow>
          bnd (client_send send_buf line c) (\<lambda>c. case carry c k of (c, k) \<Rightarrow>
          bnd (handle_client_turn kout k) (\<lambda>(_, kout, k). case carry k c of (k, c) \<Rightarrow>
          bnd (client_receive recv_buf out c) (\<lambda>(go_on, out, c).
            if go_on then echo_session zero_buf zero_buf stdin' out c kout k else Inr (out, c, kout, k)))))"
  by pat_completeness auto
termination
  by (relation "measure (\<lambda>(send_buf, recv_buf, stdin, out, c, kout, k). length stdin)") (auto dest: fgets_progress)

declare echo_session.simps [simp del]

lemma typed_into_block:
  assumes "length buf = BUFFER_LENGTH" "length line < BUFFER_LENGTH" "0 \<notin> set line"
  shows "length (typed_into buf line) = BUFFER_LENGTH" "c_str (typed_into buf line) = line" "readable_piece (typed_into buf line)"
proof -
  show l: "length (typed_into buf line) = BUFFER_LENGTH"
    using assms(1,2) by (simp add: typed_into_def)
  show "c_str (typed_into buf line) = line"
    unfolding typed_into_def c_str_def by (subst takeWhile_append2) (use assms(3) in auto)
  show "readable_piece (typed_into buf line)"
    using l by (auto simp: readable_piece_def) (auto simp: typed_into_def)
qed

text \<open>The ends of a connection on which nothing is in flight and every call transfers a whole buffer.\<close>

definition steady :: "nat \<Rightarrow> sock \<Rightarrow> bool" where
  "steady n s \<longleftrightarrow> inq s = [] \<and> sent s = [] \<and> n \<le> length (script s) \<and> (\<forall>a\<in>set (script s). a = Chunk (BUFFER_LENGTH - 1)) \<and>
     n \<le> length (wscript s) \<and> (\<forall>a\<in>set (wscript s). takes_all a)"

lemma sys_write_steady:
  assumes "wscript s = a # w" "takes_all a" "length b = BUFFER_LENGTH"
  shows "sys_write b s = Inr (int BUFFER_LENGTH, False, s\<lparr>sent := sent s @ b, wscript := w\<rparr>)"
  using assms by (cases a) (auto simp: takes_all_def sys_write_def Let_def)

lemma client_receive_block:
  assumes "script s = Chunk (BUFFER_LENGTH - 1) # r" "inq s = b @ later" "length b = BUFFER_LENGTH" "length buf = BUFFER_LENGTH" "0 \<in> set b"
  shows "client_receive buf out s = Inr (True, out @ c_str b, s\<lparr>inq := later, script := r\<rparr>)"
proof -
  have "sys_recv False BUFFER_LENGTH s = Inr (Data b, s\<lparr>inq := later, script := r\<rparr>)"
    using assms by (auto simp: sys_recv_def Let_def)
  moreover have "store buf 0 b = Inr b"
    using assms(3,4) by (subst store_ok) auto
  ultimately show ?thesis
    using assms(3,5) by (auto simp: client_receive_def fputs_def)
qed

lemma steady_split:
  assumes "steady (Suc n) s"
  obtains a w r where "wscript s = a # w" "takes_all a" "script s = Chunk (BUFFER_LENGTH - 1) # r"
    "steady n (s\<lparr>script := r, wscript := w\<rparr>)"
  using assms by (cases "wscript s"; cases "script s") (auto simp: steady_def)

lemma echo_session_steady:
  "steady (length stdin) c \<Longrightarrow> steady (length stdin) k \<Longrightarrow> 0 \<notin> set stdin \<Longrightarrow>
    length send_buf = BUFFER_LENGTH \<Longrightarrow> length recv_buf = BUFFER_LENGTH \<Longrightarrow>
    \<exists>c' k'. echo_session send_buf recv_buf stdin out c kout k = Inr (out @ stdin, c', kout @ stdin, k')"
proof (induction "length stdin" arbitrary: stdin send_buf recv_buf out c kout k rule: less_induct)
  case less
  show ?case
  proof (cases "fgets BUFFER_LENGTH stdin")
    case None
    then have "stdin = []"
      by (auto simp: fgets_def Let_def split: if_splits)
    then show ?thesis
      using None by (simp add: echo_session.simps)
  next
    case (Some p)
    obtain line rest where p: "p = (line, rest)"
      by (cases p)
    have f: "stdin = line @ rest" "line \<noteq> []" "length line < BUFFER_LENGTH" "length rest < length stdin"
      using fgets_progress [of BUFFER_LENGTH stdin line rest] Some p by auto
    then have "0 < length stdin" "length rest \<le> length stdin - 1"
      by (cases line; simp)+
    then obtain n where n: "length stdin = Suc n" "length rest \<le> n"
      by (cases "length stdin") auto
    obtain ca cw cr where c: "wscript c = ca # cw" "takes_all ca" "script c = Chunk (BUFFER_LENGTH - 1) # cr"
        "steady n (c\<lparr>script := cr, wscript := cw\<rparr>)"
      using steady_split [of n c] less.prems(1) n(1) by auto
    obtain ka kw kr where k: "wscript k = ka # kw" "takes_all ka" "script k = Chunk (BUFFER_LENGTH - 1) # kr"
        "steady n (k\<lparr>script := kr, wscript := kw\<rparr>)"
      using steady_split [of n k] less.prems(2) n(1) by auto
    let ?b = "typed_into send_buf line"
    have b: "length ?b = BUFFER_LENGTH" "c_str ?b = line" "readable_piece ?b" "0 \<in> set ?b"
      using typed_into_block [OF less.prems(4) f(3)] less.prems(3) f(1) by (auto simp: typed_into_def)
    have e: "inq c = []" "sent c = []" "inq k = []" "sent k = []"
      using less.prems(1,2) by (simp_all add: steady_def)
    have cs: "client_send send_buf line c = Inr (c\<lparr>sent := ?b, wscript := cw\<rparr>)"
      using sys_write_steady [OF c(1,2) b(1)] e by (simp add: client_send_def)
    have kt: "handle_client_turn kout (k\<lparr>inq := ?b\<rparr>) = Inr (True, kout @ line, k\<lparr>inq := [], script := kr, sent := ?b, wscript := kw\<rparr>)"
      using turn_piece [OF b(3), of "k\<lparr>inq := ?b\<rparr>" kr "[]" ka kw] k(1-3) b(1,2) e by (simp add: read_whole_def)
    have cr: "client_receive recv_buf out (c\<lparr>inq := ?b, wscript := cw\<rparr>) = Inr (True, out @ line, c\<lparr>inq := [], script := cr, wscript := cw\<rparr>)"
      using client_receive_block [of "c\<lparr>inq := ?b, wscript := cw\<rparr>" cr ?b "[]" recv_buf out] c(3) b less.prems(5) by simp
    have there: "carry (c\<lparr>sent := ?b, wscript := cw\<rparr>) k = (c\<lparr>wscript := cw\<rparr>, k\<lparr>inq := ?b\<rparr>)"
      using e by (cases c) (simp add: carry_def)
    have and_home: "carry (k\<lparr>inq := [], script := kr, sent := ?b, wscript := kw\<rparr>) (c\<lparr>wscript := cw\<rparr>) =
        (k\<lparr>inq := [], script := kr, wscript := kw\<rparr>, c\<lparr>inq := ?b, wscript := cw\<rparr>)"
      using e by (cases c; cases k) (simp add: carry_def)
    have "echo_session send_buf recv_buf stdin out c kout k =
        echo_session zero_buf zero_buf rest (out @ line) (c\<lparr>inq := [], script := cr, wscript := cw\<rparr>) (kout @ line)
          (k\<lparr>inq := [], script := kr, wscript := kw\<rparr>)"
      using Some p cs kt cr there and_home by (subst echo_session.simps) simp
    moreover have "steady (length rest) (c\<lparr>inq := [], script := cr, wscript := cw\<rparr>)"
      "steady (length rest) (k\<lparr>inq := [], script := kr, wscript := kw\<rparr>)"
      using c(4) k(4) n(2) by (auto simp: steady_def)
    then have "\<exists>c' k'. echo_session zero_buf zero_buf rest (out @ line) (c\<lparr>inq := [], script := cr, wscript := cw\<rparr>) (kout @ line)
        (k\<lparr>inq := [], script := kr, wscript := kw\<rparr>) = Inr ((out @ line) @ rest, c', (kout @ line) @ rest, k')"
      using less.prems(3) f(1) by (intro less.hyps [OF f(4)]) auto
    ultimately show ?thesis
      using f(1) by simp
  qed
qed

text \<open>The blocks that the client sends, one for each line.\<close>

function client_blocks :: "byte list \<Rightarrow> byte list \<Rightarrow> byte list" where
  "client_blocks send_buf stdin =
     (case fgets BUFFER_LENGTH stdin of
        None \<Rightarrow> []
      | Some (line, stdin') \<Rightarrow> typed_into send_buf line @ client_blocks zero_buf stdin')"
  by pat_completeness auto
termination
  by (relation "measure (\<lambda>(send_buf, stdin). length stdin)") (auto dest: fgets_progress)

declare client_blocks.simps [simp del]

definition whole_calls :: "nat \<Rightarrow> sock \<Rightarrow> bool" where
  "whole_calls n s \<longleftrightarrow> n \<le> length (script s) \<and> (\<forall>a\<in>set (script s). a = Chunk (BUFFER_LENGTH - 1)) \<and>
     n \<le> length (wscript s) \<and> (\<forall>a\<in>set (wscript s). takes_all a)"

lemma client_loop_blocks:
  "whole_calls (length stdin) s \<Longrightarrow> 0 \<notin> set stdin \<Longrightarrow> length send_buf = BUFFER_LENGTH \<Longrightarrow> length recv_buf = BUFFER_LENGTH \<Longrightarrow>
    inq s = client_blocks send_buf stdin \<Longrightarrow>
    \<exists>s'. client_loop send_buf recv_buf stdin out s = Inr (out @ stdin, s') \<and> sent s' = sent s @ client_blocks send_buf stdin"
proof (induction "length stdin" arbitrary: stdin send_buf recv_buf out s rule: less_induct)
  case less
  show ?case
  proof (cases "fgets BUFFER_LENGTH stdin")
    case None
    then show ?thesis
      by (simp add: client_loop.simps client_blocks.simps fgets_None [symmetric]) (simp add: fgets_None)
  next
    case (Some p)
    obtain line rest where p: "p = (line, rest)"
      by (cases p)
    have f: "stdin = line @ rest" "line \<noteq> []" "length line < BUFFER_LENGTH" "length rest < length stdin"
      using fgets_progress [of BUFFER_LENGTH stdin line rest] Some p by auto
    obtain ca cw cr where c: "wscript s = ca # cw" "takes_all ca" "script s = Chunk (BUFFER_LENGTH - 1) # cr"
        "whole_calls (length rest) (s\<lparr>script := cr, wscript := cw\<rparr>)"
      using less.prems(1) f(1,2) by (cases "wscript s"; cases "script s") (auto simp: whole_calls_def neq_Nil_conv)
    let ?b = "typed_into send_buf line"
    have b: "length ?b = BUFFER_LENGTH" "c_str ?b = line" "0 \<in> set ?b"
      using typed_into_block [OF less.prems(3) f(3)] less.prems(2) f(1) by (auto simp: typed_into_def)
    have q: "client_blocks send_buf stdin = ?b @ client_blocks zero_buf rest"
      using Some p by (simp add: client_blocks.simps [of send_buf stdin])
    let ?t = "s\<lparr>inq := client_blocks zero_buf rest, script := cr, sent := sent s @ ?b, wscript := cw\<rparr>"
    have cs: "client_send send_buf line s = Inr (s\<lparr>sent := sent s @ ?b, wscript := cw\<rparr>)"
      using sys_write_steady [OF c(1,2) b(1)] by (simp add: client_send_def)
    have "client_receive recv_buf out (s\<lparr>sent := sent s @ ?b, wscript := cw\<rparr>) = Inr (True, out @ line, ?t)"
      using client_receive_block [of "s\<lparr>sent := sent s @ ?b, wscript := cw\<rparr>" cr ?b "client_blocks zero_buf rest" recv_buf out]
        c(3) b less.prems(4,5) q by simp
    then have "client_loop send_buf recv_buf stdin out s = client_loop zero_buf zero_buf rest (out @ line) ?t"
      using Some p cs by (subst client_loop.simps) simp
    moreover have "\<exists>s'. client_loop zero_buf zero_buf rest (out @ line) ?t = Inr ((out @ line) @ rest, s') \<and>
        sent s' = sent ?t @ client_blocks zero_buf rest"
      using c(4) less.prems(2) f(1) by (intro less.hyps [OF f(4)]) (simp_all add: whole_calls_def)
    ultimately show ?thesis
      using f(1) q by auto
  qed
qed

text \<open>The client of a session is \<open>client_loop\<close> on a connection that brings back what it sends.\<close>

lemma session_is_client_loop:
  assumes "steady (length stdin) c" "steady (length stdin) k" "0 \<notin> set stdin"
    "length send_buf = BUFFER_LENGTH" "length recv_buf = BUFFER_LENGTH"
  shows "\<exists>shown_there c' k' s'. echo_session send_buf recv_buf stdin [] c [] k = Inr (shown_there, c', shown_there, k') \<and>
    client_loop send_buf recv_buf stdin [] (c\<lparr>inq := client_blocks send_buf stdin\<rparr>) = Inr (shown_there, s') \<and>
    sent s' = client_blocks send_buf stdin"
proof -
  have "whole_calls (length stdin) (c\<lparr>inq := client_blocks send_buf stdin\<rparr>)" "sent c = []"
    using assms(1) by (simp_all add: steady_def whole_calls_def)
  then show ?thesis
    using echo_session_steady [OF assms, of "[]" "[]"]
      client_loop_blocks [of stdin "c\<lparr>inq := client_blocks send_buf stdin\<rparr>" send_buf recv_buf "[]"] assms(3-5) by auto
qed

subsection \<open>The properties\<close>

text \<open>
  C15. A line that is typed at the client comes back: as long as no buffer is split on its way, the client prints what was
  typed, and so does the server, whatever the two buffers of the client hold in the beginning.
\<close>

theorem echo_session_prints:
  assumes "steady (length stdin) c" "steady (length stdin) k" "0 \<notin> set stdin"
    "length send_junk = BUFFER_LENGTH" "length recv_junk = BUFFER_LENGTH"
  shows "\<exists>c' k'. echo_session send_junk recv_junk stdin [] c [] k = Inr (stdin, c', stdin, k')"
  using echo_session_steady [OF assms, of "[]" "[]"] by simp

definition steady_end :: "nat \<Rightarrow> sock" where
  "steady_end n = \<lparr>inq = [], fin = False, script = replicate n (Chunk 1023), sent = [], wscript = replicate n (Accept 1024)\<rparr>"

theorem echo_session_prints_witness:
  "\<exists>c' k'. echo_session (replicate 1024 170) (replicate 1024 187) [104, 105, 10, 121, 111, 10] [] (steady_end 6) [] (steady_end 6)
    = Inr ([104, 105, 10, 121, 111, 10], c', [104, 105, 10, 121, 111, 10], k')"
  by (rule echo_session_prints) (simp_all add: steady_def steady_end_def takes_all_def)

text \<open>When \<open>shutdown_client.c\<close> ends, it ends like \<open>select_client.c\<close>; but the end of the input makes it fail.\<close>

lemma shutdown_closed: "\<exists>e. shutdown_client_loop rs False send_buf recv_buf stdin out s = Inl e"
  by (cases rs) simp_all

lemma shutdown_is_select:
  "shutdown_client_loop rs True send_buf recv_buf stdin out s = Inr r \<Longrightarrow>
    select_client_loop rs send_buf recv_buf stdin out s = Inr r"
proof (induction rs arbitrary: send_buf recv_buf stdin out s)
  case (Cons a rs)
  show ?case
  proof (cases a)
    case (Ready k t)
    let ?first = "if k then client_receive recv_buf out s else Inr (True, out, s)"
    obtain go_on out' s' where f: "?first = Inr (go_on, out', s')"
      using Cons.prems Ready by (cases ?first) auto
    show ?thesis
    proof (cases go_on)
      case False
      then show ?thesis
        using Cons.prems Ready f by simp
    next
      case True
      let ?second = "if t then keyboard_part send_buf stdin s' else Inr (True, send_buf, stdin, s')"
      obtain typed sb st s'' where g: "?second = Inr (typed, sb, st, s'')"
        using Cons.prems Ready f True by (cases ?second) auto
      have l: "shutdown_client_loop rs typed sb (if k then zero_buf else recv_buf) st out' s'' = Inr r"
        using Cons.prems Ready f g True by (simp add: Let_def)
      then have typed
        using shutdown_closed by (metis (full_types) sum.distinct(1))
      then show ?thesis
        using Cons.IH l Ready f g True by (simp add: Let_def)
    qed
  qed (use Cons in auto)
qed simp

end
