(* ===== verification/MySleep.thy ===== *)
theory MySleep
  imports Prelude
begin

text \<open>
  \<open>cpp/codes/my_sleep/sleep.c\<close>: \<open>sleep\<close> made of \<open>alarm\<close> and \<open>sigsuspend\<close>.

  \<^item> \<open>signals\<close> is what the kernel keeps for the process: the actions, the blocked and the pending signals and the seconds
    to the alarm. An \<open>event\<close> is a second that passes or a signal that arrives. \<open>Killed\<close>: the action of a signal ended the
    process; \<open>Waiting\<close>: the events are over and it still waits.
  \<^item> \<open>my_sleep\<close> has three lists of events: between \<open>alarm(seconds)\<close> and \<open>sigsuspend\<close>, during \<open>sigsuspend\<close>, and between
    that and \<open>alarm(0)\<close>. The signal handler does nothing, so that only the return of \<open>sigsuspend\<close> shows that it ran.
  \<^item> \<open>SIGALRM\<close> is blocked before the alarm is set, so an alarm that goes off early is not lost (C19).
\<close>

datatype handler = Default | Ignore | Function nat

record action =
  sa_handler :: handler
  sa_flags :: nat

record signals =
  actions :: "nat \<Rightarrow> action"
  blocked :: "nat \<Rightarrow> bool"
  pending :: "nat \<Rightarrow> bool"
  alarm_in :: nat

datatype event = Second | Signal nat

datatype ending = Killed | Waiting

definition SIGALRM :: nat where
  "SIGALRM = 14"

definition SA_RESTART :: nat where
  "SA_RESTART = 0x10000000"

definition handle_sigalrm :: handler where
  "handle_sigalrm = Function 0"

text \<open>The signals whose default action is to be ignored: \<open>SIGCHLD\<close>, \<open>SIGCONT\<close>, \<open>SIGURG\<close>, \<open>SIGWINCH\<close>.\<close>

definition default_ignored :: "nat \<Rightarrow> bool" where
  "default_ignored n = (n \<in> {17, 18, 23, 28})"

subsection \<open>The kernel\<close>

text \<open>A signal that is not blocked: does its action end the process, and does a function catch it?\<close>

definition kills :: "signals \<Rightarrow> nat \<Rightarrow> bool" where
  "kills s n = (sa_handler (actions s n) = Default \<and> \<not> default_ignored n)"

definition caught :: "signals \<Rightarrow> nat \<Rightarrow> bool" where
  "caught s n = (case sa_handler (actions s n) of Function f \<Rightarrow> True | _ \<Rightarrow> False)"

definition ignored :: "signals \<Rightarrow> nat \<Rightarrow> bool" where
  "ignored s n = (\<not> kills s n \<and> \<not> caught s n)"

fun arrives :: "event \<Rightarrow> signals \<Rightarrow> nat option \<times> signals" where
  "arrives Second s =
     (if alarm_in s = 1 then (Some SIGALRM, s\<lparr>alarm_in := 0\<rparr>) else (None, s\<lparr>alarm_in := alarm_in s - 1\<rparr>))"
| "arrives (Signal n) s = (Some n, s)"

text \<open>Events while the program runs: a blocked signal stays pending unless it is ignored.\<close>

fun meanwhile :: "event list \<Rightarrow> signals \<Rightarrow> ending + signals" where
  "meanwhile [] s = Inr s"
| "meanwhile (e # es) s =
     (case arrives e s of
        (None, s) \<Rightarrow> meanwhile es s
      | (Some n, s) \<Rightarrow>
          if blocked s n then meanwhile es (if ignored s n then s else s\<lparr>pending := (pending s)(n := True)\<rparr>)
          else if kills s n then Inl Killed
          else meanwhile es s)"

text \<open>\<open>sigsuspend\<close> returns when a signal outside of the mask \<open>ms\<close> has been caught.\<close>

fun suspended :: "(nat \<Rightarrow> bool) \<Rightarrow> event list \<Rightarrow> signals \<Rightarrow> ending + signals" where
  "suspended ms [] s = Inl Waiting"
| "suspended ms (e # es) s =
     (case arrives e s of
        (None, s) \<Rightarrow> suspended ms es s
      | (Some n, s) \<Rightarrow>
          if ms n then suspended ms es (if ignored s n then s else s\<lparr>pending := (pending s)(n := True)\<rparr>)
          else if kills s n then Inl Killed
          else if caught s n then Inr s
          else suspended ms es s)"

text \<open>A pending signal that the mask does not block comes at once: here only \<open>SIGALRM\<close> can be one, which the caller had not blocked.\<close>

definition sigsuspend :: "(nat \<Rightarrow> bool) \<Rightarrow> event list \<Rightarrow> signals \<Rightarrow> ending + signals" where
  "sigsuspend ms es s =
     (if pending s SIGALRM \<and> \<not> ms SIGALRM
      then (let s = s\<lparr>pending := (pending s)(SIGALRM := False)\<rparr> in
            if kills s SIGALRM then Inl Killed else if caught s SIGALRM then Inr s else suspended ms es s)
      else suspended ms es s)"

text \<open>\<open>sigprocmask(SIG_SETMASK)\<close>: what was pending and is no longer blocked is delivered.\<close>

definition set_mask :: "(nat \<Rightarrow> bool) \<Rightarrow> signals \<Rightarrow> ending + signals" where
  "set_mask ms s =
     (let s = s\<lparr>blocked := ms\<rparr> in
      if pending s SIGALRM \<and> \<not> ms SIGALRM
      then (if kills s SIGALRM then Inl Killed else Inr (s\<lparr>pending := (pending s)(SIGALRM := False)\<rparr>))
      else Inr s)"

subsection \<open>The function\<close>

definition my_sleep :: "nat \<Rightarrow> event list \<Rightarrow> event list \<Rightarrow> event list \<Rightarrow> signals \<Rightarrow> ending + (nat \<times> signals)" where
  "my_sleep seconds early during late s =
     (let oldact = actions s SIGALRM;
          s = s\<lparr>actions := (actions s)(SIGALRM := \<lparr>sa_handler = handle_sigalrm, sa_flags = 0\<rparr>)\<rparr>;
          oldset = blocked s;
          s = s\<lparr>blocked := (blocked s)(SIGALRM := True)\<rparr>;
          pause_set = oldset(SIGALRM := False);
          s = s\<lparr>alarm_in := seconds\<rparr> in
      bnd (meanwhile early s) (\<lambda>s.
      bnd (sigsuspend pause_set during s) (\<lambda>s.
      bnd (meanwhile late s) (\<lambda>s.
        let ret = alarm_in s;
            s = s\<lparr>alarm_in := 0\<rparr>;
            s = s\<lparr>actions := (actions s)(SIGALRM := \<lparr>sa_handler = sa_handler oldact, sa_flags = SA_RESTART\<rparr>)\<rparr> in
        bnd (set_mask oldset s) (\<lambda>s. Inr (ret, s))))))"

subsection \<open>What the kernel keeps\<close>

text \<open>The events change neither the actions nor the mask, and the alarm only gets nearer.\<close>

lemma arrives_keeps: "arrives e s = (n, s') \<Longrightarrow> actions s' = actions s \<and> blocked s' = blocked s \<and> pending s' = pending s"
  by (cases e) (auto split: if_splits)

lemma meanwhile_keeps: "meanwhile es s = Inr s' \<Longrightarrow> actions s' = actions s \<and> blocked s' = blocked s"
proof (induction es s rule: meanwhile.induct)
  case (2 e es s)
  obtain n t where "arrives e s = (n, t)"
    by (cases "arrives e s")
  then show ?case
    using 2 arrives_keeps [of e s n t] by (auto split: option.splits if_splits)
qed simp

lemma suspended_keeps: "suspended ms es s = Inr s' \<Longrightarrow> actions s' = actions s \<and> blocked s' = blocked s"
proof (induction ms es s rule: suspended.induct)
  case (2 ms e es s)
  obtain n t where "arrives e s = (n, t)"
    by (cases "arrives e s")
  then show ?case
    using 2 arrives_keeps [of e s n t] by (auto split: option.splits if_splits)
qed simp

lemma sigsuspend_keeps: "sigsuspend ms es s = Inr s' \<Longrightarrow> actions s' = actions s \<and> blocked s' = blocked s"
  by (auto simp: sigsuspend_def Let_def split: if_splits dest: suspended_keeps)

lemma alarm_nearer: "arrives e s = (n, s') \<Longrightarrow> alarm_in s' \<le> alarm_in s"
  by (cases e) (auto split: if_splits)

lemma meanwhile_alarm: "meanwhile es s = Inr s' \<Longrightarrow> alarm_in s' \<le> alarm_in s"
proof (induction es s rule: meanwhile.induct)
  case (2 e es s)
  obtain n t where "arrives e s = (n, t)"
    by (cases "arrives e s")
  then show ?case
    using 2 alarm_nearer [of e s n t] by (fastforce split: option.splits if_splits)
qed simp

lemma suspended_alarm: "suspended ms es s = Inr s' \<Longrightarrow> alarm_in s' \<le> alarm_in s"
proof (induction ms es s rule: suspended.induct)
  case (2 ms e es s)
  obtain n t where "arrives e s = (n, t)"
    by (cases "arrives e s")
  then show ?case
    using 2 alarm_nearer [of e s n t] by (fastforce split: option.splits if_splits)
qed simp

lemma sigsuspend_alarm: "sigsuspend ms es s = Inr s' \<Longrightarrow> alarm_in s' \<le> alarm_in s"
  by (auto simp: sigsuspend_def Let_def split: if_splits dest: suspended_alarm)

text \<open>The state in which \<open>my_sleep\<close> sets the alarm.\<close>

definition armed :: "nat \<Rightarrow> signals \<Rightarrow> signals" where
  "armed seconds s = s\<lparr>actions := (actions s)(SIGALRM := \<lparr>sa_handler = handle_sigalrm, sa_flags = 0\<rparr>),
     blocked := (blocked s)(SIGALRM := True), alarm_in := seconds\<rparr>"

definition disarmed :: "action \<Rightarrow> signals \<Rightarrow> signals" where
  "disarmed oldact s =
     s\<lparr>alarm_in := 0, actions := (actions s)(SIGALRM := \<lparr>sa_handler = sa_handler oldact, sa_flags = SA_RESTART\<rparr>)\<rparr>"

lemma my_sleep_eq:
  "my_sleep seconds early during late s =
     bnd (meanwhile early (armed seconds s)) (\<lambda>t. bnd (sigsuspend ((blocked s)(SIGALRM := False)) during t) (\<lambda>u.
     bnd (meanwhile late u) (\<lambda>v. bnd (set_mask (blocked s) (disarmed (actions s SIGALRM) v)) (\<lambda>s'. Inr (alarm_in v, s')))))"
  by (simp add: my_sleep_def armed_def disarmed_def Let_def)

lemma set_mask_keeps: "set_mask ms s = Inr s' \<Longrightarrow> blocked s' = ms \<and> actions s' = actions s \<and> alarm_in s' = alarm_in s"
  by (auto simp: set_mask_def Let_def split: if_splits)

lemma my_sleep_restores:
  assumes "my_sleep seconds early during late s = Inr (ret, s')"
  shows "blocked s' = blocked s \<and> alarm_in s' = 0 \<and> (\<forall>n. sa_handler (actions s' n) = sa_handler (actions s n)) \<and> ret \<le> seconds"
proof -
  obtain t u v where m: "meanwhile early (armed seconds s) = Inr t" "sigsuspend ((blocked s)(SIGALRM := False)) during t = Inr u"
      "meanwhile late u = Inr v" "set_mask (blocked s) (disarmed (actions s SIGALRM) v) = Inr s'" "ret = alarm_in v"
    using assms by (auto simp: my_sleep_eq bnd_eq_Inr)
  have "ret \<le> seconds"
    using meanwhile_alarm [OF m(1)] sigsuspend_alarm [OF m(2)] meanwhile_alarm [OF m(3)] m(5) by (simp add: armed_def)
  moreover have "actions v = actions (armed seconds s)"
    using meanwhile_keeps [OF m(1)] sigsuspend_keeps [OF m(2)] meanwhile_keeps [OF m(3)] by simp
  ultimately show ?thesis
    using set_mask_keeps [OF m(4)] by (simp add: disarmed_def armed_def)
qed

subsection \<open>Waking up\<close>

fun seconds_of :: "event list \<Rightarrow> nat" where
  "seconds_of [] = 0"
| "seconds_of (Second # es) = Suc (seconds_of es)"
| "seconds_of (Signal n # es) = seconds_of es"

definition harmless :: "signals \<Rightarrow> event list \<Rightarrow> bool" where
  "harmless s es \<longleftrightarrow> (\<forall>n. Signal n \<in> set es \<longrightarrow> n = SIGALRM \<or> \<not> kills s n)"

definition alarm_caught :: "signals \<Rightarrow> bool" where
  "alarm_caught s \<longleftrightarrow> sa_handler (actions s SIGALRM) = handle_sigalrm"

lemma alarm_caught_simps:
  "alarm_caught s \<Longrightarrow> caught s SIGALRM" "alarm_caught s \<Longrightarrow> \<not> kills s SIGALRM" "alarm_caught s \<Longrightarrow> \<not> ignored s SIGALRM"
  by (simp_all add: alarm_caught_def caught_def kills_def ignored_def handle_sigalrm_def)

lemma kills_cong: "actions s = actions t \<Longrightarrow> kills s n = kills t n" "actions s = actions t \<Longrightarrow> harmless s es = harmless t es"
  "actions s = actions t \<Longrightarrow> alarm_caught s = alarm_caught t"
  by (simp_all add: kills_def harmless_def alarm_caught_def)

text \<open>While \<open>SIGALRM\<close> is blocked the alarm is either still to come or pending.\<close>

lemma meanwhile_waits:
  "alarm_caught s \<Longrightarrow> blocked s SIGALRM \<Longrightarrow> harmless s es \<Longrightarrow>
    \<exists>s'. meanwhile es s = Inr s' \<and> (pending s SIGALRM \<longrightarrow> pending s' SIGALRM) \<and>
      (0 < alarm_in s \<longrightarrow> pending s' SIGALRM \<or> seconds_of es < alarm_in s \<and> alarm_in s' = alarm_in s - seconds_of es)"
proof (induction es arbitrary: s)
  case (Cons e es)
  have h: "harmless s es"
    using Cons.prems(3) by (simp add: harmless_def)
  show ?case
  proof (cases e)
    case Second
    show ?thesis
    proof (cases "alarm_in s = 1")
      case True
      let ?s = "s\<lparr>alarm_in := 0, pending := (pending s)(SIGALRM := True)\<rparr>"
      obtain s' where "meanwhile es ?s = Inr s'" "pending s' SIGALRM"
        using Cons.IH [of ?s] Cons.prems h kills_cong [of ?s s] by auto
      then show ?thesis
        using Second True Cons.prems alarm_caught_simps(3) [of "s\<lparr>alarm_in := 0\<rparr>"] kills_cong(3) [of "s\<lparr>alarm_in := 0\<rparr>" s]
        by simp
    next
      case False
      let ?s = "s\<lparr>alarm_in := alarm_in s - 1\<rparr>"
      have "harmless ?s es" "alarm_caught ?s"
        using Cons.prems h kills_cong [of ?s s] by auto
      then obtain s' where "meanwhile es ?s = Inr s'" "pending s SIGALRM \<longrightarrow> pending s' SIGALRM"
          "0 < alarm_in s - 1 \<longrightarrow> pending s' SIGALRM \<or> seconds_of es < alarm_in s - 1 \<and> alarm_in s' = alarm_in s - 1 - seconds_of es"
        using Cons.IH [of ?s] Cons.prems by auto
      then show ?thesis
        using Second False by auto
    qed
  next
    case (Signal n)
    let ?s = "if blocked s n \<and> \<not> ignored s n then s\<lparr>pending := (pending s)(n := True)\<rparr> else s"
    have a: "actions ?s = actions s"
      by simp
    have "harmless ?s es" "alarm_caught ?s" "blocked ?s SIGALRM" "alarm_in ?s = alarm_in s" "pending s SIGALRM \<longrightarrow> pending ?s SIGALRM"
      using Cons.prems h kills_cong [OF a] by auto
    then obtain s' where s': "meanwhile es ?s = Inr s'" "pending s SIGALRM \<longrightarrow> pending s' SIGALRM"
        "0 < alarm_in s \<longrightarrow> pending s' SIGALRM \<or> seconds_of es < alarm_in s \<and> alarm_in s' = alarm_in s - seconds_of es"
      using Cons.IH [of ?s] by auto
    have "blocked s n \<or> \<not> kills s n"
      using Cons.prems Signal by (auto simp: harmless_def)
    then have "meanwhile (e # es) s = meanwhile es ?s"
      using Signal by auto
    then show ?thesis
      using s' Signal by auto
  qed
qed simp

lemma suspended_wakes:
  "alarm_caught s \<Longrightarrow> \<not> ms SIGALRM \<Longrightarrow> harmless s es \<Longrightarrow> 0 < alarm_in s \<Longrightarrow> alarm_in s \<le> seconds_of es \<Longrightarrow>
    \<not> pending s SIGALRM \<Longrightarrow> \<exists>s'. suspended ms es s = Inr s' \<and> \<not> pending s' SIGALRM"
proof (induction es arbitrary: s)
  case (Cons e es)
  have h: "harmless s es"
    using Cons.prems(3) by (simp add: harmless_def)
  show ?case
  proof (cases e)
    case Second
    show ?thesis
    proof (cases "alarm_in s = 1")
      case True
      then show ?thesis
        using Second Cons.prems alarm_caught_simps(1,2) [of "s\<lparr>alarm_in := 0\<rparr>"] kills_cong(3) [of "s\<lparr>alarm_in := 0\<rparr>" s] by simp
    next
      case False
      let ?s = "s\<lparr>alarm_in := alarm_in s - 1\<rparr>"
      have "harmless ?s es" "alarm_caught ?s"
        using Cons.prems h kills_cong [of ?s s] by auto
      then have "\<exists>s'. suspended ms es ?s = Inr s' \<and> \<not> pending s' SIGALRM"
        using Cons.prems Second False by (intro Cons.IH) auto
      then show ?thesis
        using Second False by simp
    qed
  next
    case (Signal n)
    let ?s = "if ms n \<and> \<not> ignored s n then s\<lparr>pending := (pending s)(n := True)\<rparr> else s"
    have a: "actions ?s = actions s"
      by simp
    have "n \<noteq> SIGALRM" if "ms n"
      using that Cons.prems(2) by auto
    then have "harmless ?s es" "alarm_caught ?s" "alarm_in ?s = alarm_in s" "\<not> pending ?s SIGALRM"
      using Cons.prems h kills_cong [OF a] by auto
    then have "\<exists>s'. suspended ms es ?s = Inr s' \<and> \<not> pending s' SIGALRM"
      using Cons.prems Signal by (intro Cons.IH) auto
    moreover have "\<not> kills s n"
      using Cons.prems(1,3) Signal alarm_caught_simps(2) by (auto simp: harmless_def)
    ultimately show ?thesis
      using Signal Cons.prems(6) by auto
  qed
qed simp

subsection \<open>Sleeping\<close>

text \<open>No \<open>SIGALRM\<close> but the alarm itself, and during the wait no signal that is caught.\<close>

definition undisturbed :: "signals \<Rightarrow> event list \<Rightarrow> event list \<Rightarrow> bool" where
  "undisturbed s early during \<longleftrightarrow> \<not> pending s SIGALRM \<and> Signal SIGALRM \<notin> set early \<and> Signal SIGALRM \<notin> set during \<and>
     (\<forall>n. Signal n \<in> set during \<longrightarrow> blocked s n \<or> ignored s n)"

lemma ignored_cong: "actions s = actions t \<Longrightarrow> ignored s n = ignored t n" "actions s = actions t \<Longrightarrow> caught s n = caught t n"
  by (simp_all add: ignored_def kills_def caught_def)

text \<open>When \<open>SIGALRM\<close> has become pending, the alarm has gone off.\<close>

lemma meanwhile_rings:
  "meanwhile es s = Inr t \<Longrightarrow> Signal SIGALRM \<notin> set es \<Longrightarrow> \<not> pending s SIGALRM \<Longrightarrow> pending t SIGALRM \<Longrightarrow>
    0 < alarm_in s \<and> alarm_in s \<le> seconds_of es \<and> alarm_in t = 0"
proof (induction es arbitrary: s)
  case (Cons e es)
  show ?case
  proof (cases e)
    case Second
    show ?thesis
    proof (cases "alarm_in s = 1")
      case True
      let ?s = "s\<lparr>alarm_in := 0\<rparr>"
      obtain u where "meanwhile es u = Inr t" "alarm_in u = 0"
        using Cons.prems(1) Second True by (fastforce split: if_splits)
      then show ?thesis
        using meanwhile_alarm Second True by fastforce
    next
      case False
      then have "meanwhile es (s\<lparr>alarm_in := alarm_in s - 1\<rparr>) = Inr t"
        using Cons.prems(1) Second by simp
      from Cons.IH [OF this] show ?thesis
        using Cons.prems(2-4) Second by auto
    qed
  next
    case (Signal n)
    then have n: "n \<noteq> SIGALRM"
      using Cons.prems(2) by auto
    obtain u where u: "meanwhile es u = Inr t" "alarm_in u = alarm_in s" "pending u SIGALRM = pending s SIGALRM"
    proof (cases "blocked s n \<and> \<not> ignored s n")
      case True
      then show ?thesis
        using that [of "s\<lparr>pending := (pending s)(n := True)\<rparr>"] Cons.prems(1) Signal n by auto
    next
      case False
      then show ?thesis
        using that [of s] Cons.prems(1) Signal by (auto split: if_splits)
    qed
    from Cons.IH [OF u(1)] show ?thesis
      using Cons.prems(2-4) u Signal by auto
  qed
qed simp

text \<open>Undisturbed, \<open>sigsuspend\<close> ends with the alarm and not before.\<close>

definition no_wake :: "(nat \<Rightarrow> bool) \<Rightarrow> signals \<Rightarrow> event list \<Rightarrow> bool" where
  "no_wake ms s es \<longleftrightarrow> (\<forall>n. Signal n \<in> set es \<longrightarrow> n \<noteq> SIGALRM \<and> (ms n \<or> ignored s n))"

lemma suspended_sleeps:
  "no_wake ms s es \<Longrightarrow> \<not> ms SIGALRM \<Longrightarrow>
    (seconds_of es < alarm_in s \<longrightarrow> suspended ms es s = Inl Waiting) \<and> (suspended ms es s = Inr u \<longrightarrow> alarm_in u = 0)"
proof (induction es arbitrary: s)
  case (Cons e es)
  have keep: "no_wake ms t es" if "actions t = actions s" for t
    using Cons.prems(1) ignored_cong(1) [OF that] by (simp add: no_wake_def)
  show ?case
  proof (cases e)
    case Second
    show ?thesis
    proof (cases "alarm_in s = 1")
      case True
      have "no_wake ms (s\<lparr>alarm_in := 0\<rparr>) es"
        by (rule keep) simp
      then show ?thesis
        using Second True Cons.IH [of "s\<lparr>alarm_in := 0\<rparr>"] Cons.prems(2) by auto
    next
      case False
      let ?s = "s\<lparr>alarm_in := alarm_in s - 1\<rparr>"
      have "no_wake ms ?s es"
        by (rule keep) simp
      then have "(seconds_of es < alarm_in s - 1 \<longrightarrow> suspended ms es ?s = Inl Waiting) \<and> (suspended ms es ?s = Inr u \<longrightarrow> alarm_in u = 0)"
        using Cons.IH [of ?s] Cons.prems(2) by simp
      then show ?thesis
        using Second False by auto
    qed
  next
    case (Signal n)
    then have n: "n \<noteq> SIGALRM" "ms n \<or> ignored s n"
      using Cons.prems(1) by (auto simp: no_wake_def)
    let ?s = "if ms n \<and> \<not> ignored s n then s\<lparr>pending := (pending s)(n := True)\<rparr> else s"
    have "suspended ms (e # es) s = suspended ms es ?s"
      using Signal n by (auto simp: ignored_def)
    moreover have "no_wake ms ?s es"
      by (rule keep) simp
    ultimately show ?thesis
      using Cons.IH [of ?s] Cons.prems(2) Signal by auto
  qed
qed simp

subsection \<open>The properties\<close>

definition restored :: "signals \<Rightarrow> signals \<Rightarrow> bool" where
  "restored s s' \<longleftrightarrow> blocked s' = blocked s \<and> alarm_in s' = 0 \<and> (\<forall>n. sa_handler (actions s' n) = sa_handler (actions s n))"

text \<open>What \<open>sigsuspend\<close> is called with.\<close>

lemma my_sleep_suspends:
  assumes "0 < seconds" "harmless s early"
  obtains t where "meanwhile early (armed seconds s) = Inr t" "alarm_caught t" "blocked t = (blocked s)(SIGALRM := True)"
    "actions t = actions (armed seconds s)"
    "pending t SIGALRM \<or> seconds_of early < seconds \<and> alarm_in t = seconds - seconds_of early"
proof -
  let ?a = "armed seconds s"
  have a: "alarm_caught ?a" "blocked ?a SIGALRM" "alarm_in ?a = seconds" "harmless ?a early"
    using assms(2) by (auto simp: armed_def alarm_caught_def harmless_def kills_def)
  obtain t where t: "meanwhile early ?a = Inr t" "pending t SIGALRM \<or> seconds_of early < seconds \<and> alarm_in t = seconds - seconds_of early"
    using meanwhile_waits [OF a(1,2,4)] a(3) assms(1) by auto
  have "actions t = actions ?a" "blocked t = (blocked s)(SIGALRM := True)"
    using meanwhile_keeps [OF t(1)] by (simp_all add: armed_def)
  then show ?thesis
    using that t kills_cong(3) [of t ?a] a(1) by blast
qed

lemma armed_pending: "pending (armed seconds s) = pending s" "alarm_in (armed seconds s) = seconds"
  by (simp_all add: armed_def)

lemma undisturbed_no_wake:
  assumes "undisturbed s early during" "actions t = actions (armed seconds s)"
  shows "no_wake ((blocked s)(SIGALRM := False)) t during"
proof -
  have "ignored t n = ignored s n" if "n \<noteq> SIGALRM" for n
    using that ignored_cong(1) [OF assms(2), of n] by (simp add: armed_def ignored_def kills_def caught_def)
  then show ?thesis
    using assms(1) by (auto simp: undisturbed_def no_wake_def)
qed

lemma my_sleep_sleeps:
  assumes "0 < seconds" "harmless s early" "undisturbed s early during" "seconds_of early + seconds_of during < seconds"
  shows "my_sleep seconds early during late s = Inl Waiting"
proof -
  obtain t where t: "meanwhile early (armed seconds s) = Inr t" "actions t = actions (armed seconds s)"
    "pending t SIGALRM \<or> seconds_of early < seconds \<and> alarm_in t = seconds - seconds_of early"
    using my_sleep_suspends [OF assms(1,2)] by metis
  have np: "\<not> pending t SIGALRM"
    using meanwhile_rings [OF t(1)] assms(3,4) by (auto simp: undisturbed_def armed_pending)
  then have "suspended ((blocked s)(SIGALRM := False)) during t = Inl Waiting"
    using suspended_sleeps [OF undisturbed_no_wake [OF assms(3) t(2)]] t(3) assms(4) by auto
  then show ?thesis
    using t(1) np by (simp add: my_sleep_eq sigsuspend_def)
qed

lemma my_sleep_woken:
  assumes "0 < seconds" "seconds \<le> seconds_of early + seconds_of during" "harmless s early" "harmless s during"
  obtains t u where "meanwhile early (armed seconds s) = Inr t" "sigsuspend ((blocked s)(SIGALRM := False)) during t = Inr u"
    "\<not> pending u SIGALRM" "undisturbed s early during \<longrightarrow> alarm_in u = 0" "actions u = actions (armed seconds s)"
    "blocked u = (blocked s)(SIGALRM := True)"
proof -
  let ?ms = "(blocked s)(SIGALRM := False)"
  obtain t where t: "meanwhile early (armed seconds s) = Inr t" "alarm_caught t" "blocked t = (blocked s)(SIGALRM := True)"
    "actions t = actions (armed seconds s)"
    "pending t SIGALRM \<or> seconds_of early < seconds \<and> alarm_in t = seconds - seconds_of early"
    using my_sleep_suspends [OF assms(1,3)] .
  have h: "harmless t during"
    using kills_cong(2) [OF t(4)] assms(4) by (auto simp: armed_def harmless_def kills_def)
  have "\<exists>u. sigsuspend ?ms during t = Inr u \<and> \<not> pending u SIGALRM \<and> (undisturbed s early during \<longrightarrow> alarm_in u = 0)"
  proof (cases "pending t SIGALRM")
    case True
    let ?t = "t\<lparr>pending := (pending t)(SIGALRM := False)\<rparr>"
    have "alarm_caught ?t"
      using t(2) kills_cong(3) [of ?t t] by simp
    moreover have "undisturbed s early during \<longrightarrow> alarm_in t = 0"
      using meanwhile_rings [OF t(1)] True by (auto simp: undisturbed_def armed_pending)
    ultimately show ?thesis
      using True alarm_caught_simps(1,2) [of ?t] by (simp add: sigsuspend_def Let_def)
  next
    case False
    then have "0 < alarm_in t" "alarm_in t \<le> seconds_of during"
      using t(5) assms(2) by auto
    then obtain u where u: "suspended ?ms during t = Inr u" "\<not> pending u SIGALRM"
      using suspended_wakes [OF t(2) _ h, of ?ms] False by auto
    moreover have "undisturbed s early during \<longrightarrow> alarm_in u = 0"
      using suspended_sleeps [OF undisturbed_no_wake [OF _ t(4)]] u(1) by auto
    ultimately show ?thesis
      using False by (simp add: sigsuspend_def)
  qed
  then show ?thesis
    using that t sigsuspend_keeps by metis
qed

text \<open>
  C19. \<open>my_sleep\<close> of at least one second sleeps: as long as less time than that has passed it waits, unless another signal
  that is caught ends the wait. When the time has passed, also when the alarm goes off before \<open>sigsuspend\<close>, it returns
  (with 0 if it was not disturbed), and the mask and all handlers are as before and no alarm is left. The only exception: when
  the wait was ended by another signal and \<open>SIGALRM\<close> arrives after all, it finds the old action, and that may kill the
  process. No other signal that kills is sent meanwhile.
\<close>

theorem my_sleep_wakes:
  assumes "0 < seconds" "harmless s early" "harmless s during" "harmless s late"
  shows "(undisturbed s early during \<and> seconds_of early + seconds_of during < seconds \<longrightarrow>
      my_sleep seconds early during late s = Inl Waiting) \<and>
    (seconds \<le> seconds_of early + seconds_of during \<longrightarrow>
      (\<exists>ret s'. my_sleep seconds early during late s = Inr (ret, s') \<and> ret \<le> seconds \<and> (undisturbed s early during \<longrightarrow> ret = 0) \<and>
        restored s s') \<or>
      my_sleep seconds early during late s = Inl Killed \<and> kills s SIGALRM \<and> \<not> blocked s SIGALRM \<and>
        \<not> (undisturbed s early during \<and> Signal SIGALRM \<notin> set late))"
proof (intro conjI impI)
  show "my_sleep seconds early during late s = Inl Waiting"
    if "undisturbed s early during \<and> seconds_of early + seconds_of during < seconds"
    using my_sleep_sleeps [OF assms(1,2)] that by blast
next
  assume "seconds \<le> seconds_of early + seconds_of during"
  then obtain t u where u: "meanwhile early (armed seconds s) = Inr t" "sigsuspend ((blocked s)(SIGALRM := False)) during t = Inr u"
    "\<not> pending u SIGALRM" "undisturbed s early during \<longrightarrow> alarm_in u = 0" "actions u = actions (armed seconds s)"
    "blocked u = (blocked s)(SIGALRM := True)"
    using my_sleep_woken [OF assms(1) _ assms(2,3)] by metis
  have "harmless u late" "alarm_caught u"
    using assms(4) kills_cong(2,3) [OF u(5)] by (auto simp: armed_def harmless_def kills_def alarm_caught_def)
  then obtain v where v: "meanwhile late u = Inr v"
    using meanwhile_waits [of u late] u(6) by auto
  have quiet: "\<not> pending v SIGALRM \<and> alarm_in v = 0" if "undisturbed s early during" "Signal SIGALRM \<notin> set late"
    using meanwhile_rings [OF v that(2) u(3)] meanwhile_alarm [OF v] u(4) that(1) by auto
  have ret: "undisturbed s early during \<longrightarrow> alarm_in v = 0"
    using meanwhile_alarm [OF v] u(4) by auto
  let ?d = "disarmed (actions s SIGALRM) v"
  have m: "my_sleep seconds early during late s = bnd (set_mask (blocked s) ?d) (\<lambda>s'. Inr (alarm_in v, s'))"
    using u(1,2) v by (simp add: my_sleep_eq)
  have k: "kills (?d\<lparr>blocked := ms\<rparr>) SIGALRM = kills s SIGALRM" for ms
    by (simp add: kills_def disarmed_def)
  show "(\<exists>ret s'. my_sleep seconds early during late s = Inr (ret, s') \<and> ret \<le> seconds \<and> (undisturbed s early during \<longrightarrow> ret = 0) \<and>
        restored s s') \<or>
      my_sleep seconds early during late s = Inl Killed \<and> kills s SIGALRM \<and> \<not> blocked s SIGALRM \<and>
        \<not> (undisturbed s early during \<and> Signal SIGALRM \<notin> set late)"
  proof (cases "set_mask (blocked s) ?d")
    case (Inr s')
    then have "my_sleep seconds early during late s = Inr (alarm_in v, s')"
      using m by simp
    then show ?thesis
      using my_sleep_restores ret unfolding restored_def by blast
  next
    case (Inl e)
    then have "e = Killed" "kills s SIGALRM" "\<not> blocked s SIGALRM" "pending ?d SIGALRM"
      using k by (auto simp: set_mask_def Let_def split: if_splits)
    then show ?thesis
      using Inl m quiet by (auto simp: disarmed_def)
  qed
qed

definition quiet_process :: signals where
  "quiet_process = \<lparr>actions = (\<lambda>n. if n = 2 then \<lparr>sa_handler = Function 7, sa_flags = 0\<rparr> else \<lparr>sa_handler = Default, sa_flags = 0\<rparr>),
     blocked = (\<lambda>n. False), pending = (\<lambda>n. False), alarm_in = 0\<rparr>"

lemmas quiet_process_simps = harmless_def kills_def caught_def ignored_def undisturbed_def quiet_process_def default_ignored_def SIGALRM_def

theorem my_sleep_wakes_witness:
  "my_sleep 3 [Second, Signal 2] [Signal 17, Second] [] quiet_process = Inl Waiting \<and>
    (\<exists>s'. my_sleep 3 [Second, Signal 2] [Signal 17, Second, Second] [Second] quiet_process = Inr (0, s') \<and> restored quiet_process s')"
proof
  show "my_sleep 3 [Second, Signal 2] [Signal 17, Second] [] quiet_process = Inl Waiting"
    using my_sleep_wakes [of 3 quiet_process "[Second, Signal 2]" "[Signal 17, Second]" "[]"] by (simp add: quiet_process_simps)
  show "\<exists>s'. my_sleep 3 [Second, Signal 2] [Signal 17, Second, Second] [Second] quiet_process = Inr (0, s') \<and> restored quiet_process s'"
    using my_sleep_wakes [of 3 quiet_process "[Second, Signal 2]" "[Signal 17, Second, Second]" "[Second]"] by (auto simp: quiet_process_simps)
qed

text \<open>\<open>alarm(0)\<close> sets no alarm: \<open>my_sleep(0)\<close> waits for a signal that nobody sends, where \<open>sleep(0)\<close> returns.\<close>

lemma alarm_still_off: "alarm_in s = 0 \<Longrightarrow> s\<lparr>alarm_in := 0\<rparr> = s"
  by (cases s) simp

lemma no_alarm: "alarm_in s = 0 \<Longrightarrow> meanwhile (replicate n Second) s = Inr s"
  "alarm_in s = 0 \<Longrightarrow> suspended ms (replicate n Second) s = Inl Waiting"
  by (induction n) (auto simp: alarm_still_off)

theorem my_sleep_zero:
  "\<not> pending s SIGALRM \<Longrightarrow> my_sleep 0 (replicate m Second) (replicate n Second) late s = Inl Waiting"
  by (simp add: my_sleep_eq no_alarm armed_def sigsuspend_def)

text \<open>
  The old action comes back before the old mask. When another signal has ended the wait, and the alarm goes off before it
  is cancelled, it is delivered to the old action, which by default ends the process.
\<close>

theorem my_sleep_killed: "my_sleep 1 [] [Signal 2] [Second] quiet_process = Inl Killed"
  by (simp add: my_sleep_eq armed_def disarmed_def sigsuspend_def set_mask_def kills_def caught_def ignored_def quiet_process_def
    handle_sigalrm_def default_ignored_def SIGALRM_def Let_def)

end
