(* ===== verification/EdgeTrigger.thy ===== *)
theory EdgeTrigger
  imports Prelude "HOL-Library.Word"
begin

text \<open>
  \<open>network/socket/codes/epoll-el/et.c\<close>: a parent writes ten bytes into a pipe every five seconds, a child waits for
  the pipe with an edge-triggered \<open>epoll\<close> and reads five bytes each time.

  \<^item> \<open>edge\<close> is the event that a write queues for the child and \<open>epoll_wait\<close> takes. \<open>capacity\<close> is the size of the pipe;
    a write of so few bytes is done as a whole, and waits while they do not fit.
  \<^item> \<open>et_step\<close> is an iteration of one of the two loops. \<open>writes\<close> and \<open>shown\<close> only record what was done.
  \<^item> One half of what arrives stays in the pipe for ever (\<open>et_inv\<close>), so that in the end both wait (\<open>et_ends\<close>).
\<close>

type_synonym byte = "8 word"

definition buf_size :: nat where
  "buf_size = 10"

text \<open>The two \<open>for\<close> loops and the assignments behind them, on the buffer as it is.\<close>

definition fill_half :: "nat \<Rightarrow> byte \<Rightarrow> byte list \<Rightarrow> byte list" where
  "fill_half from c buf = (take from buf @ replicate (buf_size div 2) c @ drop (from + buf_size div 2) buf)[from + buf_size div 2 - 1 := 10]"

record et_state =
  ch :: byte
  wbuf :: "byte list"
  pipe :: "byte list"
  edge :: bool
  shown :: "byte list"
  writes :: nat

definition fill_buf :: "byte \<Rightarrow> byte list \<Rightarrow> byte list" where
  "fill_buf c buf = fill_half (buf_size div 2) (c + 1) (fill_half 0 c buf)"

definition parent_writes :: "et_state \<Rightarrow> et_state" where
  "parent_writes s =
     (let b = fill_buf (ch s) (wbuf s) in
      s\<lparr>ch := ch s + 1 + 1, wbuf := b, pipe := pipe s @ b, edge := True, writes := Suc (writes s)\<rparr>)"

definition child_reads :: "et_state \<Rightarrow> et_state" where
  "child_reads s =
     (let r = take (buf_size div 2) (pipe s) in
      s\<lparr>edge := False, pipe := drop (buf_size div 2) (pipe s), shown := shown s @ r\<rparr>)"

inductive et_step :: "nat \<Rightarrow> et_state \<Rightarrow> et_state \<Rightarrow> bool" for capacity where
  parent: "length (pipe s) + buf_size \<le> capacity \<Longrightarrow> et_step capacity s (parent_writes s)"
| child: "edge s \<Longrightarrow> et_step capacity s (child_reads s)"

inductive_cases et_stepE: "et_step capacity s s'"

definition et_start :: "byte list \<Rightarrow> et_state" where
  "et_start junk = \<lparr>ch = 97, wbuf = junk, pipe = [], edge = False, shown = [], writes = 0\<rparr>"

subsection \<open>The stream\<close>

text \<open>A line of the stream: four letters and a newline; the letter is a \<open>char\<close>, which wraps around.\<close>

definition line_of :: "nat \<Rightarrow> byte list" where
  "line_of i = replicate 4 (97 + of_nat i) @ [10]"

definition stream :: "nat \<Rightarrow> byte list" where
  "stream n = concat (map line_of [0..<n])"

lemma stream_Suc: "stream (Suc n) = stream n @ line_of n"
  by (simp add: stream_def)

lemma stream_0 [simp]: "stream 0 = []"
  by (simp add: stream_def)

lemma length_stream [simp]: "length (stream n) = 5 * n"
  by (induction n) (simp_all add: stream_Suc line_of_def)

lemma take_stream: "m \<le> n \<Longrightarrow> take (5 * m) (stream n) = stream m"
proof (induction n)
  case (Suc n)
  then show ?case
    by (cases "m = Suc n") (simp_all add: stream_Suc line_of_def)
qed simp

lemma fill_buf_lines:
  assumes "length buf = buf_size"
  shows "fill_buf (97 + of_nat (2 * n)) buf = line_of (2 * n) @ line_of (Suc (2 * n))"
proof -
  obtain b0 b1 b2 b3 b4 b5 b6 b7 b8 b9 where "buf = [b0, b1, b2, b3, b4, b5, b6, b7, b8, b9]"
    using assms by (auto simp: buf_size_def length_Suc_conv numeral_eq_Suc)
  moreover have "buf_size div 2 = 5"
    by (simp add: buf_size_def)
  moreover have "replicate 5 x = [x, x, x, x, x]" "replicate 4 x = [x, x, x, x]" for x :: byte
    by (simp_all add: numeral_eq_Suc)
  ultimately have "fill_buf c buf = [c, c, c, c, 10, c + 1, c + 1, c + 1, c + 1, 10]" for c
    by (simp add: fill_buf_def fill_half_def)
  moreover have "replicate 4 x = [x, x, x, x]" for x :: byte
    by (simp add: numeral_eq_Suc)
  ultimately show ?thesis
    by (simp add: line_of_def algebra_simps)
qed

text \<open>
  After \<open>n\<close> writes and \<open>m\<close> reads the child has shown the first \<open>m\<close> lines of \<open>2 * n\<close>; there were never more reads than
  writes, and exactly as many only if no event is left.
\<close>

definition et_inv :: "nat \<Rightarrow> et_state \<Rightarrow> bool" where
  "et_inv capacity s \<longleftrightarrow> (\<exists>m. shown s = stream m \<and> pipe s = drop (5 * m) (stream (2 * writes s)) \<and>
     (if edge s then m < writes s else m \<le> writes s) \<and>
     ch s = 97 + of_nat (2 * writes s) \<and> length (wbuf s) = buf_size \<and> (writes s = 0 \<or> length (pipe s) \<le> capacity))"

lemma et_inv_step: "et_step capacity s s' \<Longrightarrow> et_inv capacity s \<Longrightarrow> et_inv capacity s'"
proof (induction rule: et_step.induct)
  case (parent s)
  then obtain m where m: "shown s = stream m" "pipe s = drop (5 * m) (stream (2 * writes s))" "m \<le> writes s"
      "ch s = 97 + of_nat (2 * writes s)" "length (wbuf s) = buf_size"
    by (auto simp: et_inv_def split: if_splits)
  have b: "fill_buf (ch s) (wbuf s) = line_of (2 * writes s) @ line_of (Suc (2 * writes s))"
    unfolding m(4) by (rule fill_buf_lines [OF m(5)])
  have "stream (2 * Suc (writes s)) = stream (2 * writes s) @ fill_buf (ch s) (wbuf s)"
    by (simp add: b stream_Suc)
  then have "pipe (parent_writes s) = drop (5 * m) (stream (2 * Suc (writes s)))"
    using m(2,3) by (simp add: parent_writes_def Let_def)
  moreover have "length (fill_buf (ch s) (wbuf s)) = buf_size"
    by (simp add: b line_of_def buf_size_def)
  moreover have "ch (parent_writes s) = 97 + of_nat (2 * Suc (writes s))"
    by (simp add: parent_writes_def Let_def m(4))
  moreover have "10 + 10 * writes s - 5 * m \<le> capacity"
    using parent.hyps m(2,3) by (simp add: buf_size_def)
  ultimately show ?case
    using parent.hyps m(1,3) unfolding et_inv_def
    by (intro exI [of _ m]) (simp add: parent_writes_def Let_def)
next
  case (child s)
  then obtain m where m: "shown s = stream m" "pipe s = drop (5 * m) (stream (2 * writes s))" "m < writes s"
      "ch s = 97 + of_nat (2 * writes s)" "length (wbuf s) = buf_size" "writes s = 0 \<or> length (pipe s) \<le> capacity"
    by (auto simp: et_inv_def)
  have "take (5 * m + 5) (stream (2 * writes s)) = stream (Suc m)"
    using take_stream [of "Suc m" "2 * writes s"] m(3) by (simp add: add.commute)
  then have "stream m @ take 5 (drop (5 * m) (stream (2 * writes s))) = stream m @ line_of m"
    using take_stream [of m "2 * writes s"] m(3) by (simp add: take_add stream_Suc)
  then have "take 5 (drop (5 * m) (stream (2 * writes s))) = line_of m"
    by simp
  then show ?case
    using m unfolding et_inv_def
    by (intro exI [of _ "Suc m"]) (simp add: child_reads_def Let_def buf_size_def stream_Suc)
qed

lemma et_inv_start: "length junk = buf_size \<Longrightarrow> et_inv capacity (et_start junk)"
  by (auto simp: et_inv_def et_start_def intro: exI [of _ 0])

lemma et_inv_reach: "(et_step capacity)\<^sup>*\<^sup>* s s' \<Longrightarrow> et_inv capacity s \<Longrightarrow> et_inv capacity s'"
  by (induction rule: rtranclp_induct) (auto intro: et_inv_step)

text \<open>Every step writes five bytes more than are read from then on, or takes an event: the number of steps is bounded.\<close>

definition et_measure :: "nat \<Rightarrow> et_state \<Rightarrow> nat" where
  "et_measure capacity s = 2 * (capacity - 5 * writes s) + (if edge s then 1 else 0)"

lemma et_step_measure:
  assumes "et_step capacity s s'" "et_inv capacity s"
  shows "et_measure capacity s' < et_measure capacity s"
  using assms
proof (induction rule: et_step.induct)
  case (parent s)
  then obtain m where "length (pipe s) = 10 * writes s - 5 * m" "m \<le> writes s"
    by (auto simp: et_inv_def split: if_splits)
  then have "5 * writes s + 10 \<le> capacity"
    using parent.hyps by (simp add: buf_size_def)
  then show ?case
    by (simp add: et_measure_def parent_writes_def Let_def)
next
  case (child s)
  then show ?case
    by (simp add: et_measure_def child_reads_def Let_def)
qed

subsection \<open>The properties\<close>

text \<open>
  C40. The child shows the lines in order, but never more than half of what was written, since a read takes five of the
  ten bytes that an event announces. So the pipe fills up: there are at most \<open>capacity / 5\<close> rounds, and in the end, where
  no step is possible, the parent waits for room and the child for an event, with at least as many lines unread as read.
\<close>

theorem et_ends:
  assumes "length junk = buf_size" "(et_step capacity)\<^sup>*\<^sup>* (et_start junk) s"
  shows "\<exists>m\<le>writes s. shown s = stream m \<and> pipe s = drop (5 * m) (stream (2 * writes s)) \<and> 5 * writes s \<le> capacity \<and>
    (\<exists>s'. (et_step capacity)\<^sup>*\<^sup>* s s' \<and> (\<forall>s''. \<not> et_step capacity s' s'') \<and> \<not> edge s' \<and> capacity < length (pipe s') + buf_size)"
proof -
  have inv: "et_inv capacity s"
    by (rule et_inv_reach [OF assms(2) et_inv_start [OF assms(1)]])
  have "\<exists>s'. (et_step capacity)\<^sup>*\<^sup>* s s' \<and> (\<forall>s''. \<not> et_step capacity s' s'')" if "et_inv capacity s" for s
    using that
  proof (induction "et_measure capacity s" arbitrary: s rule: less_induct)
    case less
    show ?case
    proof (cases "\<exists>t. et_step capacity s t")
      case True
      then obtain t where t: "et_step capacity s t"
        by blast
      then obtain s' where "(et_step capacity)\<^sup>*\<^sup>* t s'" "\<forall>s''. \<not> et_step capacity s' s''"
        using less et_step_measure et_inv_step by blast
      then show ?thesis
        using t by (meson converse_rtranclp_into_rtranclp)
    qed blast
  qed
  then obtain s' where s': "(et_step capacity)\<^sup>*\<^sup>* s s'" "\<forall>s''. \<not> et_step capacity s' s''"
    using inv by blast
  then have "\<not> edge s'" "capacity < length (pipe s') + buf_size"
    using et_step.intros not_less by blast+
  moreover obtain m where m: "shown s = stream m" "pipe s = drop (5 * m) (stream (2 * writes s))" "m \<le> writes s"
      "writes s = 0 \<or> length (pipe s) \<le> capacity"
    using inv by (auto simp: et_inv_def split: if_splits)
  moreover have "5 * writes s \<le> capacity"
    using m(2,3,4) by auto
  ultimately show ?thesis
    using s' by blast
qed

theorem et_ends_witness:
  "(et_step 20)\<^sup>*\<^sup>* (et_start (replicate 10 0)) (child_reads (parent_writes (et_start (replicate 10 0)))) \<and>
    shown (child_reads (parent_writes (et_start (replicate 10 0)))) = stream 1 \<and>
    (\<exists>s. (et_step 20)\<^sup>*\<^sup>* (child_reads (parent_writes (et_start (replicate 10 0)))) s \<and> (\<forall>s'. \<not> et_step 20 s s'))"
proof -
  let ?s = "et_start (replicate 10 0)"
  have "et_step 20 ?s (parent_writes ?s)"
    by (rule parent) (simp add: et_start_def buf_size_def)
  moreover have "et_step 20 (parent_writes ?s) (child_reads (parent_writes ?s))"
    by (rule child) (simp add: parent_writes_def Let_def)
  ultimately have r: "(et_step 20)\<^sup>*\<^sup>* ?s (child_reads (parent_writes ?s))"
    by (meson rtranclp.rtrancl_into_rtrancl rtranclp.rtrancl_refl)
  have "shown (child_reads (parent_writes ?s)) = stream 1"
    using fill_buf_lines [of "replicate 10 0" 0]
    by (simp add: child_reads_def parent_writes_def Let_def et_start_def buf_size_def stream_def line_of_def)
  then show ?thesis
    using r et_ends [OF _ r] by (auto simp: buf_size_def)
qed

end
