(* ===== verification/MqEcho.thy ===== *)
theory MqEcho
  imports EchoClient "HOL-Library.Multiset"
begin

text \<open>
  \<open>network/socket/codes/mq-echo\<close>: an echo server and its clients over one System V message queue. A client sends messages
  of type 1 that begin with its process id, the server sends each back with that id as the type.

  \<^item> \<open>msgbuf\<close> is a message: its type, the first four bytes of the text (\<open>pid\<close>) and the rest of it (\<open>mtext\<close>). Every message
    is sent with its full size, so that \<open>room\<close>, the number of messages that fit into the queue, says when \<open>msgsnd\<close> waits (two,
    with the usual limit of 16384 bytes). \<open>msgrcv\<close> takes the first message of a type.
  \<^item> \<open>client_step\<close> and \<open>server_step\<close> are what happens between two system calls; \<open>None\<close> when a call waits. The second
    argument of \<open>fgets\<close> is the \<open>sizeof\<close> of a pointer, so that lines travel in pieces of at most seven bytes.
  \<^item> \<open>mq_inv\<close>: a client that waits has exactly one message on its way, and the others have none.
\<close>

record msgbuf =
  mtype :: int
  pid :: int
  mtext :: "byte list"

definition TEXT_SIZE :: nat where
  "TEXT_SIZE = 8192 - 4"

definition POINTER_SIZE :: nat where
  "POINTER_SIZE = 8"

datatype client_place = Typing | Sending | Receiving | Done

record mq_client =
  cpid :: int
  cbuf :: msgbuf
  stdin :: "byte list"
  printed :: "byte list"
  cplace :: client_place

datatype server_place = Waiting_request | Answering

record mq =
  queue :: "msgbuf list"
  sbuf :: msgbuf
  splace :: server_place
  sprinted :: "byte list"
  clients :: "mq_client list"

fun msgrcv :: "int \<Rightarrow> msgbuf list \<Rightarrow> (msgbuf \<times> msgbuf list) option" where
  "msgrcv t [] = None"
| "msgrcv t (m # q) = (if mtype m = t then Some (m, q) else map_option (\<lambda>(x, q). (x, m # q)) (msgrcv t q))"

definition msgsnd :: "nat \<Rightarrow> msgbuf \<Rightarrow> msgbuf list \<Rightarrow> msgbuf list option" where
  "msgsnd room m q = (if length q < room then Some (q @ [m]) else None)"

definition set_client :: "nat \<Rightarrow> mq_client \<Rightarrow> mq \<Rightarrow> mq" where
  "set_client i c s = s\<lparr>clients := (clients s)[i := c]\<rparr>"

definition client_step :: "nat \<Rightarrow> nat \<Rightarrow> mq \<Rightarrow> mq option" where
  "client_step room i s =
     (let c = clients s ! i; zeros = replicate TEXT_SIZE 0 in
      case cplace c of
        Typing \<Rightarrow>
          (case fgets POINTER_SIZE (stdin c) of
             None \<Rightarrow> Some (set_client i (c\<lparr>cplace := Done\<rparr>) s)
           | Some (line, rest) \<Rightarrow>
               Some (set_client i (c\<lparr>cbuf := (cbuf c)\<lparr>mtext := typed_into (mtext (cbuf c)) line\<rparr>, stdin := rest, cplace := Sending\<rparr>) s))
      | Sending \<Rightarrow>
          (let m = (cbuf c)\<lparr>mtype := 1\<rparr> in
           case msgsnd room m (queue s) of
             None \<Rightarrow> None
           | Some q \<Rightarrow> Some (set_client i (c\<lparr>cbuf := m\<lparr>mtext := zeros\<rparr>, cplace := Receiving\<rparr>) (s\<lparr>queue := q\<rparr>)))
      | Receiving \<Rightarrow>
          (case msgrcv (cpid c) (queue s) of
             None \<Rightarrow> None
           | Some (m, q) \<Rightarrow>
               Some (set_client i (c\<lparr>cbuf := m\<lparr>mtext := zeros\<rparr>, printed := printed c @ c_str (mtext m), cplace := Typing\<rparr>) (s\<lparr>queue := q\<rparr>)))
      | Done \<Rightarrow> None)"

definition server_step :: "nat \<Rightarrow> mq \<Rightarrow> mq option" where
  "server_step room s =
     (case splace s of
        Waiting_request \<Rightarrow>
          (case msgrcv 1 (queue s) of
             None \<Rightarrow> None
           | Some (m, q) \<Rightarrow> Some (s\<lparr>queue := q, sbuf := m, sprinted := sprinted s @ c_str (mtext m), splace := Answering\<rparr>))
      | Answering \<Rightarrow>
          (let m = (sbuf s)\<lparr>mtype := pid (sbuf s)\<rparr> in
           case msgsnd room m (queue s) of
             None \<Rightarrow> None
           | Some q \<Rightarrow> Some (s\<lparr>queue := q, sbuf := m, splace := Waiting_request\<rparr>)))"

inductive mq_step :: "nat \<Rightarrow> mq \<Rightarrow> mq \<Rightarrow> bool" for room where
  by_client: "i < length (clients s) \<Longrightarrow> client_step room i s = Some s' \<Longrightarrow> mq_step room s s'"
| by_server: "server_step room s = Some s' \<Longrightarrow> mq_step room s s'"

definition mq_client_main :: "int \<Rightarrow> byte list \<Rightarrow> byte list \<Rightarrow> mq_client" where
  "mq_client_main p junk inp =
     \<lparr>cpid = p, cbuf = \<lparr>mtype = 1, pid = p, mtext = junk\<rparr>, stdin = inp, printed = [], cplace = Typing\<rparr>"

definition mq_main :: "(int \<times> byte list \<times> byte list) list \<Rightarrow> mq" where
  "mq_main cs = \<lparr>queue = [], sbuf = \<lparr>mtype = 0, pid = 0, mtext = replicate TEXT_SIZE 0\<rparr>, splace = Waiting_request, sprinted = [],
     clients = map (\<lambda>(p, junk, inp). mq_client_main p junk inp) cs\<rparr>"

subsection \<open>The queue\<close>

lemma msgrcv_Some:
  "msgrcv t q = Some (m, q') \<Longrightarrow> \<exists>a b. q = a @ m # b \<and> q' = a @ b \<and> mtype m = t"
proof (induction q arbitrary: q')
  case (Cons x q)
  show ?case
  proof (cases "mtype x = t")
    case True
    then show ?thesis
      using Cons.prems by (intro exI [of _ "[]"] exI [of _ q]) auto
  next
    case False
    then obtain r where r: "msgrcv t q = Some (m, r)" "q' = x # r"
      using Cons.prems by auto
    then obtain a b where "q = a @ m # b" "r = a @ b" "mtype m = t"
      using Cons.IH by blast
    then show ?thesis
      using r(2) by (intro exI [of _ "x # a"] exI [of _ b]) auto
  qed
qed simp

lemma msgrcv_None: "msgrcv t q = None \<longleftrightarrow> (\<forall>m\<in>set q. mtype m \<noteq> t)"
  by (induction q) auto

text \<open>The messages on their way: the one that the server works on and those in the queue.\<close>

definition on_way :: "mq \<Rightarrow> msgbuf list" where
  "on_way s = (case splace s of Answering \<Rightarrow> [sbuf s] | Waiting_request \<Rightarrow> []) @ queue s"

definition mine :: "int \<Rightarrow> mq \<Rightarrow> byte list list" where
  "mine p s = map mtext (filter (\<lambda>m. pid m = p) (on_way s))"

definition client_ok :: "byte list \<Rightarrow> byte list list \<Rightarrow> mq_client \<Rightarrow> bool" where
  "client_ok t ms c \<longleftrightarrow> pid (cbuf c) = cpid c \<and>
     (case cplace c of
        Typing \<Rightarrow> ms = [] \<and> t = printed c @ stdin c
      | Sending \<Rightarrow> ms = [] \<and> t = printed c @ c_str (mtext (cbuf c)) @ stdin c \<and> length (c_str (mtext (cbuf c))) < POINTER_SIZE
      | Receiving \<Rightarrow> (\<exists>x. ms = [x] \<and> t = printed c @ c_str x @ stdin c \<and> length (c_str x) < POINTER_SIZE)
      | Done \<Rightarrow> ms = [] \<and> t = printed c \<and> stdin c = [])"

definition mq_inv :: "(int \<times> byte list \<times> byte list) list \<Rightarrow> mq \<Rightarrow> bool" where
  "mq_inv cs s \<longleftrightarrow> length (clients s) = length cs \<and>
     (\<forall>i<length cs. cpid (clients s ! i) = fst (cs ! i) \<and> client_ok (snd (snd (cs ! i))) (mine (fst (cs ! i)) s) (clients s ! i)) \<and>
     (\<forall>m\<in>set (on_way s). pid m \<in> fst ` set cs) \<and> (\<forall>m\<in>set (queue s). mtype m = 1 \<or> mtype m = pid m)"

definition good_clients :: "(int \<times> byte list \<times> byte list) list \<Rightarrow> bool" where
  "good_clients cs \<longleftrightarrow> distinct (map fst cs) \<and> (\<forall>(p, junk, inp)\<in>set cs. p \<noteq> 1 \<and> 0 \<notin> set inp)"

lemma mq_inv_start: "mq_inv cs (mq_main cs)"
  by (auto simp: mq_inv_def mq_main_def mine_def on_way_def mq_client_main_def client_ok_def split_beta)

subsection \<open>The steps\<close>

lemma own_pid:
  assumes "good_clients cs" "i < length cs" "j < length cs" "fst (cs ! i) = fst (cs ! j)"
  shows "i = j"
  using assms by (simp add: good_clients_def distinct_conv_nth) (metis nth_map length_map)

lemma on_way_set_client [simp]:
  "on_way (set_client i c s) = on_way s" "queue (set_client i c s) = queue s" "clients (set_client i c s) = (clients s)[i := c]"
  by (simp_all add: on_way_def set_client_def split: server_place.splits)

lemma inv_client:
  assumes "mq_inv cs s" "good_clients cs" "i < length cs" "cpid c = fst (cs ! i)"
    and "client_ok (snd (snd (cs ! i))) (mine (fst (cs ! i)) t) c"
    and "clients t = clients s" "\<forall>m\<in>set (on_way t). pid m \<in> fst ` set cs" "\<forall>m\<in>set (queue t). mtype m = 1 \<or> mtype m = pid m"
    and "\<And>p. p \<noteq> fst (cs ! i) \<Longrightarrow> mine p t = mine p s"
  shows "mq_inv cs (set_client i c t)"
proof -
  have "mine (fst (cs ! j)) t = mine (fst (cs ! j)) s" if "j < length cs" "j \<noteq> i" for j
    using own_pid [OF assms(2) that(1) assms(3)] that(2) assms(9) by blast
  then show ?thesis
    using assms by (auto simp: mq_inv_def nth_list_update mine_def)
qed

lemma c_str_typed: "0 \<notin> set line \<Longrightarrow> c_str (typed_into buf line) = line"
  unfolding typed_into_def c_str_def by (subst takeWhile_append2) auto

lemma client_step_inv:
  assumes inv: "mq_inv cs s" and good: "good_clients cs" and i: "i < length cs" and st: "client_step room i s = Some s'"
  shows "mq_inv cs s'"
proof -
  define c where "c = clients s ! i"
  define p where "p = fst (cs ! i)"
  define t where "t = snd (snd (cs ! i))"
  have c: "cpid c = p" "client_ok t (mine p s) c" "p \<in> fst ` set cs" "p \<noteq> 1" "0 \<notin> set t"
    using inv good i by (auto simp: mq_inv_def c_def p_def t_def good_clients_def split_beta)
  have ways: "\<forall>m\<in>set (on_way s). pid m \<in> fst ` set cs" "\<forall>m\<in>set (queue s). mtype m = 1 \<or> mtype m = pid m"
    using inv by (simp_all add: mq_inv_def)
  note upd = inv_client [OF inv good i, folded p_def t_def]
  show ?thesis
  proof (cases "cplace c")
    case Typing
    show ?thesis
    proof (cases "fgets POINTER_SIZE (stdin c)")
      case None
      then have "stdin c = []"
        by (auto simp: fgets_def Let_def split: if_splits)
      moreover have "s' = set_client i (c\<lparr>cplace := Done\<rparr>) s"
        using st Typing None by (simp add: client_step_def c_def Let_def)
      ultimately show ?thesis
        using c Typing ways by (simp, intro upd) (auto simp: client_ok_def)
    next
      case (Some lr)
      obtain line rest where lr: "lr = (line, rest)"
        by (cases lr)
      have f: "stdin c = line @ rest" "length line < POINTER_SIZE"
        using fgets_progress [of POINTER_SIZE "stdin c" line rest] Some lr by (auto simp: POINTER_SIZE_def)
      have l: "c_str (typed_into (mtext (cbuf c)) line) = line"
        using c(2,5) Typing f(1) by (intro c_str_typed) (auto simp: client_ok_def)
      have "s' = set_client i (c\<lparr>cbuf := (cbuf c)\<lparr>mtext := typed_into (mtext (cbuf c)) line\<rparr>, stdin := rest, cplace := Sending\<rparr>) s"
        using st Typing Some lr by (simp add: client_step_def c_def Let_def)
      then show ?thesis
        using c Typing ways f l by (simp, intro upd) (auto simp: client_ok_def)
    qed
  next
    case Sending
    let ?m = "(cbuf c)\<lparr>mtype := 1\<rparr>"
    have s': "s' = set_client i (c\<lparr>cbuf := ?m\<lparr>mtext := replicate TEXT_SIZE 0\<rparr>, cplace := Receiving\<rparr>) (s\<lparr>queue := queue s @ [?m]\<rparr>)"
      using st Sending by (auto simp: client_step_def c_def Let_def msgsnd_def split: option.splits if_splits)
    have m: "pid ?m = p"
      using c(1,2) by (simp add: client_ok_def)
    have w: "on_way (s\<lparr>queue := queue s @ [?m]\<rparr>) = on_way s @ [?m]"
      by (simp add: on_way_def split: server_place.splits)
    show ?thesis
      unfolding s' using c Sending ways m w
      by (intro upd) (auto simp: client_ok_def mine_def)
  next
    case Receiving
    obtain m q where r: "msgrcv p (queue s) = Some (m, q)"
        "s' = set_client i (c\<lparr>cbuf := m\<lparr>mtext := replicate TEXT_SIZE 0\<rparr>, printed := printed c @ c_str (mtext m), cplace := Typing\<rparr>) (s\<lparr>queue := q\<rparr>)"
      using st Receiving c(1) by (auto simp: client_step_def c_def Let_def split: option.splits)
    obtain a b where ab: "queue s = a @ m # b" "q = a @ b" "mtype m = p"
      using msgrcv_Some [OF r(1)] by blast
    then have pm: "pid m = p"
      using ways(2) c(4) by auto
    obtain h where w: "on_way s = h @ a @ m # b" "on_way (s\<lparr>queue := q\<rparr>) = h @ a @ b"
      using ab by (cases "splace s") (auto simp: on_way_def)
    have "mine p s = [mtext m] \<and> mine p (s\<lparr>queue := q\<rparr>) = []"
      using c(2) Receiving pm unfolding mine_def w by (auto simp: client_ok_def append_eq_Cons_conv)
    moreover have "mine r (s\<lparr>queue := q\<rparr>) = mine r s" if "r \<noteq> p" for r
      using that pm unfolding mine_def w by simp
    ultimately show ?thesis
      unfolding r(2) using c Receiving ways ab pm w
      by (intro upd) (auto simp: client_ok_def)
  next
    case Done
    then show ?thesis
      using st by (simp add: client_step_def c_def Let_def)
  qed
qed

lemma client_ok_perm:
  assumes "mset ms = mset ms'" "client_ok t ms c"
  shows "client_ok t ms' c"
proof -
  consider "ms = []" | x where "ms = [x]"
    using assms(2) by (cases "cplace c") (auto simp: client_ok_def)
  then have "ms' = ms"
    using assms(1) by cases (metis mset_zero_iff mset.simps(1), metis mset_single_iff_right mset.simps)
  then show ?thesis
    using assms(2) by simp
qed

lemma server_step_inv:
  assumes inv: "mq_inv cs s" and st: "server_step room s = Some s'"
  shows "mq_inv cs s'"
proof -
  have ways: "\<forall>m\<in>set (on_way s). pid m \<in> fst ` set cs" "\<forall>m\<in>set (queue s). mtype m = 1 \<or> mtype m = pid m"
    using inv by (simp_all add: mq_inv_def)
  have "clients s' = clients s \<and> (\<forall>p. mset (mine p s) = mset (mine p s')) \<and> (\<forall>m\<in>set (on_way s'). pid m \<in> fst ` set cs) \<and>
    (\<forall>m\<in>set (queue s'). mtype m = 1 \<or> mtype m = pid m)"
  proof (cases "splace s")
    case Waiting_request
    then obtain m q where r: "msgrcv 1 (queue s) = Some (m, q)"
        "s' = s\<lparr>queue := q, sbuf := m, sprinted := sprinted s @ c_str (mtext m), splace := Answering\<rparr>"
      using st by (auto simp: server_step_def split: option.splits)
    obtain a b where ab: "queue s = a @ m # b" "q = a @ b"
      using msgrcv_Some [OF r(1)] by blast
    show ?thesis
      using ways r ab Waiting_request by (auto simp: on_way_def mine_def)
  next
    case Answering
    then have "s' = s\<lparr>queue := queue s @ [(sbuf s)\<lparr>mtype := pid (sbuf s)\<rparr>], sbuf := (sbuf s)\<lparr>mtype := pid (sbuf s)\<rparr>,
        splace := Waiting_request\<rparr>"
      using st by (auto simp: server_step_def Let_def msgsnd_def split: option.splits if_splits)
    then show ?thesis
      using ways Answering by (auto simp: on_way_def mine_def)
  qed
  then show ?thesis
    using inv client_ok_perm unfolding mq_inv_def by metis
qed

lemma mq_reach: "(mq_step room)\<^sup>*\<^sup>* s s' \<Longrightarrow> good_clients cs \<Longrightarrow> mq_inv cs s \<Longrightarrow> mq_inv cs s'"
proof (induction rule: rtranclp_induct)
  case (step t u)
  then have inv: "mq_inv cs t"
    by blast
  from step(2) show ?case
  proof (cases rule: mq_step.cases)
    case (by_client i)
    then show ?thesis
      using client_step_inv [OF inv step(4)] inv by (metis mq_inv_def)
  next
    case by_server
    then show ?thesis
      using server_step_inv [OF inv] by blast
  qed
qed simp

subsection \<open>Who waits\<close>

text \<open>The messages on their way, counted by client: one for each that waits.\<close>

definition waits :: "mq_client \<Rightarrow> nat" where
  "waits c = (if cplace c = Receiving then 1 else 0)"

lemma sum_indicator: "distinct ps \<Longrightarrow> a \<in> set ps \<Longrightarrow> sum_list (map (\<lambda>p. if p = a then 1 else 0) ps) = (1 :: nat)"
  by (induction ps) auto

lemma sum_by_key:
  "distinct ps \<Longrightarrow> \<forall>x\<in>set xs. f x \<in> set ps \<Longrightarrow> sum_list (map (\<lambda>p. length (filter (\<lambda>x. f x = p) xs)) ps) = length xs"
proof (induction xs)
  case (Cons x xs)
  have "(\<lambda>p. length (filter (\<lambda>x. f x = p) (x # xs))) = (\<lambda>p. (if p = f x then 1 else 0) + length (filter (\<lambda>x. f x = p) xs))"
    by auto
  then show ?case
    using Cons sum_indicator [of ps "f x"] by (simp add: sum_list_addf)
qed simp

lemma length_on_way:
  assumes "mq_inv cs s" "good_clients cs"
  shows "length (on_way s) = sum_list (map waits (clients s))"
proof -
  have "length (filter (\<lambda>m. pid m = fst (cs ! i)) (on_way s)) = waits (clients s ! i)" if "i < length cs" for i
  proof -
    have "client_ok (snd (snd (cs ! i))) (mine (fst (cs ! i)) s) (clients s ! i)"
      using assms(1) that by (simp add: mq_inv_def)
    then have "length (mine (fst (cs ! i)) s) = waits (clients s ! i)"
      by (auto simp: client_ok_def waits_def split: client_place.splits)
    then show ?thesis
      by (simp add: mine_def)
  qed
  then have "map (\<lambda>p. length (filter (\<lambda>m. pid m = p) (on_way s))) (map fst cs) = map waits (clients s)"
    using assms(1) by (intro nth_equalityI) (auto simp: mq_inv_def)
  moreover have "sum_list (map (\<lambda>p. length (filter (\<lambda>m. pid m = p) (on_way s))) (map fst cs)) = length (on_way s)"
    using assms by (intro sum_by_key) (auto simp: good_clients_def mq_inv_def)
  ultimately show ?thesis
    by simp
qed

lemma sum_waits_le: "sum_list (map waits xs) \<le> length xs"
  by (induction xs) (auto simp: waits_def)

lemma sum_waits_less: "x \<in> set xs \<Longrightarrow> cplace x \<noteq> Receiving \<Longrightarrow> sum_list (map waits xs) < length xs"
proof (induction xs)
  case (Cons y ys)
  then show ?case
    using sum_waits_le [of ys] by (cases "x = y") (auto simp: waits_def [of y])
qed simp

lemma typing_steps: "cplace (clients s ! i) = Typing \<Longrightarrow> \<exists>s'. client_step room i s = Some s'"
  by (auto simp: client_step_def Let_def split: option.splits)

lemma sending_waits: "cplace (clients s ! i) = Sending \<Longrightarrow> client_step room i s = None \<Longrightarrow> room \<le> length (queue s)"
  by (auto simp: client_step_def Let_def msgsnd_def split: option.splits if_splits)

lemma receiving_waits: "cplace (clients s ! i) = Receiving \<Longrightarrow> client_step room i s = None \<Longrightarrow>
    \<forall>m\<in>set (queue s). mtype m \<noteq> cpid (clients s ! i)"
  by (auto simp: client_step_def Let_def msgrcv_None split: option.splits)

lemma server_waits: "server_step room s = None \<Longrightarrow>
    (splace s = Answering \<and> room \<le> length (queue s)) \<or> (splace s = Waiting_request \<and> (\<forall>m\<in>set (queue s). mtype m \<noteq> 1))"
  by (auto simp: server_step_def Let_def msgsnd_def msgrcv_None split: option.splits if_splits server_place.splits)

subsection \<open>The properties\<close>

lemma own_echo:
  assumes "mq_inv cs s" "i < length cs"
  shows "\<exists>piece. snd (snd (cs ! i)) = printed (clients s ! i) @ piece @ stdin (clients s ! i) \<and> length piece < POINTER_SIZE \<and>
    (cplace (clients s ! i) = Done \<longrightarrow> printed (clients s ! i) = snd (snd (cs ! i)))"
proof -
  have "client_ok (snd (snd (cs ! i))) (mine (fst (cs ! i)) s) (clients s ! i)"
    using assms by (simp add: mq_inv_def)
  then show ?thesis
    by (cases "cplace (clients s ! i)") (auto simp: client_ok_def POINTER_SIZE_def)
qed

text \<open>
  C14. Whatever the interleaving of server and clients, every client gets back exactly what was typed at it, in order:
  what it has printed, the piece that is on its way and the rest of its input are the input. No process may have the id 1,
  which is the type of the requests.
\<close>

theorem mq_own_echo:
  assumes "good_clients cs" "(mq_step room)\<^sup>*\<^sup>* (mq_main cs) s" "i < length cs"
  shows "\<exists>piece. snd (snd (cs ! i)) = printed (clients s ! i) @ piece @ stdin (clients s ! i) \<and> length piece < POINTER_SIZE \<and>
    (cplace (clients s ! i) = Done \<longrightarrow> printed (clients s ! i) = snd (snd (cs ! i)))"
  by (rule own_echo [OF mq_reach [OF assms(2,1) mq_inv_start] assms(3)])

text \<open>
  C16. With no more clients than messages fit into the queue, the system never deadlocks: when nobody can proceed, every
  client has reached the end of its input, and has printed all of it.
\<close>

theorem mq_no_deadlock:
  assumes "good_clients cs" "length cs \<le> room" "(mq_step room)\<^sup>*\<^sup>* (mq_main cs) s" "\<not> (\<exists>s'. mq_step room s s')" "i < length cs"
  shows "cplace (clients s ! i) = Done \<and> printed (clients s ! i) = snd (snd (cs ! i))"
proof -
  note inv = mq_reach [OF assms(3,1) mq_inv_start]
  have n: "length (clients s) = length cs"
    using inv by (simp add: mq_inv_def)
  have stuck: "client_step room j s = None" if "j < length cs" for j
    using assms(4) by_client that n by (metis option.exhaust)
  have server: "server_step room s = None"
    using assms(4) by_server by (metis option.exhaust)
  have w: "length (on_way s) = sum_list (map waits (clients s))"
    by (rule length_on_way [OF inv assms(1)])
  have q: "length (queue s) \<le> length (on_way s)"
    by (simp add: on_way_def)
  have no_send: "cplace (clients s ! j) \<noteq> Sending" if "j < length cs" for j
  proof
    assume a: "cplace (clients s ! j) = Sending"
    then have "sum_list (map waits (clients s)) < length cs"
      using sum_waits_less [of "clients s ! j" "clients s"] that n by simp
    then show False
      using sending_waits [OF a stuck [OF that]] q w assms(2) by simp
  qed
  have no_receive: "cplace (clients s ! j) \<noteq> Receiving" if j: "j < length cs" for j
  proof
    assume a: "cplace (clients s ! j) = Receiving"
    from server_waits [OF server] show False
    proof (elim disjE conjE)
      assume "splace s = Answering" "room \<le> length (queue s)"
      then have "room < sum_list (map waits (clients s))"
        using w by (simp add: on_way_def)
      then show False
        using sum_waits_le [of "clients s"] n assms(2) by simp
    next
      assume v: "splace s = Waiting_request" "\<forall>m\<in>set (queue s). mtype m \<noteq> 1"
      have "cpid (clients s ! j) = fst (cs ! j)" "client_ok (snd (snd (cs ! j))) (mine (fst (cs ! j)) s) (clients s ! j)"
        using inv j by (simp_all add: mq_inv_def)
      then have "mine (cpid (clients s ! j)) s \<noteq> []"
        using a by (auto simp: client_ok_def)
      then obtain m where "m \<in> set (queue s)" "pid m = cpid (clients s ! j)"
        using v(1) by (auto simp: mine_def on_way_def filter_empty_conv)
      moreover from this(1) have "mtype m = pid m"
        using inv v(2) by (auto simp: mq_inv_def)
      ultimately show False
        using receiving_waits [OF a stuck [OF j]] by auto
    qed
  qed
  have "cplace (clients s ! i) = Done"
    using no_send [OF assms(5)] no_receive [OF assms(5)] typing_steps stuck [OF assms(5)] 
    by (metis client_place.exhaust option.distinct(1))
  then show ?thesis
    using own_echo [OF inv assms(5)] by auto
qed

text \<open>Runs by a schedule: the index of a client, or \<open>None\<close> for the server.\<close>

fun mq_run :: "nat \<Rightarrow> nat option list \<Rightarrow> mq \<Rightarrow> mq option" where
  "mq_run room [] s = Some s"
| "mq_run room (None # xs) s = (case server_step room s of None \<Rightarrow> None | Some s \<Rightarrow> mq_run room xs s)"
| "mq_run room (Some i # xs) s =
     (if i < length (clients s) then (case client_step room i s of None \<Rightarrow> None | Some s \<Rightarrow> mq_run room xs s) else None)"

lemma mq_run_reach: "mq_run room xs s = Some s' \<Longrightarrow> (mq_step room)\<^sup>*\<^sup>* s s'"
proof (induction room xs s rule: mq_run.induct)
  case (2 room xs s)
  then show ?case
    by (auto split: option.splits intro: converse_rtranclp_into_rtranclp by_server)
next
  case (3 room i xs s)
  then show ?case
    by (auto split: option.splits if_splits intro: converse_rtranclp_into_rtranclp by_client)
qed simp

definition one_letter :: "nat \<Rightarrow> (int \<times> byte list \<times> byte list) list" where
  "one_letter n = map (\<lambda>i. (int i + 2, replicate TEXT_SIZE 0, [120])) [0..<n]"

lemma typed_letter [simp]: "c_str (typed_into buf [120]) = [120]"
  by (rule c_str_typed) simp

lemma fgets_letter [simp]: "fgets POINTER_SIZE [120] = Some ([120], [])" "fgets POINTER_SIZE [] = None"
  by (simp_all add: fgets_def POINTER_SIZE_def)

lemmas mq_eval = mq_main_def mq_client_main_def client_step_def server_step_def msgsnd_def set_client_def Let_def

lemma good_letters: "good_clients (one_letter n)"
  by (auto simp: good_clients_def one_letter_def distinct_map inj_on_def)

lemma two_letters: "one_letter 2 = [(2, replicate TEXT_SIZE 0, [120]), (3, replicate TEXT_SIZE 0, [120])]"
  by (simp add: one_letter_def upt_rec)

theorem mq_own_echo_witness:
  "\<exists>s. mq_run 2 [Some 0, Some 1, Some 1, Some 0, None, None, Some 1] (mq_main (one_letter 2)) = Some s \<and>
    printed (clients s ! 1) = [120] \<and> (\<exists>piece. [120] = printed (clients s ! 1) @ piece @ stdin (clients s ! 1))"
proof -
  have "\<exists>s. mq_run 2 [Some 0, Some 1, Some 1, Some 0, None, None, Some 1] (mq_main (one_letter 2)) = Some s \<and> printed (clients s ! 1) = [120]"
    by (simp add: two_letters mq_eval)
  then obtain s where s: "mq_run 2 [Some 0, Some 1, Some 1, Some 0, None, None, Some 1] (mq_main (one_letter 2)) = Some s"
      "printed (clients s ! 1) = [120]"
    by blast
  then show ?thesis
    using mq_own_echo [OF good_letters mq_run_reach [OF s(1)], of 1] by (auto simp: two_letters)
qed

theorem mq_no_deadlock_witness:
  "\<exists>s. mq_run 1 [Some 0, Some 0, None, None, Some 0, Some 0] (mq_main (one_letter 1)) = Some s \<and> \<not> (\<exists>s'. mq_step 1 s s') \<and>
    printed (clients s ! 0) = [120]"
proof -
  have e: "one_letter (Suc 0) = [(2, replicate TEXT_SIZE 0, [120])]"
    by (simp add: one_letter_def)
  define s where "s = the (mq_run 1 [Some 0, Some 0, None, None, Some 0, Some 0] (mq_main (one_letter 1)))"
  have r: "mq_run 1 [Some 0, Some 0, None, None, Some 0, Some 0] (mq_main (one_letter 1)) = Some s"
    by (simp add: s_def e mq_eval)
  moreover have "client_step 1 0 s = None" "server_step 1 s = None" "length (clients s) = 1"
    by (simp_all add: s_def e mq_eval)
  then have stuck: "\<not> (\<exists>s'. mq_step 1 s s')"
    by (auto elim: mq_step.cases)
  ultimately show ?thesis
    using mq_no_deadlock [OF good_letters _ mq_run_reach [OF r] stuck, of 0] by (simp add: e)
qed

text \<open>Three clients and a queue for two messages: the server holds the first request and cannot put its answer anywhere.\<close>

theorem mq_deadlock:
  "\<exists>s. (mq_step 2)\<^sup>*\<^sup>* (mq_main (one_letter 3)) s \<and> \<not> (\<exists>s'. mq_step 2 s s') \<and> (\<forall>c\<in>set (clients s). cplace c = Receiving)"
proof -
  have e: "one_letter 3 = [(2, replicate TEXT_SIZE 0, [120]), (3, replicate TEXT_SIZE 0, [120]), (4, replicate TEXT_SIZE 0, [120])]"
    by (simp add: one_letter_def upt_rec)
  let ?xs = "[Some 0, Some 0, Some 1, Some 1, None, Some 2, Some 2]"
  define s where "s = the (mq_run 2 ?xs (mq_main (one_letter 3)))"
  have r: "mq_run 2 ?xs (mq_main (one_letter 3)) = Some s"
    by (simp add: s_def e mq_eval)
  have "client_step 2 0 s = None" "client_step 2 1 s = None" "client_step 2 2 s = None" "server_step 2 s = None" "length (clients s) = 3"
    by (simp_all add: s_def e mq_eval)
  moreover have "i = 0 \<or> i = 1 \<or> i = 2" if "i < 3" for i :: nat
    using that by auto
  ultimately have "\<not> (\<exists>s'. mq_step 2 s s')"
    by (metis mq_step.cases option.distinct(1))
  moreover have "\<forall>c\<in>set (clients s). cplace c = Receiving"
    by (simp add: s_def e mq_eval)
  ultimately show ?thesis
    using mq_run_reach [OF r] by blast
qed

end
