(* ===== verification/SendFd.thy ===== *)
theory SendFd
  imports SockModel
begin

text \<open>
  \<open>network/socket/codes/send-fd/send-fd.c\<close>: a child opens a file and passes the descriptor to its parent over a socket pair.

  \<^item> A process has a list of open descriptors and \<open>files\<close>, what they refer to. \<open>sys_sendmsg\<close> and \<open>sys_recvmsg\<close> do with
    the control message what the kernel does: its length counts the header of 16 bytes and an \<open>int\<close> for each descriptor; a
    length outside of the control buffer is an error, and a rest of less than an \<open>int\<close> is ignored.
  \<^item> \<open>send_fd\<close> computes that length as \<open>CMSG_LEN(sendfd)\<close> instead of \<open>CMSG_LEN(sizeof(sendfd))\<close>, from the descriptor
    itself. \<open>send_fd_exactly\<close> says for which descriptors that works, \<open>send_fd_main\<close> when the program does.
\<close>

record 'f process =
  open_fds :: "nat list"
  files :: "nat \<Rightarrow> 'f option"

record control =
  cmsg_len :: "64 word"
  cmsg_data :: "int list"

definition CMSG_LEN :: "64 word \<Rightarrow> 64 word" where
  "CMSG_LEN n = 16 + n"

definition CMSG_SPACE :: nat where
  "CMSG_SPACE = 24"

definition file_of :: "'f process \<Rightarrow> int \<Rightarrow> 'f option" where
  "file_of p fd = (if 0 \<le> fd \<and> nat fd \<in> set (open_fds p) then files p (nat fd) else None)"

text \<open>The number of bytes sent (\<open>-1\<close>: failed) and the files that go with them.\<close>

definition sys_sendmsg :: "nat \<Rightarrow> control \<Rightarrow> 'f process \<Rightarrow> int \<times> 'f list" where
  "sys_sendmsg controllen c p =
     (let len = unat (cmsg_len c); fs = map (file_of p) (take ((len - 16) div 4) (cmsg_data c)) in
      if len < 16 \<or> controllen < len then (-1, [])
      else if None \<in> set fs then (-1, [])
      else (1, map the fs))"

definition install :: "'f \<Rightarrow> 'f process \<Rightarrow> nat \<times> 'f process" where
  "install f p = (let d = lowest_unused (open_fds p) in (d, p\<lparr>open_fds := open_fds p @ [d], files := (files p)(d := Some f)\<rparr>))"

fun install_all :: "'f list \<Rightarrow> 'f process \<Rightarrow> nat list \<times> 'f process" where
  "install_all [] p = ([], p)"
| "install_all (f # fs) p = (case install f p of (d, p) \<Rightarrow> case install_all fs p of (ds, p) \<Rightarrow> (d # ds, p))"

text \<open>\<open>None\<close>: the peer has closed its end without a message.\<close>

definition sys_recvmsg :: "'f list option \<Rightarrow> 'f process \<Rightarrow> int \<times> nat list \<times> 'f process" where
  "sys_recvmsg m p = (case m of None \<Rightarrow> (0, [], p) | Some fs \<Rightarrow> (case install_all fs p of (ds, p) \<Rightarrow> (1, ds, p)))"

subsection \<open>The program\<close>

text \<open>\<open>junk\<close> is what the control buffer holds behind the descriptor.\<close>

definition send_fd :: "int \<Rightarrow> int \<Rightarrow> 'f process \<Rightarrow> 'f list run" where
  "send_fd junk sendfd p =
     (let c = \<lparr>cmsg_len = CMSG_LEN (word_of_int sendfd), cmsg_data = [sendfd, junk]\<rparr>; (ret, fs) = sys_sendmsg CMSG_SPACE c p in
      if ret \<noteq> 1 then Inl Exit_failure else Inr fs)"

definition recv_fd :: "'f list option \<Rightarrow> 'f process \<Rightarrow> (nat \<times> 'f process) run" where
  "recv_fd m p =
     (case sys_recvmsg m p of (ret, ds, p) \<Rightarrow>
        if ret \<noteq> 1 then Inl Exit_failure
        else (case ds of [] \<Rightarrow> Inl Exit_failure | d # _ \<Rightarrow> Inr (d, p)))"

definition close_one :: "nat \<Rightarrow> 'f process \<Rightarrow> 'f process" where
  "close_one d p = p\<lparr>open_fds := filter (\<lambda>x. x \<noteq> d) (open_fds p), files := (files p)(d := None)\<rparr>"

text \<open>
  The child, given the file that \<open>open\<close> finds (\<open>-1\<close> without one); the parent, which prints what \<open>read\<close> puts into an array
  of 1024 bytes. \<open>sock_file\<close> is what the descriptors of the sockets refer to.
\<close>

definition child_main :: "nat \<Rightarrow> int \<Rightarrow> 'f option \<Rightarrow> 'f process \<Rightarrow> 'f list run" where
  "child_main sock1 junk opened p =
     (let p = close_one sock1 p in
      case opened of
        None \<Rightarrow> send_fd junk (-1) p
      | Some f \<Rightarrow> (case install f p of (fd, p) \<Rightarrow> send_fd junk (int fd) p))"

definition parent_main :: "nat \<Rightarrow> byte list \<Rightarrow> ('f \<Rightarrow> byte list) \<Rightarrow> 'f list option \<Rightarrow> 'f process \<Rightarrow> byte list run" where
  "parent_main sock0 buf content m p =
     (let p = close_one sock0 p in
      bnd (recv_fd m p) (\<lambda>(fd, p).
        let bs = (case files p fd of Some f \<Rightarrow> take 1024 (content f) | None \<Rightarrow> []) in
        bnd (store buf 0 bs) fputs))"

record send_calls =
  socketpair_ok :: bool
  sfork_ok :: bool

definition send_fd_main ::
  "send_calls \<Rightarrow> 'f \<Rightarrow> int \<Rightarrow> byte list \<Rightarrow> ('f \<Rightarrow> byte list) \<Rightarrow> 'f option \<Rightarrow> 'f process \<Rightarrow> byte list run" where
  "send_fd_main os sock_file junk buf content opened p =
     (if \<not> socketpair_ok os then Inl Exit_failure
      else case install sock_file p of (s0, p) \<Rightarrow> case install sock_file p of (s1, p) \<Rightarrow>
        if \<not> sfork_ok os then Inl Exit_failure
        else parent_main s0 buf content (case child_main s1 junk opened p of Inr fs \<Rightarrow> Some fs | Inl _ \<Rightarrow> None) p)"

subsection \<open>Which descriptors can be passed\<close>

lemma send_fd_len: "fd < 2 ^ 31 \<Longrightarrow> unat (CMSG_LEN (word_of_nat fd)) = fd + 16"
  by (simp add: CMSG_LEN_def unat_word_ariths unat_of_nat)

text \<open>
  A descriptor below 4 is not passed at all, one above 8 is refused; 8 is passed together with whatever follows in the
  buffer.
\<close>

lemma send_fd_cases:
  assumes "file_of p (int fd) = Some f" "fd < 2 ^ 31"
  shows "fd < 4 \<Longrightarrow> send_fd junk (int fd) p = Inr []"
    "4 \<le> fd \<Longrightarrow> fd < 8 \<Longrightarrow> send_fd junk (int fd) p = Inr [f]"
    "8 < fd \<Longrightarrow> send_fd junk (int fd) p = Inl Exit_failure"
    "fd = 8 \<Longrightarrow> send_fd junk (int fd) p = (case file_of p junk of None \<Rightarrow> Inl Exit_failure | Some g \<Rightarrow> Inr [f, g])"
proof -
  note l = send_fd_len [OF assms(2)]
  note eval = send_fd_def sys_sendmsg_def l Let_def CMSG_SPACE_def assms(1)
  show "fd < 4 \<Longrightarrow> send_fd junk (int fd) p = Inr []"
    by (simp add: eval)
  show "4 \<le> fd \<Longrightarrow> fd < 8 \<Longrightarrow> send_fd junk (int fd) p = Inr [f]"
  proof -
    assume "4 \<le> fd" "fd < 8"
    then have "fd div 4 = 1"
      by simp
    then show ?thesis
      using \<open>fd < 8\<close> by (simp add: eval)
  qed
  show "8 < fd \<Longrightarrow> send_fd junk (int fd) p = Inl Exit_failure"
    by (simp add: eval)
  show "fd = 8 \<Longrightarrow> send_fd junk (int fd) p = (case file_of p junk of None \<Rightarrow> Inl Exit_failure | Some g \<Rightarrow> Inr [f, g])"
  proof -
    assume "fd = 8"
    then have "fd div 4 = 2" "fd \<le> 8"
      by simp_all
    moreover have "take 2 [x, y] = [x, y]" for x y :: int
      by simp
    ultimately show ?thesis
      by (simp add: eval split: option.splits)
  qed
qed

subsection \<open>When the program works\<close>

text \<open>A process whose descriptors are the first \<open>n\<close>.\<close>

definition compact :: "nat \<Rightarrow> 'f process \<Rightarrow> bool" where
  "compact n p \<longleftrightarrow> open_fds p = [0..<n]"

lemma install_compact:
  "compact n p \<Longrightarrow> install f p = (n, p\<lparr>open_fds := [0..<Suc n], files := (files p)(n := Some f)\<rparr>)"
  by (simp add: install_def compact_def lowest_unused_upt)

definition all_send_calls_ok :: send_calls where
  "all_send_calls_ok = \<lparr>socketpair_ok = True, sfork_ok = True\<rparr>"

text \<open>The child, when the first \<open>n\<close> descriptors were open at the start: its file gets the descriptor \<open>n + 1\<close>.\<close>

lemma child_main_sends:
  assumes "compact (Suc (Suc n)) p" "Suc n < 2 ^ 31"
  shows "n < 3 \<Longrightarrow> child_main (Suc n) junk (Some f) p = Inr []"
    "3 \<le> n \<Longrightarrow> n < 7 \<Longrightarrow> child_main (Suc n) junk (Some f) p = Inr [f]"
    "7 < n \<Longrightarrow> child_main (Suc n) junk (Some f) p = Inl Exit_failure"
proof -
  have "compact (Suc n) (close_one (Suc n) p)"
    using assms(1) by (auto simp: compact_def close_one_def intro!: filter_True)
  note i = install_compact [OF this, of f]
  let ?p = "snd (install f (close_one (Suc n) p))"
  have f: "file_of ?p (int (Suc n)) = Some f"
    unfolding file_of_def i by (simp del: of_nat_Suc)
  have c: "child_main (Suc n) junk (Some f) p = send_fd junk (int (Suc n)) ?p"
    by (simp add: child_main_def Let_def i)
  note send = send_fd_cases [OF f assms(2), of junk, folded c]
  show "n < 3 \<Longrightarrow> child_main (Suc n) junk (Some f) p = Inr []"
    "3 \<le> n \<Longrightarrow> n < 7 \<Longrightarrow> child_main (Suc n) junk (Some f) p = Inr [f]"
    "7 < n \<Longrightarrow> child_main (Suc n) junk (Some f) p = Inl Exit_failure"
    using send(1-3) by simp_all
qed

lemma fputs_after:
  assumes "length bs < length buf" "0 \<notin> set bs" "buf ! length bs = 0"
  shows "bnd (store buf 0 bs) fputs = Inr bs"
proof -
  have "drop (length bs) buf = 0 # drop (Suc (length bs)) buf"
    using Cons_nth_drop_Suc [OF assms(1)] assms(3) by simp
  moreover have "c_str (bs @ 0 # xs) = bs" for xs
    unfolding c_str_def by (subst takeWhile_append2) (use assms(2) in auto)
  ultimately show ?thesis
    using assms(1) by (simp add: store_def fputs_def)
qed

lemma parent_main_prints:
  assumes "compact (Suc (Suc n)) p" "length buf = 1024" "0 \<notin> set (content f)" "length (content f) < 1024"
    "buf ! length (content f) = 0"
  shows "parent_main n buf content (Some [f]) p = Inr (content f)"
proof -
  let ?p = "close_one n p"
  obtain d q where d: "install f ?p = (d, q)"
    by (cases "install f ?p")
  then have "files q d = Some f"
    by (auto simp: install_def Let_def)
  then have "parent_main n buf content (Some [f]) p = bnd (store buf 0 (content f)) fputs"
    using assms(4) d by (simp add: parent_main_def Let_def recv_fd_def sys_recvmsg_def)
  then show ?thesis
    using fputs_after [of "content f" buf] assms(2-5) by simp
qed

lemma parent_main_fails: "m = None \<or> m = Some [] \<Longrightarrow> parent_main n buf content m p = Inl Exit_failure"
  by (auto simp: parent_main_def recv_fd_def sys_recvmsg_def Let_def)

subsection \<open>The property\<close>

text \<open>
  A file that is found, short enough for the array and followed by a zero there, is printed exactly when three
  to six descriptors are open at the start: with fewer the message carries no descriptor, with more (up to the case of
  seven, which depends on the uninitialised control buffer) it is refused, and both processes fail.
\<close>

theorem send_fd_main_exactly:
  assumes "compact n p" "n < 2 ^ 30" "length buf = 1024" "0 \<notin> set (content f)" "length (content f) < 1024"
    "buf ! length (content f) = 0"
  shows "(3 \<le> n \<and> n < 7 \<longrightarrow> send_fd_main all_send_calls_ok sock_file junk buf content (Some f) p = Inr (content f)) \<and>
    (n < 3 \<or> 7 < n \<longrightarrow> send_fd_main all_send_calls_ok sock_file junk buf content (Some f) p = Inl Exit_failure)"
proof -
  let ?a = "p\<lparr>open_fds := [0..<Suc n], files := (files p)(n := Some sock_file)\<rparr>"
  have "compact (Suc n) ?a"
    by (simp add: compact_def del: upt_Suc)
  note i = install_compact [OF assms(1), of sock_file] install_compact [OF this, of sock_file]
  let ?b = "?a\<lparr>open_fds := [0..<Suc (Suc n)], files := (files ?a)(Suc n := Some sock_file)\<rparr>"
  have b: "compact (Suc (Suc n)) ?b"
    by (simp add: compact_def del: upt_Suc)
  have m: "send_fd_main all_send_calls_ok sock_file junk buf content (Some f) p =
      parent_main n buf content (case child_main (Suc n) junk (Some f) ?b of Inr fs \<Rightarrow> Some fs | Inl _ \<Rightarrow> None) ?b"
    unfolding send_fd_main_def i prod.case by (simp add: all_send_calls_ok_def)
  have n: "Suc n < 2 ^ 31"
    using assms(2) by simp
  show ?thesis
    using child_main_sends [OF b n] parent_main_prints [of n ?b buf content f, OF b assms(3-6)]
    by (auto simp: m parent_main_fails)
qed

end
