(* ===== verification/PosixMq.thy ===== *)
theory PosixMq
  imports Prelude "HOL-Library.Multiset"
begin

text \<open>
  The programs on a POSIX message queue in \<open>process/ipc/codes/posix-mq\<close>.

  \<^item> \<open>mq_kernel\<close> is the queue with the name \<open>/abc\<close>, if there is one: its messages, which are kept by priority and among
    equals by age, how many fit, and whether a process is registered for notification. \<open>create_main\<close>, \<open>delete_main\<close>,
    \<open>stat_main\<close>, \<open>send_main\<close> and \<open>recv_main\<close> are the commands.
  \<^item> \<open>notifier\<close> is \<open>mq-notify.c\<close>, which waits for a signal, and in its handler registers again and receives one message.
    A registration ends with the notification, and only a message that arrives at an empty queue is notified; the signal
    has one pending bit and is blocked while its handler runs. \<open>mq_world_step\<close> is the notifier together with any senders.
  \<^item> \<open>notify_inv\<close>: nothing gets lost and the registration never fails. But a message that arrives at a queue that is not
    empty is not notified: from then on the queue never gets empty, and nothing is ever received (\<open>notifier_stalls\<close>).
\<close>

record student =
  name :: string
  age :: int

record message =
  prio :: nat
  body :: student

record mq_kernel =
  msgs :: "message list"
  maxmsg :: nat
  registered :: bool

fun insert_prio :: "message \<Rightarrow> message list \<Rightarrow> message list" where
  "insert_prio m [] = [m]"
| "insert_prio m (x # xs) = (if prio m \<le> prio x then x # insert_prio m xs else m # x # xs)"

subsection \<open>The commands\<close>

text \<open>The default attributes: ten messages. An existing queue is opened.\<close>

definition create_main :: "mq_kernel option \<Rightarrow> mq_kernel option run" where
  "create_main k = Inr (case k of None \<Rightarrow> Some \<lparr>msgs = [], maxmsg = 10, registered = False\<rparr> | Some q \<Rightarrow> Some q)"

definition delete_main :: "mq_kernel option \<Rightarrow> mq_kernel option run" where
  "delete_main k = (case k of None \<Rightarrow> Inl Exit_failure | Some q \<Rightarrow> Inr None)"

definition stat_main :: "mq_kernel option \<Rightarrow> (nat \<times> nat) run" where
  "stat_main k = (case k of None \<Rightarrow> Inl Exit_failure | Some q \<Rightarrow> Inr (maxmsg q, length (msgs q)))"

definition MQ_PRIO_MAX :: nat where
  "MQ_PRIO_MAX = 32768"

definition orris :: student where
  "orris = \<lparr>name = ''orris'', age = 15\<rparr>"

text \<open>The argument, if there is exactly one, as \<open>atoi\<close> reads it; \<open>mq_send\<close> takes an unsigned priority.\<close>

definition send_main :: "int option \<Rightarrow> mq_kernel option \<Rightarrow> (bool \<times> mq_kernel option) run" where
  "send_main arg k =
     (case arg of
        None \<Rightarrow> Inl Exit_failure
      | Some p \<Rightarrow>
          (case k of
             None \<Rightarrow> Inl Exit_failure
           | Some q \<Rightarrow>
               if p < 0 \<or> int MQ_PRIO_MAX \<le> p then Inl Exit_failure
               else if length (msgs q) = maxmsg q then Inl Blocked
               else (let notified = (registered q \<and> msgs q = []) in
                 Inr (notified, Some (q\<lparr>msgs := insert_prio \<lparr>prio = nat p, body = orris\<rparr> (msgs q),
                   registered := registered q \<and> \<not> notified\<rparr>)))))"

definition recv_main :: "mq_kernel option \<Rightarrow> (message \<times> mq_kernel option) run" where
  "recv_main k =
     (case k of
        None \<Rightarrow> Inl Exit_failure
      | Some q \<Rightarrow> (case msgs q of [] \<Rightarrow> Inl Blocked | m # ms \<Rightarrow> Inr (m, Some (q\<lparr>msgs := ms\<rparr>))))"

subsection \<open>The notifier\<close>

datatype notifier_place = Paused | Registering | In_receive | Exited

record mq_world =
  kernel :: mq_kernel
  sigusr1 :: bool
  nplace :: notifier_place
  shown :: "message list"
  sent :: "message multiset"

definition mq_notify :: "mq_kernel \<Rightarrow> mq_kernel run" where
  "mq_notify q = (if registered q then Inl Exit_failure else Inr (q\<lparr>registered := True\<rparr>))"

definition notify_main :: "mq_kernel option \<Rightarrow> mq_world run" where
  "notify_main k =
     (case k of
        None \<Rightarrow> Inl Exit_failure
      | Some q \<Rightarrow> bnd (mq_notify q) (\<lambda>q. Inr \<lparr>kernel = q, sigusr1 = False, nplace = Paused, shown = [], sent = mset (msgs q)\<rparr>))"

inductive mq_world_step :: "mq_world \<Rightarrow> mq_world \<Rightarrow> bool" where
  sends: "send_main (Some p) (Some (kernel w)) = Inr (notified, Some q) \<Longrightarrow>
     mq_world_step w (w\<lparr>kernel := q, sigusr1 := sigusr1 w \<or> notified, sent := sent w + {#\<lparr>prio = nat p, body = orris\<rparr>#}\<rparr>)"
| handler: "nplace w = Paused \<Longrightarrow> sigusr1 w \<Longrightarrow> mq_world_step w (w\<lparr>sigusr1 := False, nplace := Registering\<rparr>)"
| registers: "nplace w = Registering \<Longrightarrow> mq_notify (kernel w) = Inr q \<Longrightarrow> mq_world_step w (w\<lparr>kernel := q, nplace := In_receive\<rparr>)"
| register_fails: "nplace w = Registering \<Longrightarrow> mq_notify (kernel w) = Inl Exit_failure \<Longrightarrow> mq_world_step w (w\<lparr>nplace := Exited\<rparr>)"
| receives: "nplace w = In_receive \<Longrightarrow> recv_main (Some (kernel w)) = Inr (m, Some q) \<Longrightarrow>
     mq_world_step w (w\<lparr>kernel := q, nplace := Paused, shown := shown w @ [m]\<rparr>)"

inductive_cases mq_world_stepE: "mq_world_step w w'"

subsection \<open>Priorities\<close>

lemma mset_insert_prio [simp]: "mset (insert_prio m xs) = add_mset m (mset xs)"
  by (induction xs) auto

lemma insert_prio_neq [simp]: "insert_prio m xs \<noteq> []"
  by (cases xs) auto

lemma set_insert_prio [simp]: "set (insert_prio m xs) = insert m (set xs)"
  by (induction xs) auto

definition by_prio :: "message list \<Rightarrow> bool" where
  "by_prio xs \<longleftrightarrow> sorted_wrt (\<lambda>a b. prio b \<le> prio a) xs"

lemma by_prio_insert: "by_prio xs \<Longrightarrow> by_prio (insert_prio m xs)"
  by (induction xs) (auto simp: by_prio_def)

text \<open>Among messages of one priority the queue is first-in first-out.\<close>

lemma insert_prio_fifo:
  "by_prio xs \<Longrightarrow> filter (\<lambda>x. prio x = p) (insert_prio m xs) = filter (\<lambda>x. prio x = p) xs @ (if prio m = p then [m] else [])"
proof (induction xs)
  case (Cons a xs)
  then have "filter (\<lambda>x. prio x = prio m) xs = []" if "prio a < prio m"
    using that by (fastforce simp: by_prio_def filter_empty_conv)
  then show ?case
    using Cons by (auto simp: by_prio_def)
qed simp

lemma by_prio_single [simp]: "by_prio [m]"
  by (simp add: by_prio_def)

text \<open>
  The registration is gone exactly while the signal is pending or the handler has not registered yet; then, and while the
  handler receives, the queue is not empty.
\<close>

definition notify_inv :: "mq_world \<Rightarrow> bool" where
  "notify_inv w \<longleftrightarrow> sent w = mset (shown w) + mset (msgs (kernel w)) \<and> by_prio (msgs (kernel w)) \<and> nplace w \<noteq> Exited \<and>
     (registered (kernel w) \<longleftrightarrow> \<not> sigusr1 w \<and> nplace w \<noteq> Registering) \<and>
     (sigusr1 w \<or> nplace w \<in> {Registering, In_receive} \<longrightarrow> msgs (kernel w) \<noteq> []) \<and>
     (sigusr1 w \<longrightarrow> nplace w = Paused)"

lemma notify_inv_step: "mq_world_step w w' \<Longrightarrow> notify_inv w \<Longrightarrow> notify_inv w'"
proof (induction rule: mq_world_step.induct)
  case (sends p w notified q)
  then show ?case
    by (cases "nplace w") (auto simp: notify_inv_def send_main_def Let_def by_prio_insert split: if_splits)
next
  case (receives w m q)
  then show ?case
    by (auto simp: notify_inv_def recv_main_def by_prio_def split: list.splits)
qed (auto simp: notify_inv_def mq_notify_def split: if_splits)

lemma notify_reach: "mq_world_step\<^sup>*\<^sup>* w w' \<Longrightarrow> notify_inv w \<Longrightarrow> notify_inv w'"
  by (induction rule: rtranclp_induct) (auto intro: notify_inv_step)

lemma notify_inv_start:
  "notify_main (Some q) = Inr w \<Longrightarrow> by_prio (msgs q) \<Longrightarrow> notify_inv w"
  by (auto simp: notify_main_def mq_notify_def notify_inv_def split: if_splits)

text \<open>Nothing is left to do, and the queue is not empty: this stays so.\<close>

definition stalled :: "mq_world \<Rightarrow> bool" where
  "stalled w \<longleftrightarrow> nplace w = Paused \<and> \<not> sigusr1 w \<and> msgs (kernel w) \<noteq> []"

lemma stalled_step: "mq_world_step w w' \<Longrightarrow> stalled w \<Longrightarrow> stalled w' \<and> shown w' = shown w"
  by (induction rule: mq_world_step.induct) (auto simp: stalled_def send_main_def Let_def split: if_splits)

lemma stalled_forever: "mq_world_step\<^sup>*\<^sup>* w w' \<Longrightarrow> stalled w \<Longrightarrow> stalled w' \<and> shown w' = shown w"
  by (induction rule: rtranclp_induct) (auto dest: stalled_step)

text \<open>What the notifier does when a message has arrived: it takes the signal, registers again and receives one message.\<close>

lemma handler_finishes:
  assumes "notify_inv w" "nplace w = In_receive"
  shows "\<exists>w' m. mq_world_step\<^sup>*\<^sup>* w w' \<and> shown w' = shown w @ [m] \<and> sent w' = sent w \<and> nplace w' = Paused \<and> registered (kernel w')"
proof -
  obtain m ms where m: "msgs (kernel w) = m # ms"
    using assms by (cases "msgs (kernel w)") (auto simp: notify_inv_def)
  then have "mq_world_step w (w\<lparr>kernel := (kernel w)\<lparr>msgs := ms\<rparr>, nplace := Paused, shown := shown w @ [m]\<rparr>)"
    using assms(2) by (intro receives) (simp_all add: recv_main_def)
  moreover have "registered (kernel w)"
    using assms by (auto simp: notify_inv_def)
  ultimately show ?thesis
    by (intro exI [of _ "w\<lparr>kernel := (kernel w)\<lparr>msgs := ms\<rparr>, nplace := Paused, shown := shown w @ [m]\<rparr>"] exI [of _ m]) auto
qed

lemma handler_registers:
  assumes "notify_inv w" "nplace w = Registering"
  shows "\<exists>w' m. mq_world_step\<^sup>*\<^sup>* w w' \<and> shown w' = shown w @ [m] \<and> sent w' = sent w \<and> nplace w' = Paused \<and> registered (kernel w')"
proof -
  let ?w = "w\<lparr>kernel := (kernel w)\<lparr>registered := True\<rparr>, nplace := In_receive\<rparr>"
  have st: "mq_world_step w ?w"
    using assms by (intro registers) (simp_all add: mq_notify_def notify_inv_def)
  then show ?thesis
    using handler_finishes [OF notify_inv_step [OF st assms(1)]] by (auto intro: converse_rtranclp_into_rtranclp)
qed

lemma handler_runs:
  assumes "notify_inv w" "sigusr1 w \<or> nplace w \<in> {Registering, In_receive}"
  shows "\<exists>w' m. mq_world_step\<^sup>*\<^sup>* w w' \<and> shown w' = shown w @ [m] \<and> sent w' = sent w \<and> nplace w' = Paused \<and> registered (kernel w')"
proof (cases "sigusr1 w")
  case True
  then have st: "mq_world_step w (w\<lparr>sigusr1 := False, nplace := Registering\<rparr>)"
    using assms(1) by (intro handler) (auto simp: notify_inv_def)
  then show ?thesis
    using handler_registers [OF notify_inv_step [OF st assms(1)]] by (auto intro: converse_rtranclp_into_rtranclp)
qed (use assms handler_finishes handler_registers in auto)

text \<open>The next message that a waiting notifier with an empty queue is sent is the one it shows.\<close>

lemma arrival_signals:
  assumes "notify_inv w" "nplace w = Paused" "msgs (kernel w) = []" "send_main (Some p) (Some (kernel w)) = Inr (notified, Some q)"
  shows "notified \<and> msgs q = [\<lparr>prio = nat p, body = orris\<rparr>] \<and> \<not> registered q"
  using assms by (auto simp: notify_inv_def send_main_def Let_def split: if_splits)

subsection \<open>The properties\<close>

text \<open>
  C7: the notifier with any senders. Whenever it waits and no signal is pending it is registered again, so that the next
  message that arrives at an empty queue raises the signal; the registration never fails. Whenever the signal is pending or
  the handler is at work, the notifier can go on, without another message being sent, to show one more message and be registered and waiting again:
  it does not block. What was sent is what was shown and what is in the queue. But one message is all it receives for a
  signal: when it waits while a message is in the queue, nothing will ever be shown again.
\<close>

theorem notifier_stalls:
  assumes "notify_main (Some q) = Inr w0" "by_prio (msgs q)" "mq_world_step\<^sup>*\<^sup>* w0 w"
  shows "(nplace w = Paused \<and> \<not> sigusr1 w \<longrightarrow> registered (kernel w) \<and>
      (\<forall>p notified q'. msgs (kernel w) = [] \<longrightarrow> send_main (Some p) (Some (kernel w)) = Inr (notified, Some q') \<longrightarrow> notified)) \<and>
    nplace w \<noteq> Exited \<and>
    (sigusr1 w \<or> nplace w \<noteq> Paused \<longrightarrow>
      (\<exists>w' m. mq_world_step\<^sup>*\<^sup>* w w' \<and> shown w' = shown w @ [m] \<and> sent w' = sent w \<and> nplace w' = Paused \<and> registered (kernel w'))) \<and>
    sent w = mset (shown w) + mset (msgs (kernel w)) \<and> by_prio (msgs (kernel w)) \<and>
    (nplace w = Paused \<and> \<not> sigusr1 w \<and> msgs (kernel w) \<noteq> [] \<longrightarrow> (\<forall>w'. mq_world_step\<^sup>*\<^sup>* w w' \<longrightarrow> shown w' = shown w))"
proof -
  have inv: "notify_inv w"
    using notify_reach [OF assms(3) notify_inv_start [OF assms(1,2)]] .
  have waits: "registered (kernel w) \<and>
      (\<forall>p notified q'. msgs (kernel w) = [] \<longrightarrow> send_main (Some p) (Some (kernel w)) = Inr (notified, Some q') \<longrightarrow> notified)"
    if "nplace w = Paused \<and> \<not> sigusr1 w"
  proof (intro conjI allI impI)
    show "registered (kernel w)"
      using inv that by (simp add: notify_inv_def)
  next
    fix p notified q'
    assume "msgs (kernel w) = []" "send_main (Some p) (Some (kernel w)) = Inr (notified, Some q')"
    then show notified
      using arrival_signals [OF inv] that by blast
  qed
  have works: "\<exists>w' m. mq_world_step\<^sup>*\<^sup>* w w' \<and> shown w' = shown w @ [m] \<and> sent w' = sent w \<and> nplace w' = Paused \<and> registered (kernel w')"
    if "sigusr1 w \<or> nplace w \<noteq> Paused"
  proof (rule handler_runs [OF inv])
    have "nplace w \<noteq> Exited"
      using inv by (simp add: notify_inv_def)
    then show "sigusr1 w \<or> nplace w \<in> {Registering, In_receive}"
      using that by (cases "nplace w") auto
  qed
  have stalls: "\<forall>w'. mq_world_step\<^sup>*\<^sup>* w w' \<longrightarrow> shown w' = shown w" if "nplace w = Paused \<and> \<not> sigusr1 w \<and> msgs (kernel w) \<noteq> []"
  proof (intro allI impI)
    fix w'
    assume "mq_world_step\<^sup>*\<^sup>* w w'"
    moreover have "stalled w"
      using that by (simp add: stalled_def)
    ultimately show "shown w' = shown w"
      using stalled_forever by blast
  qed
  have keeps: "nplace w \<noteq> Exited" "sent w = mset (shown w) + mset (msgs (kernel w))" "by_prio (msgs (kernel w))"
    using inv by (simp_all add: notify_inv_def)
  show ?thesis
    by (intro conjI impI keeps; (rule waits [THEN conjunct1] | rule waits [THEN conjunct2] | rule works | rule stalls); assumption)
qed

definition one_message :: "nat \<Rightarrow> message" where
  "one_message p = \<lparr>prio = p, body = orris\<rparr>"

definition fresh :: mq_kernel where
  "fresh = \<lparr>msgs = [], maxmsg = 10, registered = False\<rparr>"

text \<open>Two messages that are sent before the handler runs: one of them is never received.\<close>

definition two_sent :: mq_world where
  "two_sent = \<lparr>kernel = \<lparr>msgs = [one_message 3], maxmsg = 10, registered = True\<rparr>, sigusr1 = False, nplace = Paused,
     shown = [one_message 5], sent = {#one_message 3, one_message 5#}\<rparr>"

lemma two_sent_reached: "\<exists>w0. notify_main (Some fresh) = Inr w0 \<and> mq_world_step\<^sup>*\<^sup>* w0 two_sent"
proof -
  let ?w = "\<lambda>ms r sig pl sh se. \<lparr>kernel = \<lparr>msgs = ms, maxmsg = 10, registered = r\<rparr>, sigusr1 = sig, nplace = pl, shown = sh, sent = se\<rparr>"
  let ?a = "one_message 3" and ?b = "one_message 5"
  have "notify_main (Some fresh) = Inr (?w [] True False Paused [] {#})"
    by (simp add: notify_main_def mq_notify_def fresh_def)
  moreover have "mq_world_step (?w [] True False Paused [] {#}) (?w [?a] False True Paused [] {#?a#})"
    using sends [of 3 "?w [] True False Paused [] {#}" True "\<lparr>msgs = [?a], maxmsg = 10, registered = False\<rparr>"]
    by (simp add: send_main_def MQ_PRIO_MAX_def one_message_def)
  moreover have "mq_world_step (?w [?a] False True Paused [] {#?a#}) (?w [?b, ?a] False True Paused [] {#?a, ?b#})"
    using sends [of 5 "?w [?a] False True Paused [] {#?a#}" False "\<lparr>msgs = [?b, ?a], maxmsg = 10, registered = False\<rparr>"]
    by (simp add: send_main_def MQ_PRIO_MAX_def one_message_def add_mset_commute)
  moreover have "mq_world_step (?w [?b, ?a] False True Paused [] {#?a, ?b#}) (?w [?b, ?a] False False Registering [] {#?a, ?b#})"
    using handler [of "?w [?b, ?a] False True Paused [] {#?a, ?b#}"] by simp
  moreover have "mq_world_step (?w [?b, ?a] False False Registering [] {#?a, ?b#}) (?w [?b, ?a] True False In_receive [] {#?a, ?b#})"
    using registers [of "?w [?b, ?a] False False Registering [] {#?a, ?b#}"] by (simp add: mq_notify_def)
  moreover have "mq_world_step (?w [?b, ?a] True False In_receive [] {#?a, ?b#}) two_sent"
    using receives [of "?w [?b, ?a] True False In_receive [] {#?a, ?b#}"] by (simp add: recv_main_def two_sent_def)
  ultimately show ?thesis
    by (meson rtranclp.rtrancl_into_rtrancl rtranclp.rtrancl_refl)
qed

theorem notifier_stalls_witness:
  "registered (kernel two_sent) \<and> sent two_sent = {#one_message 5#} + {#one_message 3#} \<and> msgs (kernel two_sent) = [one_message 3] \<and>
    \<not> (\<exists>w. mq_world_step\<^sup>*\<^sup>* two_sent w \<and> shown w \<noteq> [one_message 5])"
proof -
  obtain w0 where w0: "notify_main (Some fresh) = Inr w0" "mq_world_step\<^sup>*\<^sup>* w0 two_sent"
    using two_sent_reached by blast
  then show ?thesis
    using notifier_stalls [OF w0(1) _ w0(2)] by (simp add: fresh_def by_prio_def two_sent_def)
qed

end
