(* ===== verification/UdpEcho.thy ===== *)
theory UdpEcho
  imports EchoClient
begin

text \<open>
  The datagram echo programs of \<open>network/socket/codes/udp-echo\<close>: \<open>server.c\<close>, \<open>client.c\<close> and \<open>icmp-error-client.c\<close>, which
  is \<open>client.c\<close> with a connected socket.

  \<^item> \<open>udp\<close> is a client with its buffers, the server and the datagrams between them; a datagram may get lost. A datagram to
    a port where no server is (\<open>server_up\<close> false) is answered by an error, which only a connected socket is told of
    (\<open>refused\<close>), by the next call on it; the client does not look at what \<open>sendto\<close> returns.
  \<^item> \<open>udp_turn\<close> is what the server does with a datagram, \<open>udp_send\<close> and \<open>udp_take\<close> the two halves of the loop of a
    client. \<open>udp_step connected signals\<close> is a step of the whole; with \<open>signals\<close> a wait of the client can be interrupted.
  \<^item> \<open>udp_inv\<close>: at most one datagram is under way, and it is the line whose answer is waited for.
\<close>

datatype udp_place = Reading | Waiting | Failed | Ended

record udp =
  server_up :: bool
  to_server :: "byte list list"
  to_client :: "byte list list"
  server_shown :: "byte list"
  send_buf :: "byte list"
  recv_buf :: "byte list"
  keyboard :: "byte list"
  client_shown :: "byte list"
  uplace :: udp_place
  refused :: bool

text \<open>The server: what it prints and what it sends, for a datagram cut to the size of the buffer.\<close>

definition udp_turn :: "byte list \<Rightarrow> (byte list \<times> byte list) run" where
  "udp_turn d =
     (if d = [] then Inr ([], [])
      else bnd (store zero_buf 0 (take BUFFER_LENGTH d)) (\<lambda>b. bnd (fputs b) (\<lambda>text. Inr (text, c_str b))))"

definition udp_send :: "bool \<Rightarrow> udp \<Rightarrow> udp" where
  "udp_send connected s =
     (case fgets BUFFER_LENGTH (keyboard s) of
        None \<Rightarrow> s\<lparr>uplace := Ended\<rparr>
      | Some (line, rest) \<Rightarrow>
          (let b = typed_into (send_buf s) line in
           s\<lparr>send_buf := b, keyboard := rest, uplace := Waiting, refused := \<not> refused s \<and> connected \<and> \<not> server_up s,
             to_server := (if server_up s then to_server s @ [c_str b] else to_server s)\<rparr>))"

definition udp_take :: "byte list \<Rightarrow> udp \<Rightarrow> udp run" where
  "udp_take d s =
     (if d = [] then Inr (s\<lparr>uplace := Reading\<rparr>)
      else bnd (store (recv_buf s) 0 (take BUFFER_LENGTH d)) (\<lambda>b. bnd (fputs b) (\<lambda>text.
        Inr (s\<lparr>client_shown := client_shown s @ text, send_buf := zero_buf, recv_buf := zero_buf, uplace := Reading\<rparr>))))"

inductive udp_step :: "bool \<Rightarrow> bool \<Rightarrow> udp \<Rightarrow> udp \<Rightarrow> bool" for connected signals where
  sends: "uplace s = Reading \<Longrightarrow> udp_step connected signals s (udp_send connected s)"
| takes: "uplace s = Waiting \<Longrightarrow> to_client s = d # ds \<Longrightarrow> udp_take d (s\<lparr>to_client := ds\<rparr>) = Inr s' \<Longrightarrow>
     udp_step connected signals s s'"
| interrupted: "signals \<Longrightarrow> uplace s = Waiting \<Longrightarrow> udp_step connected signals s (s\<lparr>uplace := Reading\<rparr>)"
| told: "uplace s = Waiting \<Longrightarrow> refused s \<Longrightarrow> udp_step connected signals s (s\<lparr>refused := False, uplace := Failed\<rparr>)"
| serves: "server_up s \<Longrightarrow> to_server s = d # ds \<Longrightarrow> udp_turn d = Inr (text, answer) \<Longrightarrow>
     udp_step connected signals s (s\<lparr>to_server := ds, server_shown := server_shown s @ text,
       to_client := (if d = [] then to_client s else to_client s @ [answer])\<rparr>)"
| lost_request: "to_server s = a @ d # b \<Longrightarrow> udp_step connected signals s (s\<lparr>to_server := a @ b\<rparr>)"
| lost_answer: "to_client s = a @ d # b \<Longrightarrow> udp_step connected signals s (s\<lparr>to_client := a @ b\<rparr>)"

definition udp_start :: "bool \<Rightarrow> byte list \<Rightarrow> udp" where
  "udp_start up inp = \<lparr>server_up = up, to_server = [], to_client = [], server_shown = [], send_buf = zero_buf, recv_buf = zero_buf,
     keyboard = inp, client_shown = [], uplace = Reading, refused = False\<rparr>"

subsection \<open>The invariant\<close>

definition line_ok :: "byte list \<Rightarrow> bool" where
  "line_ok l \<longleftrightarrow> l \<noteq> [] \<and> length l < BUFFER_LENGTH \<and> 0 \<notin> set l"

definition udp_inv :: "bool \<Rightarrow> bool \<Rightarrow> byte list \<Rightarrow> udp \<Rightarrow> bool" where
  "udp_inv connected up inp s \<longleftrightarrow> server_up s = up \<and> 0 \<notin> set inp \<and> recv_buf s = zero_buf \<and> (refused s \<longrightarrow> connected \<and> \<not> up) \<and>
     (case uplace s of
        Reading \<Rightarrow> to_server s = [] \<and> to_client s = [] \<and> \<not> refused s \<and> inp = client_shown s @ keyboard s
      | Ended \<Rightarrow> to_server s = [] \<and> to_client s = [] \<and> \<not> refused s \<and> inp = client_shown s \<and> keyboard s = []
      | Waiting \<Rightarrow> (\<exists>l. line_ok l \<and> inp = client_shown s @ l @ keyboard s \<and> (to_server s, to_client s) \<in> {([l], []), ([], [l]), ([], [])} \<and>
          (\<not> up \<longrightarrow> to_server s = [] \<and> to_client s = [] \<and> (connected \<longrightarrow> refused s)))
      | Failed \<Rightarrow> connected \<and> \<not> up \<and> to_server s = [] \<and> to_client s = [] \<and> (\<exists>l. inp = client_shown s @ l @ keyboard s))"

lemma udp_turn_line: "line_ok l \<Longrightarrow> udp_turn l = Inr (l, l)"
  using fputs_terminated [of l "BUFFER_LENGTH - length l"]
  by (auto simp: udp_turn_def line_ok_def store_ok fputs_def split: if_splits)

lemma udp_take_line: "line_ok l \<Longrightarrow> recv_buf s = zero_buf \<Longrightarrow>
    udp_take l s = Inr (s\<lparr>client_shown := client_shown s @ l, send_buf := zero_buf, recv_buf := zero_buf, uplace := Reading\<rparr>)"
  using fputs_terminated [of l "BUFFER_LENGTH - length l"] by (auto simp: udp_take_def line_ok_def store_ok)

lemma udp_send_inv:
  assumes "udp_inv connected up inp s" "uplace s = Reading"
  shows "udp_inv connected up inp (udp_send connected s)"
proof (cases "fgets BUFFER_LENGTH (keyboard s)")
  case None
  then have "keyboard s = []"
    by (auto simp: fgets_def Let_def split: if_splits)
  then show ?thesis
    using assms None by (auto simp: udp_inv_def udp_send_def)
next
  case (Some p)
  obtain line rest where p: "p = (line, rest)"
    by (cases p)
  have f: "keyboard s = line @ rest" "line \<noteq> []" "length line < BUFFER_LENGTH"
    using fgets_progress [of BUFFER_LENGTH "keyboard s" line rest] Some p by auto
  then have l: "line_ok line"
    using assms by (auto simp: line_ok_def udp_inv_def)
  have "c_str (typed_into (send_buf s) line) = line"
    unfolding typed_into_def c_str_def by (subst takeWhile_append2) (use l in \<open>auto simp: line_ok_def\<close>)
  then show ?thesis
    using assms Some p f l by (auto simp: udp_inv_def udp_send_def Let_def)
qed

lemma udp_step_inv: "udp_step connected False s s' \<Longrightarrow> udp_inv connected up inp s \<Longrightarrow> udp_inv connected up inp s'"
proof (induction rule: udp_step.induct)
  case (sends s)
  then show ?case
    using udp_send_inv by blast
next
  case (takes s d ds s')
  then obtain l where l: "line_ok l" "inp = client_shown s @ l @ keyboard s" "d = l" "ds = []" "to_server s = []" "up"
    by (auto simp: udp_inv_def)
  then show ?case
    using takes udp_take_line [OF l(1), of "s\<lparr>to_client := ds\<rparr>"] by (auto simp: udp_inv_def)
next
  case (serves s d ds shown answer)
  then obtain l where l: "uplace s = Waiting" "line_ok l" "d = l" "ds = []" "to_client s = []"
    by (cases "uplace s") (auto simp: udp_inv_def)
  then show ?case
    using serves udp_turn_line [OF l(2)] by (auto simp: udp_inv_def line_ok_def)
next
  case (lost_request s a d b)
  then have "uplace s = Waiting" "a = []" "b = []"
    by (cases "uplace s"; auto simp: udp_inv_def append_eq_Cons_conv)+
  then show ?case
    using lost_request by (auto simp: udp_inv_def)
next
  case (lost_answer s a d b)
  then have "uplace s = Waiting" "a = []" "b = []"
    by (cases "uplace s"; auto simp: udp_inv_def append_eq_Cons_conv)+
  then show ?case
    using lost_answer by (auto simp: udp_inv_def)
qed (auto simp: udp_inv_def)

lemma udp_reach: "(udp_step connected False)\<^sup>*\<^sup>* s s' \<Longrightarrow> udp_inv connected up inp s \<Longrightarrow> udp_inv connected up inp s'"
  by (induction rule: rtranclp_induct) (auto intro: udp_step_inv)

lemma udp_inv_start: "0 \<notin> set inp \<Longrightarrow> udp_inv connected up inp (udp_start up inp)"
  by (simp add: udp_inv_def udp_start_def)

subsection \<open>The properties\<close>

text \<open>
  Without interruptions the client shows a prefix of what is typed, in order, with at most one line not yet answered, and
  all of it when it ends. Without a server it shows nothing: the client waits for ever, and the connected one fails. A lost
  datagram is never sent again: then nobody can take a step.
\<close>

theorem udp_echo_prefix:
  assumes "0 \<notin> set inp" "(udp_step connected False)\<^sup>*\<^sup>* (udp_start up inp) s"
  shows "(\<exists>l. inp = client_shown s @ l @ keyboard s) \<and> (uplace s = Ended \<longrightarrow> client_shown s = inp) \<and>
    (uplace s = Failed \<longrightarrow> connected \<and> \<not> up) \<and>
    (uplace s = Waiting \<and> to_server s = [] \<and> to_client s = [] \<longrightarrow>
      (if connected \<and> \<not> up then (\<exists>s'. udp_step connected False s s') \<and> (\<forall>s'. udp_step connected False s s' \<longrightarrow> uplace s' = Failed)
       else \<not> (\<exists>s'. udp_step connected False s s')))"
proof (intro conjI impI)
  note inv = udp_reach [OF assms(2) udp_inv_start [OF assms(1)]]
  show "\<exists>l. inp = client_shown s @ l @ keyboard s"
    using inv by (cases "uplace s") (auto simp: udp_inv_def)
  show "uplace s = Ended \<Longrightarrow> client_shown s = inp" "uplace s = Failed \<Longrightarrow> connected" "uplace s = Failed \<Longrightarrow> \<not> up"
    using inv by (simp_all add: udp_inv_def)
  assume w: "uplace s = Waiting \<and> to_server s = [] \<and> to_client s = []"
  show "if connected \<and> \<not> up then (\<exists>s'. udp_step connected False s s') \<and> (\<forall>s'. udp_step connected False s s' \<longrightarrow> uplace s' = Failed)
    else \<not> (\<exists>s'. udp_step connected False s s')"
  proof (cases "refused s")
    case True
    then have "connected \<and> \<not> up"
      using inv by (simp add: udp_inv_def)
    moreover have "udp_step connected False s (s\<lparr>refused := False, uplace := Failed\<rparr>)"
      using told w True by blast
    moreover have "uplace s' = Failed" if "udp_step connected False s s'" for s'
      using that w by (cases rule: udp_step.cases) auto
    ultimately show ?thesis
      by auto
  next
    case False
    then have "\<not> (connected \<and> \<not> up)"
      using inv w by (auto simp: udp_inv_def)
    moreover have "\<not> udp_step connected False s s'" for s'
      using w False by (auto elim: udp_step.cases)
    ultimately show ?thesis
      by auto
  qed
qed

text \<open>A line that is typed while no server is there.\<close>

theorem udp_echo_prefix_witness:
  "\<exists>s. (udp_step True False)\<^sup>*\<^sup>* (udp_start False [120, 10]) s \<and> uplace s = Waiting \<and> to_server s = [] \<and>
    (\<exists>s'. udp_step True False s s') \<and> (\<forall>s'. udp_step True False s s' \<longrightarrow> uplace s' = Failed)"
proof -
  let ?s = "udp_send True (udp_start False [120, 10])"
  have "udp_step True False (udp_start False [120, 10]) ?s"
    by (rule sends) (simp add: udp_start_def)
  then have r: "(udp_step True False)\<^sup>*\<^sup>* (udp_start False [120, 10]) ?s"
    by blast
  have p: "uplace ?s = Waiting" "to_server ?s = []" "to_client ?s = []"
    by (simp_all add: udp_send_def udp_start_def fgets_def Let_def)
  show ?thesis
    using udp_echo_prefix [OF _ r] p r by (intro exI [of _ ?s]) simp
qed

text \<open>An interrupted wait leaves the answer in the socket: from then on the client shows the answers one line late.\<close>

theorem udp_late_answers:
  "\<exists>s. (udp_step False True)\<^sup>*\<^sup>* (udp_start True [120, 10, 121, 10]) s \<and> uplace s = Ended \<and> client_shown s = [120, 10] \<and>
    to_client s = [[121, 10]]"
proof -
  let ?x = "[120, 10] :: byte list" and ?y = "[121, 10] :: byte list"
  let ?w = "\<lambda>req ans ss sb kb cs pl. \<lparr>server_up = True, to_server = req, to_client = ans, server_shown = ss, send_buf = sb,
    recv_buf = zero_buf, keyboard = kb, client_shown = cs, uplace = pl, refused = False\<rparr>"
  let ?bx = "typed_into zero_buf ?x" and ?by = "typed_into (typed_into zero_buf ?x) ?y"
  have c: "c_str (typed_into b ?x) = ?x" "c_str (typed_into b ?y) = ?y" for b
    by (simp_all add: typed_into_def c_str_def)
  have l: "line_ok ?x" "line_ok ?y"
    by (simp_all add: line_ok_def)
  have s1: "udp_step False True (?w [] [] [] zero_buf (?x @ ?y) [] Reading) (?w [?x] [] [] ?bx ?y [] Waiting)"
    using sends [of "?w [] [] [] zero_buf (?x @ ?y) [] Reading" False True]
    by (simp add: udp_send_def fgets_def Let_def c)
  have s2: "udp_step False True (?w [?x] [] [] ?bx ?y [] Waiting) (?w [?x] [] [] ?bx ?y [] Reading)"
    using interrupted [of True "?w [?x] [] [] ?bx ?y [] Waiting" False] by simp
  have s3: "udp_step False True (?w [?x] [] [] ?bx ?y [] Reading) (?w [?x, ?y] [] [] ?by [] [] Waiting)"
    using sends [of "?w [?x] [] [] ?bx ?y [] Reading" False True] by (simp add: udp_send_def fgets_def Let_def c)
  have s4: "udp_step False True (?w [?x, ?y] [] [] ?by [] [] Waiting) (?w [?y] [?x] ?x ?by [] [] Waiting)"
    using serves [of "?w [?x, ?y] [] [] ?by [] [] Waiting" ?x "[?y]" ?x ?x False True] udp_turn_line [OF l(1)] by simp
  have s5: "udp_step False True (?w [?y] [?x] ?x ?by [] [] Waiting) (?w [] [?x, ?y] (?x @ ?y) ?by [] [] Waiting)"
    using serves [of "?w [?y] [?x] ?x ?by [] [] Waiting" ?y "[]" ?y ?y False True] udp_turn_line [OF l(2)] by simp
  have s6: "udp_step False True (?w [] [?x, ?y] (?x @ ?y) ?by [] [] Waiting) (?w [] [?y] (?x @ ?y) zero_buf [] ?x Reading)"
    using takes [of "?w [] [?x, ?y] (?x @ ?y) ?by [] [] Waiting" ?x "[?y]"] udp_take_line [OF l(1)] by simp
  have s7: "udp_step False True (?w [] [?y] (?x @ ?y) zero_buf [] ?x Reading) (?w [] [?y] (?x @ ?y) zero_buf [] ?x Ended)"
    using sends [of "?w [] [?y] (?x @ ?y) zero_buf [] ?x Reading" False True] by (simp add: udp_send_def fgets_def)
  have u: "udp_start True (?x @ ?y) = ?w [] [] [] zero_buf (?x @ ?y) [] Reading"
    by (simp add: udp_start_def)
  note go = converse_rtranclp_into_rtranclp [of "udp_step False True"] and last = r_into_rtranclp [of "udp_step False True"]
  have "(udp_step False True)\<^sup>*\<^sup>* (?w [] [] [] zero_buf (?x @ ?y) [] Reading) (?w [] [?y] (?x @ ?y) zero_buf [] ?x Ended)"
    by (rule go [OF s1 go [OF s2 go [OF s3 go [OF s4 go [OF s5 go [OF s6 last [OF s7]]]]]]])
  then show ?thesis
    using u by (intro exI [of _ "?w [] [?y] (?x @ ?y) zero_buf [] ?x Ended"]) simp
qed

end
