(* ===== verification/SysvMsg.thy ===== *)
theory SysvMsg
  imports Prelude
begin

text \<open>
  The commands on a System V message queue in \<open>process/ipc/codes/interface\<close>.

  \<^item> \<open>msq\<close> is the queue with the key 1234, if there is one: its messages by age, its mode and how many bytes it takes. Of a
    message only type and length are kept, because \<open>msg-snd.c\<close> sends memory that it has not initialised. \<open>msgrcv_select\<close>
    is the choice of \<open>msgrcv\<close>: by a positive type, or by the lowest type up to the absolute value of a negative one.
  \<^item> \<open>msg_create\<close>, \<open>msg_rm\<close>, \<open>msg_set\<close>, \<open>msg_stat\<close>, \<open>msg_snd\<close> and \<open>msg_rcv\<close> are the commands, with their arguments as
    \<open>atoi\<close> and \<open>getopt\<close> read them; nobody is refused for the mode.
  \<^item> \<open>msq_ok\<close> is kept by all of them; \<open>commands_fifo\<close>: the messages of one type are received in the order they were sent.
\<close>

record msq =
  pending :: "(int \<times> nat) list"
  perm :: nat
  qbytes :: nat

definition cbytes :: "msq \<Rightarrow> nat" where
  "cbytes q = sum_list (map snd (pending q))"

definition MSGMAX :: nat where
  "MSGMAX = 8192"

subsection \<open>The commands\<close>

definition msg_create :: "msq option \<Rightarrow> msq option run" where
  "msg_create k = Inr (case k of None \<Rightarrow> Some \<lparr>pending = [], perm = 438, qbytes = 16384\<rparr> | Some q \<Rightarrow> Some q)"

definition msg_rm :: "msq option \<Rightarrow> msq option run" where
  "msg_rm k = (case k of None \<Rightarrow> Inl Exit_failure | Some q \<Rightarrow> Inr None)"

text \<open>The mode that is shown is the one before it is set to octal 600.\<close>

definition msg_set :: "msq option \<Rightarrow> (nat \<times> msq option) run" where
  "msg_set k = (case k of None \<Rightarrow> Inl Exit_failure | Some q \<Rightarrow> Inr (perm q, Some (q\<lparr>perm := 384\<rparr>)))"

definition msg_stat :: "msq option \<Rightarrow> (nat \<times> nat \<times> nat \<times> nat) run" where
  "msg_stat k = (case k of None \<Rightarrow> Inl Exit_failure | Some q \<Rightarrow> Inr (perm q, length (pending q), cbytes q, qbytes q))"

text \<open>With a negative length \<open>malloc\<close> returns too little memory for the type, or none.\<close>

definition msg_snd :: "(int \<times> int) option \<Rightarrow> msq option \<Rightarrow> msq option run" where
  "msg_snd args k =
     (case args of
        None \<Rightarrow> Inl Exit_failure
      | Some (bytes, type) \<Rightarrow>
          (case k of
             None \<Rightarrow> Inl Exit_failure
           | Some q \<Rightarrow>
               if bytes < 0 then Inl (Fault OutOfBounds)
               else if type < 1 \<or> MSGMAX < nat bytes then Inl Exit_failure
               else if qbytes q < nat bytes + cbytes q \<or> qbytes q < 1 + length (pending q) then Inl Exit_failure
               else Inr (Some (q\<lparr>pending := pending q @ [(type, nat bytes)]\<rparr>))))"

text \<open>The options: \<open>-n\<close>, \<open>-t\<close> with a number, or one that \<open>getopt\<close> does not know, on which the program ends at once.\<close>

datatype rcv_option = Opt_n | Opt_t int | Opt_unknown

fun getopt_loop :: "rcv_option list \<Rightarrow> bool \<Rightarrow> int \<Rightarrow> (bool \<times> int) option" where
  "getopt_loop [] nowait mtype = Some (nowait, mtype)"
| "getopt_loop (Opt_n # os) nowait mtype = getopt_loop os True mtype"
| "getopt_loop (Opt_t t # os) nowait mtype = getopt_loop os nowait t"
| "getopt_loop (Opt_unknown # os) nowait mtype = None"

definition msgrcv_select :: "int \<Rightarrow> (int \<times> nat) list \<Rightarrow> (int \<times> nat) option" where
  "msgrcv_select t ms =
     (if t = 0 then (case ms of [] \<Rightarrow> None | m # _ \<Rightarrow> Some m)
      else if 0 < t then find (\<lambda>m. fst m = t) ms
      else (let low = filter (\<lambda>m. fst m \<le> - t) ms in
        find (\<lambda>m. \<forall>x\<in>set low. fst m \<le> fst x) low))"

definition msg_rcv :: "rcv_option list \<Rightarrow> msq option \<Rightarrow> ((int \<times> nat) option \<times> msq option) run" where
  "msg_rcv opts k =
     (case getopt_loop opts False 0 of
        None \<Rightarrow> Inr (None, k)
      | Some (nowait, mtype) \<Rightarrow>
          (case k of
             None \<Rightarrow> Inl Exit_failure
           | Some q \<Rightarrow>
               (case msgrcv_select mtype (pending q) of
                  None \<Rightarrow> Inl (if nowait then Exit_failure else Blocked)
                | Some m \<Rightarrow> Inr (Some m, Some (q\<lparr>pending := remove1 m (pending q)\<rparr>)))))"

subsection \<open>Sequences of commands\<close>

text \<open>
  Each command is a process of its own: one that fails, or that waits and is ended, leaves the queue as it is. The history
  of the queue is what has been sent to it and what has been received from it.
\<close>

datatype msg_command = Create | Set_mode | Stat | Send "(int \<times> int) option" | Receive "rcv_option list"

record history =
  the_queue :: "msq option"
  put_in :: "(int \<times> nat) list"
  taken :: "(int \<times> nat) list"

fun run_command :: "msg_command \<Rightarrow> history \<Rightarrow> history" where
  "run_command Create h = (case msg_create (the_queue h) of Inr k \<Rightarrow> h\<lparr>the_queue := k\<rparr> | Inl _ \<Rightarrow> h)"
| "run_command Set_mode h = (case msg_set (the_queue h) of Inr (_, k) \<Rightarrow> h\<lparr>the_queue := k\<rparr> | Inl _ \<Rightarrow> h)"
| "run_command Stat h = h"
| "run_command (Send args) h =
     (case msg_snd args (the_queue h) of
        Inr k \<Rightarrow> (case args of Some (b, t) \<Rightarrow> h\<lparr>the_queue := k, put_in := put_in h @ [(t, nat b)]\<rparr> | None \<Rightarrow> h)
      | Inl _ \<Rightarrow> h)"
| "run_command (Receive opts) h =
     (case msg_rcv opts (the_queue h) of
        Inr (got, k) \<Rightarrow> h\<lparr>the_queue := k, taken := taken h @ (case got of None \<Rightarrow> [] | Some m \<Rightarrow> [m])\<rparr>
      | Inl _ \<Rightarrow> h)"

definition waiting :: "history \<Rightarrow> (int \<times> nat) list" where
  "waiting h = (case the_queue h of None \<Rightarrow> [] | Some q \<Rightarrow> pending q)"

abbreviation of_type :: "int \<Rightarrow> (int \<times> nat) list \<Rightarrow> (int \<times> nat) list" where
  "of_type t \<equiv> filter (\<lambda>m. fst m = t)"

subsection \<open>What is selected\<close>

text \<open>The selected message is the oldest of its type.\<close>

lemma find_first: "find P xs = Some m \<Longrightarrow> (\<And>x. fst x = fst m \<Longrightarrow> P x) \<Longrightarrow> \<exists>rest. of_type (fst m) xs = m # rest"
proof (induction xs)
  case (Cons x xs)
  have "P x" if "fst x = fst m"
    using Cons.prems(2) that .
  then show ?case
    using Cons.IH Cons.prems by (cases "P x") auto
qed simp

lemma find_holds: "find P xs = Some m \<Longrightarrow> P m \<and> m \<in> set xs"
  by (auto simp: find_Some_iff)

lemma msgrcv_select_low:
  "t < 0 \<Longrightarrow> msgrcv_select t ms = find (\<lambda>m. \<forall>x\<in>set (filter (\<lambda>m. fst m \<le> - t) ms). fst m \<le> fst x) (filter (\<lambda>m. fst m \<le> - t) ms)"
  unfolding msgrcv_select_def Let_def by (subst if_not_P, simp)+ (rule refl)

lemma of_type_low: "u \<le> l \<Longrightarrow> of_type u (filter (\<lambda>m. fst m \<le> l) ms) = of_type u ms"
  by (induction ms) auto

lemma msgrcv_select_first: "msgrcv_select t ms = Some m \<Longrightarrow> \<exists>rest. of_type (fst m) ms = m # rest"
proof -
  assume s: "msgrcv_select t ms = Some m"
  consider "t = 0" | "0 < t" | "t < 0"
    by linarith
  then show ?thesis
  proof cases
    case 1
    then show ?thesis
      using s by (cases ms) (auto simp: msgrcv_select_def)
  next
    case 2
    then have f: "find (\<lambda>m. fst m = t) ms = Some m"
      using s by (simp add: msgrcv_select_def)
    have "fst m = t"
      using find_holds [OF f] by simp
    then show ?thesis
      by (intro find_first [OF f]) (rule trans)
  next
    case 3
    define low where "low = filter (\<lambda>m. fst m \<le> - t) ms"
    have f: "find (\<lambda>m. \<forall>x\<in>set low. fst m \<le> fst x) low = Some m"
      using s unfolding msgrcv_select_low [OF 3] low_def .
    have h: "(\<forall>x\<in>set low. fst m \<le> fst x) \<and> m \<in> set low"
      using find_holds [OF f] .
    then have m: "fst m \<le> - t"
      by (simp add: low_def)
    have "\<exists>rest. of_type (fst m) low = m # rest"
    proof (rule find_first [OF f])
      fix x :: "int \<times> nat"
      assume "fst x = fst m"
      then show "\<forall>y\<in>set low. fst x \<le> fst y"
        using h by metis
    qed
    then show ?thesis
      unfolding low_def of_type_low [OF m] .
  qed
qed

lemma of_type_remove1: "of_type t (remove1 m xs) = (if fst m = t then remove1 m (of_type t xs) else of_type t xs)"
  by (simp add: filter_remove1)

lemma msgrcv_takes_first:
  assumes "msgrcv_select t ms = Some m"
  shows "of_type u ms = of_type u [m] @ of_type u (remove1 m ms)"
  using msgrcv_select_first [OF assms] by (auto simp: of_type_remove1)

subsection \<open>The invariants\<close>

definition msq_ok :: "msq \<Rightarrow> bool" where
  "msq_ok q \<longleftrightarrow> cbytes q \<le> qbytes q \<and> length (pending q) \<le> qbytes q \<and> (\<forall>m\<in>set (pending q). 1 \<le> fst m \<and> snd m \<le> MSGMAX)"

lemma cbytes_remove1: "(m :: int \<times> nat) \<in> set ms \<Longrightarrow> sum_list (map snd ms) = snd m + sum_list (map snd (remove1 m ms))"
  by (induction ms) auto

lemma msgrcv_select_in: "msgrcv_select t ms = Some m \<Longrightarrow> m \<in> set ms"
  using msgrcv_select_first [of t ms m] by (metis filter_is_subset list.set_intros(1) subsetD)

lemma msg_snd_ok: "msg_snd (Some (b, t)) (Some q) = Inr k \<Longrightarrow> msq_ok q \<Longrightarrow>
    \<exists>q'. k = Some q' \<and> pending q' = pending q @ [(t, nat b)] \<and> msq_ok q'"
  by (auto simp: msg_snd_def msq_ok_def cbytes_def split: if_splits)

lemma msg_rcv_ok: "msg_rcv opts (Some q) = Inr (Some m, k) \<Longrightarrow> msq_ok q \<Longrightarrow>
    \<exists>q'. k = Some q' \<and> pending q' = remove1 m (pending q) \<and> (\<forall>u. of_type u (pending q) = of_type u [m] @ of_type u (pending q')) \<and> msq_ok q'"
proof -
  assume r: "msg_rcv opts (Some q) = Inr (Some m, k)" and ok: "msq_ok q"
  then obtain n t where t: "getopt_loop opts False 0 = Some (n, t)" "msgrcv_select t (pending q) = Some m"
    "k = Some (q\<lparr>pending := remove1 m (pending q)\<rparr>)"
    by (auto simp: msg_rcv_def split: option.splits)
  have "set (remove1 m (pending q)) \<subseteq> set (pending q)" "length (remove1 m (pending q)) \<le> length (pending q)"
    by (simp_all add: set_remove1_subset length_remove1)
  then have "msq_ok (q\<lparr>pending := remove1 m (pending q)\<rparr>)"
    using ok cbytes_remove1 [OF msgrcv_select_in [OF t(2)]] by (auto simp: msq_ok_def cbytes_def)
  then show ?thesis
    using msgrcv_takes_first [OF t(2)] t(3) by simp
qed

definition history_ok :: "history \<Rightarrow> bool" where
  "history_ok h \<longleftrightarrow> (case the_queue h of None \<Rightarrow> True | Some q \<Rightarrow> msq_ok q) \<and> (\<forall>t. of_type t (put_in h) = of_type t (taken h) @ of_type t (waiting h))"

lemma history_ok_send: "history_ok h \<Longrightarrow> history_ok (run_command (Send args) h)"
proof (cases "msg_snd args (the_queue h)")
  case (Inr k)
  assume ok: "history_ok h"
  obtain b t q where a: "args = Some (b, t)" "the_queue h = Some q"
    using Inr by (auto simp: msg_snd_def split: option.splits)
  then obtain q' where "k = Some q'" "pending q' = pending q @ [(t, nat b)]" "msq_ok q'"
    using msg_snd_ok [of b t q k] Inr ok by (auto simp: history_ok_def)
  then show ?thesis
    using Inr a ok by (simp add: history_ok_def waiting_def)
qed simp

lemma history_ok_receive: "history_ok h \<Longrightarrow> history_ok (run_command (Receive opts) h)"
proof (cases "msg_rcv opts (the_queue h)")
  case (Inr p)
  assume ok: "history_ok h"
  obtain got k where p: "p = (got, k)"
    by (cases p)
  show ?thesis
  proof (cases got)
    case None
    then have "k = the_queue h"
      using Inr p by (auto simp: msg_rcv_def split: option.splits)
    then show ?thesis
      using Inr p None ok by (simp add: history_ok_def waiting_def)
  next
    case (Some m)
    then obtain q where q: "the_queue h = Some q"
      using Inr p by (auto simp: msg_rcv_def split: option.splits)
    then obtain q' where "k = Some q'" "\<forall>u. of_type u (pending q) = of_type u [m] @ of_type u (pending q')" "msq_ok q'"
      using msg_rcv_ok [of opts q m k] Inr p Some ok by (auto simp: history_ok_def)
    then show ?thesis
      using Inr p Some q ok by (simp add: history_ok_def waiting_def)
  qed
qed simp

lemma history_ok_command: "history_ok h \<Longrightarrow> history_ok (run_command c h)"
proof (cases c)
  case Create
  assume "history_ok h"
  then show ?thesis
    using Create by (auto simp: history_ok_def waiting_def msg_create_def msq_ok_def cbytes_def split: option.splits)
next
  case Set_mode
  assume "history_ok h"
  then show ?thesis
    using Set_mode by (auto simp: history_ok_def waiting_def msg_set_def msq_ok_def cbytes_def split: option.splits)
qed (simp_all add: history_ok_send history_ok_receive del: run_command.simps(4,5))

lemma history_ok_commands: "history_ok h \<Longrightarrow> history_ok (fold run_command cs h)"
  by (induction cs arbitrary: h) (auto intro: history_ok_command simp del: run_command.simps)

subsection \<open>The properties\<close>

text \<open>
  Whatever commands are run on a queue that is not removed: for every type, the messages that have been received and then
  those still waiting are the messages that were sent, in order; and the queue never holds more than its limit.
\<close>

theorem commands_fifo:
  assumes "h = fold run_command cs \<lparr>the_queue = None, put_in = [], taken = []\<rparr>"
  shows "of_type t (put_in h) = of_type t (taken h) @ of_type t (waiting h) \<and>
    (\<forall>q. the_queue h = Some q \<longrightarrow> cbytes q \<le> qbytes q)"
proof -
  have "history_ok h"
    unfolding assms by (rule history_ok_commands) (simp add: history_ok_def waiting_def)
  then show ?thesis
    by (auto simp: history_ok_def msq_ok_def split: option.splits)
qed

definition some_commands :: "msg_command list" where
  "some_commands = [Create, Send (Some (4, 7)), Send (Some (5, 2)), Send (Some (6, 7)), Receive [Opt_t (- 5)], Receive [Opt_n, Opt_t 3], Stat, Receive []]"

lemma some_history: "fold run_command some_commands \<lparr>the_queue = None, put_in = [], taken = []\<rparr> =
    \<lparr>the_queue = Some \<lparr>pending = [(7, 6)], perm = 438, qbytes = 16384\<rparr>, put_in = [(7, 4), (2, 5), (7, 6)], taken = [(2, 5), (7, 4)]\<rparr>"
  by (simp add: some_commands_def msg_create_def msg_snd_def msg_rcv_def msgrcv_select_def cbytes_def MSGMAX_def)

theorem commands_fifo_witness:
  "of_type 7 [(7, 4), (2, 5), (7, 6)] = of_type 7 [(2, 5), (7, 4)] @ of_type 7 [(7, 6)]"
  using commands_fifo [OF some_history [symmetric], of 7] by (simp add: waiting_def)

text \<open>A length below zero makes the sender write outside its memory.\<close>

lemma msg_snd_faults: "msg_snd (Some (b, t)) (Some q) = Inl (Fault OutOfBounds) \<longleftrightarrow> b < 0"
  by (simp add: msg_snd_def)

end
