(* ===== verification/SharedRecords.thy ===== *)
theory SharedRecords
  imports PacketServer
begin

text \<open>
  The programs of \<open>process/ipc/codes\<close> that keep records in memory they share: \<open>shared-rw\<close> (five records in a mapped file),
  \<open>posix-shm\<close> (one record in the shared memory object \<open>/abc\<close>) and \<open>shm-rw\<close> (one record in a segment with a key).

  \<^item> A file, an object and a segment are their bytes; a record is a name in an array of characters and an \<open>int\<close> in the byte
    order of the machine (\<open>encode\<close>). \<open>printf\<close> of a name reads up to its NUL, which has to be in the array.
  \<^item> \<open>read_back\<close>: \<open>read.c\<close> prints any five records that the file begins with, but it always stores a zero at the end of
    the fifth, as \<open>write.c\<close> does to make the file long enough.
  \<^item> \<open>shm_session\<close> and \<open>shmrm_spares\<close>: the record that is sent is received; \<open>shmrm.c\<close> removes another segment.
\<close>

subsection \<open>Five records in a mapped file\<close>

text \<open>\<open>lseek\<close> and \<open>write\<close>: a gap behind the end is filled with zeros.\<close>

definition write_at :: "nat \<Rightarrow> byte list \<Rightarrow> byte list \<Rightarrow> byte list" where
  "write_at off bs f = take off (f @ replicate (off - length f) 0) @ bs @ drop (off + length bs) f"

text \<open>The size of the structure and of the array in it.\<close>

definition NAME_SIZE :: nat where
  "NAME_SIZE = 4"

definition STUDENT_SIZE :: nat where
  "STUDENT_SIZE = 8"

fun write_records :: "nat \<Rightarrow> nat \<Rightarrow> byte \<Rightarrow> byte list \<Rightarrow> (byte list) run" where
  "write_records 0 i ch p = Inr p"
| "write_records (Suc n) i ch p =
     bnd (store p (i * STUDENT_SIZE) [ch]) (\<lambda>p.
     bnd (store p (i * STUDENT_SIZE + NAME_SIZE) (word_bytes (of_nat (20 + i)))) (\<lambda>p.
       write_records n (Suc i) (ch + 1) p))"

fun read_records :: "nat \<Rightarrow> nat \<Rightarrow> byte list \<Rightarrow> ((byte list \<times> 32 word) list) run" where
  "read_records 0 i p = Inr []"
| "read_records (Suc n) i p =
     bnd (fputs (take NAME_SIZE (drop (i * STUDENT_SIZE) p))) (\<lambda>name.
     bnd (read_records n (Suc i) p) (\<lambda>rs.
       Inr ((name, bytes_word (take 4 (drop (i * STUDENT_SIZE + NAME_SIZE) p))) # rs)))"

text \<open>
  The arguments say whether \<open>open\<close>, on the argument of the command line, and \<open>mmap\<close> succeed; the programs compare the result of \<open>mmap\<close> with \<open>NULL\<close>, which it
  never returns, and so go on with an address that is not mapped. The mapping is shared: what is stored in it is in the file.
\<close>

definition write_file :: "bool \<Rightarrow> bool \<Rightarrow> (byte list) run" where
  "write_file opened mapped =
     (if \<not> opened then Inl Exit_failure
      else if \<not> mapped then Inl (Fault OutOfBounds)
      else write_records 5 0 65 (write_at (STUDENT_SIZE * 5 - 1) [0] []))"

definition read_file :: "byte list option \<Rightarrow> bool \<Rightarrow> ((byte list \<times> 32 word) list \<times> byte list) run" where
  "read_file file mapped =
     (case file of
        None \<Rightarrow> Inl Exit_failure
      | Some f \<Rightarrow>
          (let f = write_at (STUDENT_SIZE * 5 - 1) [0] f in
           if \<not> mapped then Inl (Fault OutOfBounds)
           else bnd (read_records 5 0 (take (STUDENT_SIZE * 5) f)) (\<lambda>rs. Inr (rs, f))))"

definition encode :: "byte list \<times> 32 word \<Rightarrow> byte list" where
  "encode r = fst r @ replicate (NAME_SIZE - length (fst r)) 0 @ word_bytes (snd r)"

definition record_ok :: "byte list \<times> 32 word \<Rightarrow> bool" where
  "record_ok r \<longleftrightarrow> length (fst r) < NAME_SIZE \<and> 0 \<notin> set (fst r)"

lemma length_encode: "record_ok r \<Longrightarrow> length (encode r) = 8"
  by (simp add: encode_def record_ok_def NAME_SIZE_def)

lemma length_encoded: "\<forall>r\<in>set rs. record_ok r \<Longrightarrow> length (concat (map encode rs)) = 8 * length rs"
  by (induction rs) (simp_all add: length_encode)

lemma drop_encoded: "\<forall>r\<in>set rs. record_ok r \<Longrightarrow> drop (i * 8) (concat (map encode rs)) = concat (map encode (drop i rs))"
proof (induction rs arbitrary: i)
  case (Cons r rs)
  then show ?case
    by (cases i) (simp_all add: length_encode)
qed simp

lemma read_records_encoded:
  "\<forall>r\<in>set rs. record_ok r \<Longrightarrow> i + n \<le> length rs \<Longrightarrow>
   read_records n i (concat (map encode rs)) = Inr (take n (drop i rs))"
proof (induction n arbitrary: i)
  case (Suc n)
  then obtain r rest where d: "drop i rs = r # rest"
    by (metis Suc_le_eq add_Suc_right drop_eq_Nil leD le_add1 le_trans list.exhaust not_less_eq_eq)
  then have ok: "record_ok r"
    using Suc.prems by (metis in_set_dropD list.set_intros(1))
  have rest: "drop (Suc i) rs = rest"
    using d by (metis drop_Suc list.sel(3) tl_drop)
  have p: "drop (i * 8) (concat (map encode rs)) = encode r @ concat (map encode rest)"
    using drop_encoded [OF Suc.prems(1), of i] d by simp
  then have "drop (i * 8 + 4) (concat (map encode rs)) = word_bytes (snd r) @ concat (map encode rest)"
    using ok by (simp add: drop_drop [symmetric] add.commute [of _ 4] encode_def record_ok_def NAME_SIZE_def del: drop_drop)
  moreover have "fputs (take 4 (encode r)) = Inr (fst r)"
    using fputs_terminated [of "fst r" "4 - length (fst r)"] ok by (simp add: encode_def record_ok_def NAME_SIZE_def)
  ultimately show ?case
    using Suc.IH [of "Suc i"] Suc.prems p d rest
    by (simp add: STUDENT_SIZE_def NAME_SIZE_def length_encode [OF ok] bytes_word_bytes)
qed simp

text \<open>Storing a zero in the last byte of the fifth record leaves the lower three bytes of its number.\<close>

lemma word_bytes_cut: "[ucast a, ucast (drop_bit 8 a), ucast (drop_bit 16 a), 0] = word_bytes (take_bit 24 (a :: 32 word))"
proof -
  have "ucast (take_bit 24 a) = (ucast a :: byte)" "ucast (drop_bit 8 (take_bit 24 a)) = (ucast (drop_bit 8 a) :: byte)"
    "ucast (drop_bit 16 (take_bit 24 a)) = (ucast (drop_bit 16 a) :: byte)" "ucast (drop_bit 24 (take_bit 24 a)) = (0 :: byte)"
    by (rule bit_word_eqI; auto simp: bit_simps)+
  then show ?thesis
    unfolding word_bytes_def by simp
qed

lemma write_at_byte: "length c = off \<Longrightarrow> write_at off [y] (c @ [x] @ f) = c @ [y] @ f"
  by (simp add: write_at_def)

lemma write_at_encoded:
  assumes "length rs = 4" "\<forall>r\<in>set (rs @ [(name, a)]). record_ok r"
  shows "write_at 39 [0] (concat (map encode (rs @ [(name, a)])) @ rest) = concat (map encode (rs @ [(name, take_bit 24 a)])) @ rest"
proof -
  let ?c = "concat (map encode rs) @ name @ replicate (4 - length name) 0 @ [ucast a, ucast (drop_bit 8 a), ucast (drop_bit 16 a)]"
  have "length (concat (map encode rs)) = 32"
    using assms length_encoded [of rs] by simp
  then have c: "length ?c = 39"
    using assms(2) by (simp add: record_ok_def NAME_SIZE_def)
  have l: "concat (map encode (rs @ [(name, a)])) = ?c @ [ucast (drop_bit 24 a)]"
    by (simp add: encode_def NAME_SIZE_def word_bytes_def)
  have "write_at 39 [0] (?c @ [ucast (drop_bit 24 a)] @ rest) = ?c @ [0] @ rest"
    using c by (rule write_at_byte)
  moreover have "?c @ [0] = concat (map encode (rs @ [(name, take_bit 24 a)]))"
    by (simp add: encode_def NAME_SIZE_def word_bytes_cut [symmetric])
  ultimately show ?thesis
    using l by (metis append.assoc)
qed

text \<open>
  Any five records that a file begins with are printed, and stay in the file; but the number in the fifth loses its highest
  byte, in the file as well.
\<close>

theorem read_back:
  assumes "length rs = 4" "\<forall>r\<in>set (rs @ [(name, a)]). record_ok r"
  shows "read_file (Some (concat (map encode (rs @ [(name, a)])) @ rest)) True =
    Inr (rs @ [(name, take_bit 24 a)], concat (map encode (rs @ [(name, take_bit 24 a)])) @ rest)"
proof -
  let ?rs = "rs @ [(name, take_bit 24 a)]"
  have ok: "\<forall>r\<in>set ?rs. record_ok r" "length ?rs = 5"
    using assms by (auto simp: record_ok_def)
  have "length (concat (map encode ?rs)) = 40"
    using ok length_encoded [of ?rs] by simp
  then show ?thesis
    using write_at_encoded [OF assms, of rest] read_records_encoded [OF ok(1), of 0 5] ok(2)
    by (simp add: read_file_def STUDENT_SIZE_def del: map_append concat_append)
qed

definition five_records :: "(byte list \<times> 32 word) list" where
  "five_records = [([65], 20), ([66], 21), ([67], 22), ([68], 23), ([69], 24)]"

lemma write_file_writes: "write_file True True = Inr (concat (map encode five_records))"
  by code_simp

text \<open>What \<open>write.c\<close> has written \<open>read.c\<close> prints, and leaves as it is.\<close>

theorem read_back_witness:
  "bnd (write_file True True) (\<lambda>f. read_file (Some f) True) = Inr (five_records, concat (map encode five_records))"
proof -
  let ?rs = "[([65], 20), ([66], 21), ([67], 22), ([68], 23)] :: (byte list \<times> 32 word) list"
  have r: "five_records = ?rs @ [([69], 24)]" "\<forall>r\<in>set (?rs @ [([69], 24)]). record_ok r" "take_bit 24 (24 :: 32 word) = 24"
    by (simp_all add: five_records_def record_ok_def NAME_SIZE_def)
  then have "concat (map encode five_records) = concat (map encode (?rs @ [([69], 24)])) @ []"
    by simp
  then show ?thesis
    using read_back [OF _ r(2), of "[]"] unfolding r(3) write_file_writes by (simp only: bnd_Inr r(1) append_Nil2 list.size)
qed

subsection \<open>One record in a shared memory object\<close>

text \<open>
  The object with the name \<open>/abc\<close>, if there is one. A mapping is made of pages: behind the end of the object, up to the end of
  the page, are zeros, and what is stored there is lost; an object without bytes has no page that could be touched.
\<close>

definition OBJECT_NAME_SIZE :: nat where
  "OBJECT_NAME_SIZE = 32"

definition OBJECT_SIZE :: nat where
  "OBJECT_SIZE = 36"

definition shm_open_main :: "byte list option \<Rightarrow> (nat \<times> byte list option) run" where
  "shm_open_main k =
     (let f = (case k of None \<Rightarrow> [] | Some f \<Rightarrow> f); f = take OBJECT_SIZE (f @ replicate (OBJECT_SIZE - length f) 0) in
      Inr (length f, Some f))"

definition shm_stat_main :: "byte list option \<Rightarrow> nat run" where
  "shm_stat_main k = (case k of None \<Rightarrow> Inl Exit_failure | Some f \<Rightarrow> Inr (length f))"

definition shm_delete_main :: "byte list option \<Rightarrow> byte list option run" where
  "shm_delete_main k = (case k of None \<Rightarrow> Inl Exit_failure | Some f \<Rightarrow> Inr None)"

text \<open>\<open>strcpy(orris.name, "orris"); orris.age = 15;\<close> in a variable that is not initialised.\<close>

definition orris_bytes :: "byte list \<Rightarrow> byte list" where
  "orris_bytes junk = [111, 114, 114, 105, 115, 0] @ drop 6 junk @ word_bytes 15"

definition shm_send_main :: "byte list \<Rightarrow> byte list option \<Rightarrow> byte list option run" where
  "shm_send_main junk k =
     (case k of
        None \<Rightarrow> Inl Exit_failure
      | Some f \<Rightarrow>
          if f = [] then Inl (Fault OutOfBounds)
          else Inr (Some (take (length f) (orris_bytes junk) @ drop OBJECT_SIZE f)))"

definition shm_recv_main :: "byte list option \<Rightarrow> (byte list \<times> 32 word) run" where
  "shm_recv_main k =
     (case k of
        None \<Rightarrow> Inl Exit_failure
      | Some f \<Rightarrow>
          if f = [] then Inl (Fault OutOfBounds)
          else let p = take OBJECT_SIZE (f @ replicate (OBJECT_SIZE - length f) 0) in
            bnd (fputs (take OBJECT_NAME_SIZE p)) (\<lambda>name. Inr (name, bytes_word (drop OBJECT_NAME_SIZE p))))"

text \<open>Whatever the object was before, after \<open>open.c\<close> the record that \<open>send.c\<close> stores is what \<open>recv.c\<close> prints.\<close>

lemma shm_session:
  assumes "length junk = OBJECT_NAME_SIZE"
  shows "bnd (shm_open_main k) (\<lambda>(_, k). bnd (shm_send_main junk k) shm_recv_main) = Inr ([111, 114, 114, 105, 115], 15)"
proof -
  obtain f where f: "shm_open_main k = Inr (36, Some f)" "length f = 36"
    by (simp add: shm_open_main_def Let_def OBJECT_SIZE_def)
  have o: "length (orris_bytes junk) = 36" "take 32 (orris_bytes junk) = [111, 114, 114, 105, 115, 0] @ drop 6 junk"
    "drop 32 (orris_bytes junk) = word_bytes 15"
    using assms by (simp_all add: orris_bytes_def OBJECT_NAME_SIZE_def)
  have "shm_send_main junk (Some f) = Inr (Some (orris_bytes junk))"
    using f o by (auto simp: shm_send_main_def OBJECT_SIZE_def)
  moreover have "orris_bytes junk \<noteq> []"
    by (simp add: orris_bytes_def)
  ultimately show ?thesis
    using f o by (simp add: shm_recv_main_def OBJECT_SIZE_def OBJECT_NAME_SIZE_def fputs_def c_str_def bytes_word_bytes)
qed

subsection \<open>One record in a segment with a key\<close>

type_synonym segments = "int \<Rightarrow> byte list option"

definition shmwrite_main :: "segments \<Rightarrow> segments run" where
  "shmwrite_main segs =
     (let seg = (case segs 1235 of None \<Rightarrow> replicate STUDENT_SIZE 0 | Some p \<Rightarrow> p) in
      if length seg < STUDENT_SIZE then Inl Exit_failure
      else bnd (store seg 0 [97, 98, 0]) (\<lambda>p. bnd (store p NAME_SIZE (word_bytes 15)) (\<lambda>p. Inr (segs(1235 \<mapsto> p)))))"

definition shmread_main :: "segments \<Rightarrow> (byte list \<times> 32 word) run" where
  "shmread_main segs =
     (case segs 1235 of
        None \<Rightarrow> Inl Exit_failure
      | Some p \<Rightarrow>
          (let p = p @ replicate (STUDENT_SIZE - length p) 0 in
           bnd (fputs (take NAME_SIZE p)) (\<lambda>name. Inr (name, bytes_word (take 4 (drop NAME_SIZE p))))))"

definition shmrm_main :: "segments \<Rightarrow> segments run" where
  "shmrm_main segs = (case segs 1234 of None \<Rightarrow> Inl Exit_failure | Some p \<Rightarrow> Inr (segs(1234 := None)))"

lemma shmwrite_read:
  assumes "shmwrite_main segs = Inr segs'"
  shows "shmread_main segs' = Inr ([97, 98], 15)"
proof -
  obtain seg where seg: "8 \<le> length seg"
    "bnd (store seg 0 [97, 98, 0]) (\<lambda>p. bnd (store p 4 (word_bytes 15)) (\<lambda>p. Inr (segs(1235 \<mapsto> p)))) = Inr segs'"
    using assms unfolding shmwrite_main_def Let_def STUDENT_SIZE_def NAME_SIZE_def by (simp only: split: if_splits) (auto simp: not_less)
  have "take 4 ([97, 98, 0] @ drop 3 seg) = [97, 98, 0, seg ! 3]"
    using seg(1) by (simp add: take_Suc_conv_app_nth take_Cons' hd_drop_conv_nth)
  moreover have "store seg 0 [97, 98, 0] = Inr ([97, 98, 0] @ drop 3 seg)"
    using seg(1) by (simp add: store_def numeral_3_eq_3)
  moreover have "store ([97, 98, 0] @ drop 3 seg) 4 (word_bytes 15) =
      Inr (take 4 ([97, 98, 0] @ drop 3 seg) @ word_bytes 15 @ drop 8 ([97, 98, 0] @ drop 3 seg))"
    using seg(1) unfolding store_def by (simp, linarith)
  ultimately have "segs' = segs(1235 \<mapsto> [97, 98, 0, seg ! 3] @ word_bytes 15 @ drop 8 ([97, 98, 0] @ drop 3 seg))"
    using seg(2) by (simp only: bnd_Inr sum.inject)
  then show ?thesis
    by (simp add: shmread_main_def Let_def NAME_SIZE_def fputs_def c_str_def bytes_word_bytes)
qed

text \<open>\<open>shmrm.c\<close> never removes the segment that the other two programs use.\<close>

lemma shmrm_spares: "shmrm_main segs = Inr segs' \<Longrightarrow> segs' 1235 = segs 1235 \<and> shmread_main segs' = shmread_main segs"
  by (auto simp: shmrm_main_def shmread_main_def split: option.splits)

end
