(* ===== verification/Spec2Isabelle.thy ===== *)
theory Spec2Isabelle
  imports BpProps ThreadpoolCorrect PacketServer SemtoolProps RingProps Dinner PrintTwice PosixProps CondStore Ftoi ReactorProps EchoProps Chat Multicopy CountSignals
    ThreadServer EchoClient MySleep EdgeTrigger MqEcho SendFd PosixMq UdpEcho SysvMsg SharedRecords
begin

text \<open>
  Verification of the C programs of this repository of lecture notes: a B+ tree on disk, a thread pool, the exercises on
  processes and semaphores, and the socket programs. Every program stands for itself; the ones that share code (the
  semaphore wrappers, the loops over a socket) share its model.

  \<^bold>\<open>Theories and sources.\<close> \<open>Prelude\<close> has the results (\<open>result\<close>: a value or a fault, such as an access outside an array;
  \<open>run\<close>: besides, blocking for ever and \<open>exit(EXIT_FAILURE)\<close>), checked arrays, the element-moving loops, and the
  descriptor that the kernel hands out next.

  \<^item> \<open>data_structure/bptree.cpp\<close>: \<open>BpFile\<close> (nodes and the index file; an offset is the number of a record), \<open>BpTree\<close>
    (\<open>build\<close>, \<open>insert\<close>, \<open>split\<close>, \<open>query\<close>, the loops of \<open>main\<close>) and \<open>BpRemove\<close> (\<open>remove\<close> with all of its cases) are
    the code. \<open>BpSpec\<close> is the abstract tree and what it means that a file stores it; \<open>BpQueryCorrect\<close>,
    \<open>BpInsertCorrect\<close>, \<open>BpCorrect\<close> and \<open>BpRemoveCorrect\<close> relate the two, \<open>BpProps\<close> states C1 to C5: insertion and
    query implement a finite map, and removal does so on a single leaf but not in general. The recursive
    methods take fuel; the height of the tree, plus one, is enough (\<open>BpCorrect\<close>).
  \<^item> \<open>process/ipc/codes/threadpool\<close>: \<open>FifoSpec\<close> is the contract of a first-in first-out queue, as a locale;
    \<open>Threadpool\<close> the linked list of tasks, the critical sections of workers and clients and the step relation;
    \<open>ThreadpoolCorrect\<close> its invariant and C8 to C12, with time-outs and spurious wake-ups.
  \<^item> \<open>network/socket/codes/readline\<close>, \<open>fixed-length\<close>, \<open>chat\<close>: \<open>SockModel\<close> (a connected socket against a kernel that
    answers from a script: short reads and writes, interruptions, failures; \<open>readn\<close>, \<open>writen\<close>), \<open>LineServer\<close>
    (C17), \<open>PacketServer\<close> (C18), \<open>Chat\<close>: the four processes of a chat as a step relation, with the signal between
    child and parent and with interruptions (C33), and the clients of the other two programs. There the processes are
    modelled one by one, up to the point where the child sends its signal.
  \<^item> \<open>network/socket/codes/echo\<close>: \<open>EchoWorld\<close> (what the servers share), \<open>SelectServer\<close>, \<open>PollServer\<close>,
    \<open>EpollServer\<close>; \<open>SelectPoll\<close> is the relation between the first two, \<open>EchoProps\<close> has C22 and C23.
    (What \<open>epoll_ctl\<close> answers is an input, here and in the reactor: the kernel may have no memory for it.)
    \<open>ForkServer\<close> has the servers with a process for each connection, also those of \<open>simple-tcp\<close> and \<open>unix-echo\<close>
    (C13: descriptors and zombies), \<open>ThreadServer\<close> the one with threads (C6), \<open>EchoClient\<close> the clients and a session of
    a client with a child of the server (C15; \<open>session_is_client_loop\<close> ties its client to the loop of the program).
  \<^item> \<open>network/socket/codes/mq-echo\<close>: \<open>MqEcho\<close>, an echo server over a message queue (C14, C16).
    \<open>network/socket/codes/udp-echo\<close>: \<open>UdpEcho\<close>, client and server over datagrams that may get lost.
    \<open>process/ipc/codes/posix-mq\<close>: \<open>PosixMq\<close>, commands on a queue with priorities and the notifier (C7: it comes back after every
    signal, and where it stalls).
    \<open>process/ipc/codes/interface\<close>: \<open>SysvMsg\<close>, the commands on a System V queue (first-in first-out for each type).
    \<open>process/ipc/codes/shared-rw\<close>, \<open>posix-shm\<close>, \<open>shm-rw\<close>: \<open>SharedRecords\<close>, records as bytes in memory that is shared.
  \<^item> \<open>network/socket/codes/epoll-el/et.c\<close>: \<open>EdgeTrigger\<close> (C40). \<open>network/socket/codes/send-fd\<close>: \<open>SendFd\<close>, with a
    theorem that says for which descriptors the program works.
  \<^item> \<open>network/socket/codes/epoll-reactor\<close>: \<open>Reactor\<close> (the table of events and its callbacks) and \<open>ReactorProps\<close> (how
    far the table agrees with the interest list of the kernel when \<open>epoll_ctl\<close> may fail; C38, C39).
  \<^item> \<open>process/ipc/codes/produce-consume/sem.c\<close> and \<open>semtool\<close>: \<open>SemModel\<close> (the semaphore tables of the kernel, the
    wrappers, the command line tool) and \<open>SemtoolProps\<close> (\<open>semtool_spec\<close> is the abstract table of counters that the tool
    implements; C20, C21).
  \<^item> programs of several processes: \<open>Interleave\<close> has processes as lists of atomic actions, all their interleavings, and
    the locale \<open>account\<close> by which a semaphore is reasoned about: the level of the shared world and what the
    processes hold of it add up. It is interpreted for each semaphore of each program: \<open>RingFifo\<close>, \<open>RingInv\<close>,
    \<open>RingCorrect\<close>, \<open>RingProps\<close> (\<open>produce-consume/fifo.c\<close>, \<open>produce.c\<close>, \<open>consume.c\<close>; C24 to C28), \<open>Dinner\<close>
    (\<open>dinner/dinner.c\<close>; C29, C30), \<open>PrintTwice\<close> (\<open>print/print.c\<close>; C31), \<open>PosixStore\<close> and \<open>PosixProps\<close>
    (\<open>posix-produce-consume.c\<close>; C32). \<open>Multicopy\<close> (\<open>multicopy/multicopy.c\<close>; C36) has no lock to reason about.
    \<open>CondStore\<close> (\<open>cond-produce-consume.c\<close>; C35) and \<open>CountSignals\<close>
    (\<open>cpp/codes/async-count/io.c\<close>; C34) are step relations of their own.
  \<^item> \<open>cpp/codes/my_sleep/sleep.c\<close>: \<open>MySleep\<close>, \<open>sleep\<close> out of signals: it sleeps and it wakes, whatever arrives
    before, during and after the wait (C19). \<open>computer_system/ftoi.cpp\<close>: \<open>Ftoi\<close> (C37).

  \<^bold>\<open>How the code is modelled.\<close> A structure is a record with the members of the source, a pointer into a table or a heap an
  index, an array a list whose accesses are checked. Integers are \<open>int\<close> or \<open>nat\<close> where the code stays far from the
  limits or an overflow is an explicit fault, and words of their width where the bits matter. A loop is a recursive
  function that terminates because the input, the script of the kernel or the rest of an array gets shorter; the loops
  that run for ever are step relations. What a system call returns is an argument, or chosen by a step relation; what it
  does to the tables of the kernel is written out as its manual page says. Uninitialised memory is an argument too.

  \<^bold>\<open>What is not modelled.\<close> The address structures of sockets, messages on the error stream, random sleeping times. The
  programs of the repository that only demonstrate a system call (anonymous \<open>mmap\<close>, thread attributes, socket
  pairs, broadcast) have no state of their own and no logic beside the sequence of their calls. The
  other languages (Python, Java and shell examples) are not covered.
\<close>

end
